(* ===== verification/Prelude.thy ===== *)
theory Prelude
  imports Main "HOL-Library.Word" "HOL-Library.Sublist"
begin

text \<open>
  Shared vocabulary of the development: names for Rust's machine integers and byte
  strings, big- and little-endian integer encodings (Rust's \<open>to_be_bytes\<close>,
  \<open>from_be_bytes\<close>, \<open>to_le_bytes\<close>, \<open>from_le_bytes\<close>), saturating subtraction on
  naturals, decimal printing (Rust's \<open>Display\<close> of an unsigned integer), the searches
  of the \<open>memchr\<close> crate, and generic list lemmas that several components use.
  Nothing here is specific to Houston.
\<close>

type_synonym byte = "8 word"
type_synonym u8 = "8 word"
type_synonym u32 = "32 word"
type_synonym u64 = "64 word"

named_theorems wire_simps "facts about the byte encodings of frames and snapshots"
named_theorems scan_simps "facts about byte searches and prefix tests"

section \<open>Integers as bytes\<close>

fun nat_be :: "nat \<Rightarrow> nat \<Rightarrow> byte list" where
  "nat_be 0 x = []"
| "nat_be (Suc n) x = word_of_nat (x div 256 ^ n) # nat_be n x"

definition be_nat :: "byte list \<Rightarrow> nat" where
  "be_nat bs = foldl (\<lambda>acc b. acc * 256 + unat b) 0 bs"

definition nat_le :: "nat \<Rightarrow> nat \<Rightarrow> byte list" where
  "nat_le n x = rev (nat_be n x)"

definition le_nat :: "byte list \<Rightarrow> nat" where
  "le_nat bs = be_nat (rev bs)"

lemma length_nat_be [simp, wire_simps]: "length (nat_be n x) = n"
  by (induction n x rule: nat_be.induct) auto

lemma length_nat_le [simp, wire_simps]: "length (nat_le n x) = n"
  by (simp add: nat_le_def)

lemma foldl_be_acc:
  "foldl (\<lambda>acc b. acc * 256 + unat b) a bs
     = a * 256 ^ length bs + foldl (\<lambda>acc (b::byte). acc * 256 + unat b) 0 bs"
proof (induction bs arbitrary: a)
  case Nil
  then show ?case by simp
next
  case (Cons b bs)
  show ?case
    by (simp only: foldl_Cons Cons.IH [of "a * 256 + unat b"] Cons.IH [of "0 * 256 + unat b"])
      (simp add: algebra_simps)
qed

lemma be_nat_Nil [simp]: "be_nat [] = 0"
  by (simp add: be_nat_def)

lemma be_nat_Cons: "be_nat (b # bs) = unat b * 256 ^ length bs + be_nat bs"
proof -
  have "be_nat (b # bs) = foldl (\<lambda>acc b. acc * 256 + unat b) (unat b) bs"
    by (simp add: be_nat_def)
  also have "\<dots> = unat b * 256 ^ length bs + be_nat bs"
    by (subst foldl_be_acc) (simp add: be_nat_def)
  finally show ?thesis .
qed

lemma unat_word_of_nat_byte: "unat (word_of_nat n :: byte) = n mod 256"
  by (simp add: unat_of_nat)

lemma be_nat_nat_be [wire_simps]: "be_nat (nat_be n x) = x mod 256 ^ n"
proof (induction n)
  case 0
  then show ?case by simp
next
  case (Suc n)
  have "x mod 256 ^ Suc n = x div 256 ^ n mod 256 * 256 ^ n + x mod 256 ^ n"
    using mod_mult2_eq [of x "256 ^ n" 256] by (simp add: mult.commute)
  with Suc show ?case
    by (simp add: be_nat_Cons unat_word_of_nat_byte)
qed

lemma le_nat_nat_le [wire_simps]: "le_nat (nat_le n x) = x mod 256 ^ n"
  by (simp add: le_nat_def nat_le_def be_nat_nat_be)

lemma u32_be_roundtrip [wire_simps]: "word_of_nat (be_nat (nat_be 4 (unat w))) = (w :: u32)"
proof -
  have "unat w < 2 ^ LENGTH(32)" by (rule unsigned_less)
  then show ?thesis by (simp add: be_nat_nat_be)
qed

lemma u64_be_roundtrip [wire_simps]: "word_of_nat (be_nat (nat_be 8 (unat w))) = (w :: u64)"
proof -
  have "unat w < 2 ^ LENGTH(64)" by (rule unsigned_less)
  then show ?thesis by (simp add: be_nat_nat_be)
qed

lemma be_nat_less: "be_nat bs < 256 ^ length bs"
proof (induction bs)
  case Nil
  then show ?case by simp
next
  case (Cons b bs)
  have "unat b < 2 ^ LENGTH(8)" by (rule unsigned_less)
  then have "(unat b + 1) * 256 ^ length bs \<le> 256 * 256 ^ length bs"
    by (intro mult_le_mono1) simp
  then have "unat b * 256 ^ length bs + 256 ^ length bs \<le> 256 ^ length (b # bs)"
    by (simp only: add_mult_distrib mult_1 power_Suc length_Cons)
  with Cons show ?case by (simp only: be_nat_Cons)
qed

lemma nat_be_be_nat: "nat_be (length bs) (k * 256 ^ length bs + be_nat bs) = bs"
proof (induction bs arbitrary: k)
  case Nil
  then show ?case by simp
next
  case (Cons b bs)
  let ?n = "length bs"
  have "(k * 256 ^ Suc ?n + be_nat (b # bs)) = (k * 256 + unat b) * 256 ^ ?n + be_nat bs"
    by (simp add: be_nat_Cons algebra_simps)
  moreover have "((k * 256 + unat b) * 256 ^ ?n + be_nat bs) div 256 ^ ?n = k * 256 + unat b"
    using be_nat_less [of bs] by simp
  moreover have "(word_of_nat (k * 256 + unat b) :: byte) = b"
  proof (rule unsigned_word_eqI)
    have "unat b < 2 ^ LENGTH(8)" by (rule unsigned_less)
    then show "unat (word_of_nat (k * 256 + unat b) :: byte) = unat b"
      unfolding unat_word_of_nat_byte by simp
  qed
  ultimately show ?case
    using Cons.IH [of "k * 256 + unat b"] by simp
qed

lemma nat_le_le_nat: "length bs = n \<Longrightarrow> nat_le n (le_nat bs) = bs"
  using nat_be_be_nat [of "rev bs" 0] by (simp add: nat_le_def le_nat_def)

lemma le_nat_less: "le_nat bs < 256 ^ length bs"
  using be_nat_less [of "rev bs"] by (simp add: le_nat_def)

section \<open>Strings, decimals\<close>

definition bytes_of :: "string \<Rightarrow> byte list" where
  "bytes_of s = map of_char s"

definition string_of :: "byte list \<Rightarrow> string" where
  "string_of bs = map (\<lambda>b. char_of (unat b)) bs"

fun dec :: "nat \<Rightarrow> string" where
  "dec n = (if n < 10 then [char_of (48 + n)] else dec (n div 10) @ [char_of (48 + n mod 10)])"

declare dec.simps [simp del]

lemma dec_nonempty [simp]: "dec n \<noteq> []"
  by (subst dec.simps) simp

text \<open>Rust's \<open>join\<close> on a slice of strings.\<close>

fun join_with :: "string \<Rightarrow> string list \<Rightarrow> string" where
  "join_with sep [] = []"
| "join_with sep [x] = x"
| "join_with sep (x # xs) = x @ sep @ join_with sep xs"

section \<open>Searches over byte strings\<close>

text \<open>\<open>find_index p xs\<close>: the index of the first element that satisfies \<open>p\<close>
  (\<open>memchr::memchr\<close> is \<open>find_index ((=) b)\<close>, \<open>Iterator::position\<close> is the general case).\<close>

fun find_index :: "('a \<Rightarrow> bool) \<Rightarrow> 'a list \<Rightarrow> nat option" where
  "find_index p [] = None"
| "find_index p (x # xs) = (if p x then Some 0 else map_option Suc (find_index p xs))"

lemma find_index_None_iff [scan_simps]: "find_index p xs = None \<longleftrightarrow> (\<forall>x \<in> set xs. \<not> p x)"
  by (induction xs) auto

lemma find_index_SomeD:
  "find_index p xs = Some i \<Longrightarrow> i < length xs \<and> p (xs ! i) \<and> (\<forall>j < i. \<not> p (xs ! j))"
proof (induction xs arbitrary: i)
  case Nil
  then show ?case by simp
next
  case (Cons x xs)
  then show ?case
    by (auto split: if_splits simp: nth_Cons less_Suc_eq_0_disj split: nat.splits)
qed

lemma find_index_append:
  "find_index p (xs @ ys) = (case find_index p xs of
      Some i \<Rightarrow> Some i | None \<Rightarrow> map_option ((+) (length xs)) (find_index p ys))"
proof (induction xs)
  case Nil
  have "(+) (0::nat) = id" by auto
  then show ?case by (simp add: option.map_id)
next
  case (Cons x xs)
  have "(\<lambda>k. Suc (length xs + k)) = (+) (Suc (length xs))" by auto
  with Cons show ?case by (auto split: option.splits simp: option.map_comp comp_def)
qed

lemma find_index_less: "find_index p xs = Some i \<Longrightarrow> i < length xs"
  by (auto dest: find_index_SomeD)

text \<open>\<open>contains needle xs\<close> is \<open>memchr::memmem::find(xs, needle).is_some()\<close>; \<open>strip_prefix\<close> is the
  method of Rust's slices and strings.\<close>

fun contains :: "'a list \<Rightarrow> 'a list \<Rightarrow> bool" where
  "contains needle [] \<longleftrightarrow> needle = []"
| "contains needle (x # xs) \<longleftrightarrow> prefix needle (x # xs) \<or> contains needle xs"

definition strip_prefix :: "'a list \<Rightarrow> 'a list \<Rightarrow> 'a list option" where
  "strip_prefix p xs = (if prefix p xs then Some (drop (length p) xs) else None)"

lemma contains_sublist: "contains needle xs \<longleftrightarrow> sublist needle xs"
  by (induction xs) (auto simp: sublist_Cons_right)

lemma strip_prefix_Some_iff [scan_simps]: "strip_prefix p xs = Some ys \<longleftrightarrow> xs = p @ ys"
  by (auto simp: strip_prefix_def prefix_def)

section \<open>List lemmas\<close>

lemma sum_list_filter_le: "sum_list (map f (filter P xs)) \<le> (sum_list (map f xs) :: nat)"
  by (induction xs) auto

lemma length_filter_filter_le: "length (filter P (filter Q xs)) \<le> length (filter P xs)"
  by (induction xs) auto

lemma find_SomeD: "List.find P xs = Some x \<Longrightarrow> P x \<and> x \<in> set xs"
  by (induction xs) (auto split: if_splits)

text \<open>Rust's \<open>Iterator::find_map\<close>.\<close>

fun find_map :: "('a \<Rightarrow> 'b option) \<Rightarrow> 'a list \<Rightarrow> 'b option" where
  "find_map f [] = None"
| "find_map f (x # xs) = (case f x of Some y \<Rightarrow> Some y | None \<Rightarrow> find_map f xs)"

lemma find_map_None_iff: "find_map f xs = None \<longleftrightarrow> (\<forall>x \<in> set xs. f x = None)"
  by (induction xs) (auto split: option.splits)

text \<open>\<open>Option::or\<close>, \<open>Option::filter\<close>.\<close>

fun or_else :: "'a option \<Rightarrow> 'a option \<Rightarrow> 'a option" where
  "or_else None y = y"
| "or_else (Some x) y = Some x"

fun filter_option :: "('a \<Rightarrow> bool) \<Rightarrow> 'a option \<Rightarrow> 'a option" where
  "filter_option p None = None"
| "filter_option p (Some x) = (if p x then Some x else None)"

lemma filter_option_Some_iff [simp]: "filter_option p o' = Some x \<longleftrightarrow> o' = Some x \<and> p x"
  by (cases o') auto

lemma filter_option_None_iff: "filter_option p o' = None \<longleftrightarrow> (\<forall>x. o' = Some x \<longrightarrow> \<not> p x)"
  by (cases o') auto

lemma or_else_None_iff [simp]: "or_else a b = None \<longleftrightarrow> a = None \<and> b = None"
  by (cases a) auto

end
