(* ===== verification/Wire.thy ===== *)
theory Wire
  imports Prelude
begin

text \<open>
  The binary frames of the \<open>/ws\<close> connection
  (\<^verbatim>\<open>core/houston-protocol/src/lib.rs\<close>): PTY output, typed input and gap notices.
  A frame is a tag byte, a big-endian session number and, by kind, a big-endian stream
  offset, a payload or a dropped-byte count. The decoders are total and answer \<open>None\<close>
  on a frame they refuse, as the code's do.
\<close>

definition FRAME_OUTPUT :: u8 where "FRAME_OUTPUT = 1"
definition FRAME_STDIN :: u8 where "FRAME_STDIN = 2"
definition FRAME_GAP :: u8 where "FRAME_GAP = 3"
definition FRAME_STDIN_HEADER_LEN :: nat where "FRAME_STDIN_HEADER_LEN = 5"
definition FRAME_OUTPUT_HEADER_LEN :: nat where "FRAME_OUTPUT_HEADER_LEN = 13"
definition FRAME_GAP_LEN :: nat where "FRAME_GAP_LEN = 21"

lemmas frame_consts = FRAME_OUTPUT_def FRAME_STDIN_def FRAME_GAP_def
  FRAME_STDIN_HEADER_LEN_def FRAME_OUTPUT_HEADER_LEN_def FRAME_GAP_LEN_def

definition encode_output_frame :: "u32 \<Rightarrow> u64 \<Rightarrow> byte list \<Rightarrow> byte list" where
  "encode_output_frame session offset payload =
     FRAME_OUTPUT # nat_be 4 (unat session) @ nat_be 8 (unat offset) @ payload"

definition decode_output_frame :: "byte list \<Rightarrow> (u32 \<times> u64 \<times> byte list) option" where
  "decode_output_frame buf =
     (if length buf < FRAME_OUTPUT_HEADER_LEN \<or> buf ! 0 \<noteq> FRAME_OUTPUT then None
      else Some (word_of_nat (be_nat (take 4 (drop 1 buf))),
                 word_of_nat (be_nat (take 8 (drop 5 buf))),
                 drop FRAME_OUTPUT_HEADER_LEN buf))"

definition encode_stdin_frame :: "u32 \<Rightarrow> byte list \<Rightarrow> byte list" where
  "encode_stdin_frame session payload = FRAME_STDIN # nat_be 4 (unat session) @ payload"

definition decode_stdin_frame :: "byte list \<Rightarrow> (u32 \<times> byte list) option" where
  "decode_stdin_frame buf =
     (if length buf < FRAME_STDIN_HEADER_LEN \<or> buf ! 0 \<noteq> FRAME_STDIN then None
      else Some (word_of_nat (be_nat (take 4 (drop 1 buf))),
                 drop FRAME_STDIN_HEADER_LEN buf))"

definition encode_gap_frame :: "u32 \<Rightarrow> u64 \<Rightarrow> u64 \<Rightarrow> byte list" where
  "encode_gap_frame session bytes_seen dropped =
     FRAME_GAP # nat_be 4 (unat session) @ nat_be 8 (unat bytes_seen) @ nat_be 8 (unat dropped)"

definition decode_gap_frame :: "byte list \<Rightarrow> (u32 \<times> u64 \<times> u64) option" where
  "decode_gap_frame buf =
     (if length buf \<noteq> FRAME_GAP_LEN \<or> buf ! 0 \<noteq> FRAME_GAP then None
      else Some (word_of_nat (be_nat (take 4 (drop 1 buf))),
                 word_of_nat (be_nat (take 8 (drop 5 buf))),
                 word_of_nat (be_nat (take 8 (drop 13 buf)))))"

lemma length_encode_output [simp, wire_simps]:
  "length (encode_output_frame s o' p) = FRAME_OUTPUT_HEADER_LEN + length p"
  by (simp add: encode_output_frame_def frame_consts)

lemma decode_encode_output [simp, wire_simps]:
  "decode_output_frame (encode_output_frame s o' p) = Some (s, o', p)"
  by (simp add: decode_output_frame_def encode_output_frame_def frame_consts
      u32_be_roundtrip u64_be_roundtrip)

lemma decode_encode_stdin [simp, wire_simps]:
  "decode_stdin_frame (encode_stdin_frame s p) = Some (s, p)"
  by (simp add: decode_stdin_frame_def encode_stdin_frame_def frame_consts u32_be_roundtrip)

lemma decode_encode_gap [simp, wire_simps]:
  "decode_gap_frame (encode_gap_frame s b d) = Some (s, b, d)"
  by (simp add: decode_gap_frame_def encode_gap_frame_def frame_consts
      u32_be_roundtrip u64_be_roundtrip)

text \<open>the frame codecs are lossless and their tags keep the kinds apart: each decoder
  recovers what its encoder wrote and refuses the frames of the other kinds.\<close>

theorem frame_codecs_roundtrip:
  "decode_output_frame (encode_output_frame s o' p) = Some (s, o', p)
   \<and> decode_stdin_frame (encode_stdin_frame s p) = Some (s, p)
   \<and> decode_gap_frame (encode_gap_frame s b d) = Some (s, b, d)
   \<and> decode_stdin_frame (encode_output_frame s o' p) = None
   \<and> decode_gap_frame (encode_output_frame s o' p) = None
   \<and> decode_output_frame (encode_stdin_frame s p) = None
   \<and> decode_gap_frame (encode_stdin_frame s p) = None
   \<and> decode_output_frame (encode_gap_frame s b d) = None
   \<and> decode_stdin_frame (encode_gap_frame s b d) = None"
  by (simp add: decode_output_frame_def encode_output_frame_def decode_stdin_frame_def
      encode_stdin_frame_def decode_gap_frame_def encode_gap_frame_def frame_consts
      u32_be_roundtrip u64_be_roundtrip)

end
