(* ===== verification/Frame_Queue.thy ===== *)
theory Frame_Queue
  imports Wire "HOL-Library.Monad_Syntax"
begin

text \<open>
  The bounded per-session output queue between a PTY and one client connection
  (\<^verbatim>\<open>core/houston-core/src/frame_queue.rs\<close>). A tap coalesces contiguous frames, drops what
  does not fit and reports each drop episode as one gap. Offsets and drop counts keep
  their 64 bits; \<open>usize\<close> counters are naturals. A panic of the code (an \<open>expect\<close> on
  a frame that does not decode, the \<open>unreachable!\<close> of the merge branch) is the value
  \<open>None\<close>. Taps are shared by reference, so the registry is modelled over a store that
  maps tap addresses to taps. The mutex and the \<open>Notify\<close> permit are the flag
  \<open>woken\<close>, set where the code calls \<open>notify_one\<close>.
\<close>

section \<open>State\<close>

definition FRAME_QUEUE_DEPTH :: nat where "FRAME_QUEUE_DEPTH = 4096"
definition FRAME_QUEUE_BYTES :: nat where "FRAME_QUEUE_BYTES = 4 * 1024 * 1024"
definition FRAME_MERGE_CEILING_BYTES :: nat where "FRAME_MERGE_CEILING_BYTES = 256 * 1024"

datatype queued = Frame "byte list" | Gap (gap_anchor: u64) (gap_dropped: u64)

record pending_frame =
  pf_session :: u32
  pf_offset :: u64
  pf_payload :: "byte list"

record tap_state =
  tap_queue :: "queued list"
  tap_frames :: nat
  tap_bytes :: nat
  tap_pending :: "pending_frame option"
  tap_dropped :: u64
  tap_drop_anchor :: u64
  tap_dropping :: bool
  tap_cutoff :: u64
  tap_attempts :: u32

record frame_tap =
  ft_session :: "u32 option"
  ft_woken :: bool
  ft_state :: tap_state

definition tap_state_new :: tap_state where
  "tap_state_new = \<lparr>tap_queue = [], tap_frames = 0, tap_bytes = 0, tap_pending = None,
     tap_dropped = 0, tap_drop_anchor = 0, tap_dropping = False, tap_cutoff = 0,
     tap_attempts = 0\<rparr>"

definition frame_tap_new :: "u32 option \<Rightarrow> frame_tap" where
  "frame_tap_new session = \<lparr>ft_session = session, ft_woken = False, ft_state = tap_state_new\<rparr>"

section \<open>Operations of one tap\<close>

datatype tail_merge = MergePending | MergeQueuedFrame

definition tail_merge_target :: "tap_state \<Rightarrow> u32 \<Rightarrow> u64 \<Rightarrow> nat \<Rightarrow> tail_merge option option" where
  "tail_merge_target s session offset payload_len =
     (case tap_pending s of
        Some p \<Rightarrow>
          Some (if pf_session p = session
                   \<and> pf_offset p + of_nat (length (pf_payload p)) = offset
                   \<and> length (pf_payload p) + payload_len \<le> FRAME_MERGE_CEILING_BYTES
                then Some MergePending else None)
      | None \<Rightarrow>
          (case rev (tap_queue s) of
             Frame lst # _ \<Rightarrow>
               (case decode_output_frame lst of
                  None \<Rightarrow> None
                | Some (last_session, last_offset, last_payload) \<Rightarrow>
                    Some (if last_session = session
                             \<and> last_offset + of_nat (length last_payload) = offset
                             \<and> length last_payload + payload_len \<le> FRAME_MERGE_CEILING_BYTES
                          then Some MergeQueuedFrame else None))
           | _ \<Rightarrow> Some None))"

definition record_drop :: "tap_state \<Rightarrow> u64 \<Rightarrow> nat \<Rightarrow> tap_state" where
  "record_drop s offset payload_len =
     (let s1 = s\<lparr>tap_dropped := tap_dropped s + of_nat payload_len\<rparr>
      in if tap_dropping s1 then s1
         else s1\<lparr>tap_dropping := True, tap_drop_anchor := offset\<rparr>)"

definition finalize_pending :: "tap_state \<Rightarrow> tap_state" where
  "finalize_pending s =
     (case tap_pending s of
        None \<Rightarrow> s
      | Some p \<Rightarrow> s\<lparr>tap_pending := None,
                   tap_queue := tap_queue s @
                     [Frame (encode_output_frame (pf_session p) (pf_offset p) (pf_payload p))]\<rparr>)"

definition push_gap :: "tap_state \<Rightarrow> tap_state" where
  "push_gap s =
     (if tap_dropping s
      then s\<lparr>tap_queue := tap_queue s @ [Gap (tap_drop_anchor s) (tap_dropped s)],
             tap_dropping := False, tap_dropped := 0\<rparr>
      else s)"

definition enqueue :: "tap_state \<Rightarrow> tail_merge option \<Rightarrow> u32 \<Rightarrow> byte list \<Rightarrow> nat \<Rightarrow> byte list \<Rightarrow> tap_state option" where
  "enqueue s merge_ok session payload payload_len frame =
     (case merge_ok of
        Some MergePending \<Rightarrow>
          (case tap_pending s of
             None \<Rightarrow> None
           | Some p \<Rightarrow> Some (s\<lparr>tap_pending := Some (p\<lparr>pf_payload := pf_payload p @ payload\<rparr>),
                               tap_bytes := tap_bytes s + payload_len\<rparr>))
      | Some MergeQueuedFrame \<Rightarrow>
          (case rev (tap_queue s) of
             Frame lst # before \<Rightarrow>
               (case decode_output_frame lst of
                  None \<Rightarrow> None
                | Some (_, last_offset, last_payload) \<Rightarrow>
                    Some (s\<lparr>tap_queue := rev before,
                            tap_pending := Some \<lparr>pf_session = session, pf_offset = last_offset,
                                                 pf_payload = last_payload @ payload\<rparr>,
                            tap_bytes := tap_bytes s + payload_len\<rparr>))
           | _ \<Rightarrow> None)
      | None \<Rightarrow>
          Some (s\<lparr>tap_queue := tap_queue s @ [Frame frame],
                  tap_frames := tap_frames s + 1,
                  tap_bytes := tap_bytes s + payload_len\<rparr>))"

text \<open>The flag of the result says whether the writer was woken.\<close>

definition offer :: "tap_state \<Rightarrow> u64 \<Rightarrow> nat \<Rightarrow> byte list \<Rightarrow> (tap_state \<times> bool) option" where
  "offer s offset payload_len frame =
     (if offset + of_nat payload_len \<le> tap_cutoff s then Some (s, False)
      else do {
        (session, _, payload) \<leftarrow> decode_output_frame frame;
        merge_ok \<leftarrow> tail_merge_target s session offset payload_len;
        if merge_ok = None \<and> tap_frames s \<ge> FRAME_QUEUE_DEPTH
        then Some (record_drop s offset payload_len, False)
        else if tap_bytes s + payload_len > FRAME_QUEUE_BYTES
        then Some (record_drop s offset payload_len, False)
        else do {
          let s1 = (if merge_ok = None then finalize_pending s else s);
          s2 \<leftarrow> enqueue (push_gap s1) merge_ok session payload payload_len frame;
          Some (s2, True)
        }
      })"

definition clear :: "tap_state \<Rightarrow> tap_state" where
  "clear s = s\<lparr>tap_queue := [], tap_pending := None, tap_frames := 0, tap_bytes := 0,
     tap_dropping := False, tap_dropped := 0\<rparr>"

definition drain :: "tap_state \<Rightarrow> queued list \<times> tap_state" where
  "drain s =
     (let s1 = finalize_pending s;
          out = tap_queue s1;
          s2 = s1\<lparr>tap_queue := [], tap_frames := 0, tap_bytes := 0\<rparr>
      in if tap_dropping s2
         then (out @ [Gap (tap_drop_anchor s2) (tap_dropped s2)],
               s2\<lparr>tap_dropping := False, tap_dropped := 0\<rparr>)
         else (out, s2))"

text \<open>
  The loop of \<open>drain_up_to\<close>. Each round takes an item off the front, and either the
  room left shrinks or the number of items does.
\<close>

function drain_loop :: "nat \<Rightarrow> nat \<Rightarrow> tap_state \<Rightarrow> queued list \<Rightarrow> (queued list \<times> tap_state) option" where
  "drain_loop budget taken s out =
     (if taken < budget then
        (let s1 = (if tap_queue s = [] then finalize_pending s else s)
         in case tap_queue s1 of
              [] \<Rightarrow> Some (out, s1)
            | Gap a d # rest \<Rightarrow> drain_loop budget taken (s1\<lparr>tap_queue := rest\<rparr>) (out @ [Gap a d])
            | Frame frame # rest \<Rightarrow>
                (case decode_output_frame frame of
                   None \<Rightarrow> None
                 | Some (session, offset, payload) \<Rightarrow>
                     (let room = budget - taken
                      in if length payload > room
                         then drain_loop budget budget
                                (s1\<lparr>tap_queue :=
                                      Frame (encode_output_frame session (offset + of_nat room)
                                               (drop room payload)) # rest,
                                    tap_bytes := tap_bytes s1 - room\<rparr>)
                                (out @ [Frame (encode_output_frame session offset (take room payload))])
                         else drain_loop budget (taken + length payload)
                                (s1\<lparr>tap_queue := rest,
                                    tap_bytes := tap_bytes s1 - length payload,
                                    tap_frames := tap_frames s1 - 1\<rparr>)
                                (out @ [Frame frame]))))
      else Some (out, s))"
  by pat_completeness auto

definition queue_items :: "tap_state \<Rightarrow> nat" where
  "queue_items s = length (tap_queue s) + (case tap_pending s of None \<Rightarrow> 0 | Some _ \<Rightarrow> 1)"

lemma queue_items_finalize [simp]: "queue_items (finalize_pending s) = queue_items s"
  by (simp add: queue_items_def finalize_pending_def split: option.splits)

lemma queue_items_upd [simp]:
  "queue_items (s\<lparr>tap_queue := q\<rparr>) = length q + (queue_items s - length (tap_queue s))"
  "queue_items (s\<lparr>tap_bytes := b\<rparr>) = queue_items s"
  "queue_items (s\<lparr>tap_frames := f\<rparr>) = queue_items s"
  by (simp_all add: queue_items_def)

termination drain_loop
proof (relation "measures [\<lambda>(b, t, s, out). b - t, \<lambda>(b, t, s, out). queue_items s]", goal_cases)
  case 1
  then show ?case by simp
next
  case 2
  then show ?case by simp
next
  case prems: (3 budget taken s out s1 q rest frame r session y offset payload room)
  have "queue_items s1 = queue_items s" using prems(2) by simp
  moreover have "length (tap_queue s1) \<le> queue_items s1" by (simp add: queue_items_def)
  ultimately have "Suc (length rest) \<le> queue_items s" using prems(3,4) by simp
  with prems show ?case by (simp, arith)
next
  case (4 budget taken s out s1 q rest a d)
  have "queue_items s1 = queue_items s" using 4(2) by simp
  moreover have "length (tap_queue s1) \<le> queue_items s1" by (simp add: queue_items_def)
  ultimately show ?case using 4 by simp
qed

declare drain_loop.simps [simp del]

text \<open>The result: the items taken, whether more remain, and the new state.\<close>

definition drain_up_to :: "tap_state \<Rightarrow> nat \<Rightarrow> (queued list \<times> bool \<times> tap_state) option" where
  "drain_up_to s budget =
     (case drain_loop budget 0 s [] of
        None \<Rightarrow> None
      | Some (out, s1) \<Rightarrow>
          (let more = (tap_queue s1 \<noteq> [] \<or> tap_pending s1 \<noteq> None)
           in if \<not> more \<and> tap_dropping s1
              then Some (out @ [Gap (tap_drop_anchor s1) (tap_dropped s1)], more,
                         s1\<lparr>tap_dropping := False, tap_dropped := 0\<rparr>)
              else Some (out, more, s1)))"

definition frame_end :: "byte list \<Rightarrow> u64 option" where
  "frame_end frame = (case decode_output_frame frame of
      None \<Rightarrow> None | Some (_, offset, payload) \<Rightarrow> Some (offset + of_nat (length payload)))"

text \<open>Whether an attach at \<open>cutoff\<close> keeps an item; \<open>None\<close> is the panic of \<open>frame_end\<close>.\<close>

fun retained :: "u64 \<Rightarrow> queued \<Rightarrow> bool option" where
  "retained cutoff (Frame frame) = map_option (\<lambda>e. cutoff < e) (frame_end frame)"
| "retained cutoff (Gap anchor d) = Some (cutoff < anchor + d)"

fun retain_items :: "u64 \<Rightarrow> queued list \<Rightarrow> queued list option" where
  "retain_items cutoff [] = Some []"
| "retain_items cutoff (q # qs) = do {
     keep \<leftarrow> retained cutoff q;
     rest \<leftarrow> retain_items cutoff qs;
     Some (if keep then q # rest else rest)
   }"

fun is_frame :: "queued \<Rightarrow> bool" where
  "is_frame (Frame _) = True"
| "is_frame (Gap _ _) = False"

fun item_bytes :: "queued \<Rightarrow> nat" where
  "item_bytes (Frame frame) = length frame - FRAME_OUTPUT_HEADER_LEN"
| "item_bytes (Gap _ _) = 0"

definition attach :: "tap_state \<Rightarrow> u64 option \<Rightarrow> (u32 \<times> tap_state) option" where
  "attach s bytes_seen =
     (let s0 = s\<lparr>tap_attempts := tap_attempts s + 1\<rparr>
      in case bytes_seen of
           None \<Rightarrow> Some (tap_attempts s0, s0)
         | Some cutoff \<Rightarrow>
             (let s1 = (finalize_pending s0)\<lparr>tap_cutoff := cutoff\<rparr>
              in case retain_items cutoff (tap_queue s1) of
                   None \<Rightarrow> None
                 | Some q \<Rightarrow>
                     (let s2 = s1\<lparr>tap_queue := q,
                                  tap_frames := length (filter is_frame q),
                                  tap_bytes := sum_list (map item_bytes q)\<rparr>;
                          s3 = (if tap_dropping s2 \<and> tap_drop_anchor s2 + tap_dropped s2 \<le> cutoff
                                then s2\<lparr>tap_dropping := False, tap_dropped := 0\<rparr> else s2)
                      in Some (tap_attempts s3, s3))))"

section \<open>The invariant of a tap\<close>

text \<open>
  Every queued frame is an encoded output frame, the two counters count what the queue
  and the pending frame hold, both bounds hold, and no drop is recorded outside a drop
  episode.
\<close>

fun wf_item :: "queued \<Rightarrow> bool" where
  "wf_item (Frame frame) = (\<exists>s o' p. frame = encode_output_frame s o' p)"
| "wf_item (Gap a d) = True"

definition pending_list :: "tap_state \<Rightarrow> pending_frame list" where
  "pending_list s = (case tap_pending s of None \<Rightarrow> [] | Some p \<Rightarrow> [p])"

definition tap_ok :: "tap_state \<Rightarrow> bool" where
  "tap_ok s \<longleftrightarrow>
     (\<forall>q \<in> set (tap_queue s). wf_item q)
     \<and> tap_frames s = length (filter is_frame (tap_queue s)) + length (pending_list s)
     \<and> tap_bytes s = sum_list (map item_bytes (tap_queue s))
                     + sum_list (map (\<lambda>p. length (pf_payload p)) (pending_list s))
     \<and> tap_bytes s \<le> FRAME_QUEUE_BYTES
     \<and> tap_frames s \<le> FRAME_QUEUE_DEPTH
     \<and> (\<not> tap_dropping s \<longrightarrow> tap_dropped s = 0)"

lemmas tap_defs = tap_ok_def pending_list_def finalize_pending_def push_gap_def
  record_drop_def enqueue_def Let_def

lemma item_bytes_encode [simp]: "item_bytes (Frame (encode_output_frame s o' p)) = length p"
  by simp

lemma tap_ok_new [simp, intro]: "tap_ok tap_state_new"
  by (simp add: tap_defs tap_state_new_def)

lemma tap_ok_clear [simp, intro]: "tap_ok (clear s)"
  by (simp add: tap_defs clear_def)

lemma tap_ok_finalize [intro]: "tap_ok s \<Longrightarrow> tap_ok (finalize_pending s)"
  by (auto simp: tap_defs split: option.splits)

lemma tap_ok_push_gap [intro]: "tap_ok s \<Longrightarrow> tap_ok (push_gap s)"
  by (auto simp: tap_defs split: option.splits)

lemma tap_ok_record_drop [intro]: "tap_ok s \<Longrightarrow> tap_ok (record_drop s offset n)"
  by (auto simp: tap_defs split: option.splits)

lemma push_gap_counts [simp]:
  "tap_frames (push_gap s) = tap_frames s" "tap_bytes (push_gap s) = tap_bytes s"
  "tap_pending (push_gap s) = tap_pending s" "tap_cutoff (push_gap s) = tap_cutoff s"
  by (simp_all add: push_gap_def)

lemma finalize_counts [simp]:
  "tap_frames (finalize_pending s) = tap_frames s" "tap_bytes (finalize_pending s) = tap_bytes s"
  "tap_pending (finalize_pending s) = None" "tap_cutoff (finalize_pending s) = tap_cutoff s"
  "tap_dropping (finalize_pending s) = tap_dropping s"
  "tap_dropped (finalize_pending s) = tap_dropped s"
  "tap_drop_anchor (finalize_pending s) = tap_drop_anchor s"
  by (simp_all add: finalize_pending_def split: option.splits)

lemma tap_ok_enqueue:
  assumes ok: "tap_ok s" and room: "tap_bytes s + length payload \<le> FRAME_QUEUE_BYTES"
    and depth: "merge_ok = None \<Longrightarrow> tap_frames s < FRAME_QUEUE_DEPTH"
    and single: "merge_ok = Some MergeQueuedFrame \<Longrightarrow> tap_pending s = None"
    and frame: "frame = encode_output_frame session offset payload"
    and result: "enqueue s merge_ok session payload (length payload) frame = Some s'"
  shows "tap_ok s'"
proof (cases merge_ok)
  case None
  then have "s' = s\<lparr>tap_queue := tap_queue s @ [Frame frame], tap_frames := tap_frames s + 1,
      tap_bytes := tap_bytes s + length payload\<rparr>"
    using result by (simp add: enqueue_def)
  moreover have "wf_item (Frame frame)" using frame by auto
  ultimately show ?thesis
    using ok room depth [OF None] frame by (simp add: tap_ok_def pending_list_def)
next
  case (Some m)
  show ?thesis
  proof (cases m)
    case MergePending
    with Some result obtain p where p: "tap_pending s = Some p"
      and "s' = s\<lparr>tap_pending := Some (p\<lparr>pf_payload := pf_payload p @ payload\<rparr>),
            tap_bytes := tap_bytes s + length payload\<rparr>"
      by (auto simp: enqueue_def split: option.splits)
    with ok room show ?thesis by (simp add: tap_ok_def pending_list_def)
  next
    case MergeQueuedFrame
    with Some result obtain lst before o' p s0 where
      q: "rev (tap_queue s) = Frame lst # before" "decode_output_frame lst = Some (s0, o', p)"
      by (auto simp: enqueue_def split: option.splits list.splits queued.splits)
    then have split: "tap_queue s = rev before @ [Frame lst]"
      by (metis rev.simps(2) rev_rev_ident)
    with ok obtain s1 o1 p1 where "lst = encode_output_frame s1 o1 p1"
      by (auto simp: tap_ok_def)
    with q have lst: "lst = encode_output_frame s0 o' p" by simp
    with q result Some MergeQueuedFrame have s': "s' = s\<lparr>tap_queue := rev before,
        tap_pending := Some \<lparr>pf_session = session, pf_offset = o', pf_payload = p @ payload\<rparr>,
        tap_bytes := tap_bytes s + length payload\<rparr>"
      by (simp add: enqueue_def)
    have "tap_pending s = None" using single Some MergeQueuedFrame by simp
    with ok room split lst s' show ?thesis by (simp add: tap_ok_def pending_list_def)
  qed
qed

lemma merge_queued_no_pending:
  "tail_merge_target s session offset n = Some (Some MergeQueuedFrame) \<Longrightarrow> tap_pending s = None"
  by (auto simp: tail_merge_target_def split: option.splits if_splits)

lemma tap_ok_offer:
  assumes ok: "tap_ok s" and frame: "frame = encode_output_frame session o' payload"
    and result: "offer s offset (length payload) frame = Some (s', w)"
  shows "tap_ok s'"
proof (cases "offset + of_nat (length payload) \<le> tap_cutoff s")
  case True
  with ok result show ?thesis by (simp add: offer_def)
next
  case low: False
  with result frame obtain m where m: "tail_merge_target s session offset (length payload) = Some m"
    by (auto simp: offer_def split: Option.bind_splits)
  show ?thesis
  proof (cases "m = None \<and> tap_frames s \<ge> FRAME_QUEUE_DEPTH
                \<or> tap_bytes s + length payload > FRAME_QUEUE_BYTES")
    case True
    with low result frame m have "s' = record_drop s offset (length payload)"
      by (auto simp: offer_def split: if_splits)
    with ok show ?thesis by auto
  next
    case False
    define s1 where "s1 = (if m = None then finalize_pending s else s)"
    from False low result frame m s1_def
    have e: "enqueue (push_gap s1) m session payload (length payload) frame = Some s'"
      by (auto simp: offer_def Let_def split: if_splits Option.bind_splits)
    show ?thesis
    proof (rule tap_ok_enqueue [OF _ _ _ _ frame e])
      show "tap_ok (push_gap s1)" using ok by (auto simp: s1_def)
      show "tap_bytes (push_gap s1) + length payload \<le> FRAME_QUEUE_BYTES"
        using False by (simp add: s1_def)
      show "m = None \<Longrightarrow> tap_frames (push_gap s1) < FRAME_QUEUE_DEPTH"
        using False by (simp add: s1_def)
      show "m = Some MergeQueuedFrame \<Longrightarrow> tap_pending (push_gap s1) = None"
        using merge_queued_no_pending m by (simp add: s1_def)
    qed
  qed
qed

end
