(* ===== verification/Frame_Stream.thy ===== *)
theory Frame_Stream
  imports Frame_Queue
begin

text \<open>
  What a tap promises about one session's byte stream. The abstract view of a list of
  queue items is the list of stream positions it covers: \<open>Some b\<close> where the byte is
  carried, \<open>None\<close> where a gap reports it lost. The operations of \<open>Frame_Queue\<close> refine
  this view: an offer appends the payload or appends a hole of the same length, a drain
  moves a prefix out, and the items always stand at consecutive stream offsets.
\<close>

section \<open>The abstract view\<close>

fun item_view :: "queued \<Rightarrow> byte option list" where
  "item_view (Frame frame) =
     (case decode_output_frame frame of None \<Rightarrow> [] | Some (_, _, p) \<Rightarrow> map Some p)"
| "item_view (Gap a d) = replicate (unat d) None"

definition views :: "queued list \<Rightarrow> byte option list" where
  "views qs = concat (map item_view qs)"

definition open_gap :: "tap_state \<Rightarrow> queued list" where
  "open_gap s = (if tap_dropping s then [Gap (tap_drop_anchor s) (tap_dropped s)] else [])"

definition tap_items :: "tap_state \<Rightarrow> queued list" where
  "tap_items s = tap_queue (finalize_pending s) @ open_gap s"

definition payload_bytes :: "queued list \<Rightarrow> nat" where
  "payload_bytes qs = sum_list (map item_bytes qs)"

text \<open>Items of one session at consecutive offsets from \<open>pos\<close> on.\<close>

fun chain :: "u32 \<Rightarrow> u64 \<Rightarrow> queued list \<Rightarrow> bool" where
  "chain sess pos [] = True"
| "chain sess pos (Frame frame # qs) =
     (case decode_output_frame frame of
        None \<Rightarrow> False
      | Some (s, o', p) \<Rightarrow> s = sess \<and> o' = pos \<and> chain sess (pos + of_nat (length p)) qs)"
| "chain sess pos (Gap a d # qs) = (a = pos \<and> chain sess (pos + d) qs)"

definition faithful :: "byte option list \<Rightarrow> byte list \<Rightarrow> bool" where
  "faithful v bs \<longleftrightarrow> list_all2 (\<lambda>x b. x = None \<or> x = Some b) v bs"

lemma views_simps [simp]:
  "views [] = []" "views (q # qs) = item_view q @ views qs" "views (qs @ rs) = views qs @ views rs"
  by (simp_all add: views_def)

lemma payload_bytes_simps [simp]:
  "payload_bytes [] = 0" "payload_bytes (q # qs) = item_bytes q + payload_bytes qs"
  "payload_bytes (qs @ rs) = payload_bytes qs + payload_bytes rs"
  by (simp_all add: payload_bytes_def)

lemma chain_append:
  "chain sess pos (xs @ ys) \<longleftrightarrow>
     chain sess pos xs \<and> chain sess (pos + of_nat (length (views xs))) ys"
proof (induction sess pos xs rule: chain.induct)
  case (1 sess pos)
  then show ?case by simp
next
  case (2 sess pos frame qs)
  then show ?case by (auto split: option.splits simp: algebra_simps)
next
  case (3 sess pos a d qs)
  then show ?case by (simp add: algebra_simps)
qed

lemma tap_items_new [simp]: "tap_items tap_state_new = []"
  by (simp add: tap_items_def open_gap_def finalize_pending_def tap_state_new_def)

lemma tap_items_finalize [simp]: "tap_items (finalize_pending s) = tap_items s"
  by (simp add: tap_items_def open_gap_def finalize_pending_def split: option.splits)

lemma faithful_append_data: "faithful v bs \<Longrightarrow> faithful (v @ map Some p) (bs @ p)"
  by (auto simp: faithful_def list_all2_map1 list_all2_refl intro: list_all2_appendI)

lemma faithful_append_hole: "faithful v bs \<Longrightarrow> faithful (v @ replicate (length p) None) (bs @ p)"
  by (auto simp: faithful_def list_all2_conv_all_nth nth_append)

lemma faithful_length: "faithful v bs \<Longrightarrow> length v = length bs"
  by (auto simp: faithful_def dest: list_all2_lengthD)

section \<open>One offer refines the view\<close>

definition drop_counted :: "tap_state \<Rightarrow> bool" where
  "drop_counted s \<longleftrightarrow> (tap_dropping s \<longrightarrow> tap_dropped s \<noteq> 0)"

lemma unat_of_nat64: "n < 2 ^ 64 \<Longrightarrow> unat (of_nat n :: u64) = n"
  by (simp add: unat_of_nat)

lemma word64_of_nat_nonzero: "0 < n \<Longrightarrow> n < 2 ^ 64 \<Longrightarrow> (of_nat n :: u64) \<noteq> 0"
  using unat_of_nat64 [of n] by auto

lemma unat_add_of_nat64:
  "unat (d :: u64) + n < 2 ^ 64 \<Longrightarrow> unat (d + of_nat n) = unat d + n"
  by (simp add: unat_word_ariths unat_of_nat)

lemma record_drop_items:
  assumes ok: "tap_ok s" and chain: "chain sess pos (tap_items s)"
    and at: "offset = pos + of_nat (length (views (tap_items s)))"
    and n: "0 < n" "length (views (tap_items s)) + n < 2 ^ 64"
  shows "chain sess pos (tap_items (record_drop s offset n))
         \<and> views (tap_items (record_drop s offset n)) = views (tap_items s) @ replicate n None
         \<and> drop_counted (record_drop s offset n)"
proof -
  let ?q = "tap_queue (finalize_pending s)"
  have q: "tap_queue (finalize_pending (record_drop s offset n)) = ?q"
    by (simp add: record_drop_def Let_def finalize_pending_def split: option.splits)
  show ?thesis
  proof (cases "tap_dropping s")
    case True
    let ?a = "tap_drop_anchor s" and ?d = "tap_dropped s"
    have items: "tap_items s = ?q @ [Gap ?a ?d]"
      using True by (simp add: tap_items_def open_gap_def)
    have new: "tap_items (record_drop s offset n) = ?q @ [Gap ?a (?d + of_nat n)]"
      unfolding tap_items_def q using True by (simp add: open_gap_def record_drop_def)
    have u: "unat (?d + of_nat n) = unat ?d + n"
      using n items by (intro unat_add_of_nat64) simp
    have "?d + of_nat n \<noteq> 0"
      using u n by (metis add_is_0 not_gr_zero unsigned_0)
    with chain u True show ?thesis
      unfolding items new
      by (auto simp: chain_append drop_counted_def record_drop_def replicate_add)
  next
    case False
    then have zero: "tap_dropped s = 0" using ok by (simp add: tap_ok_def)
    have items: "tap_items s = ?q" using False by (simp add: tap_items_def open_gap_def)
    have new: "tap_items (record_drop s offset n) = ?q @ [Gap offset (of_nat n)]"
      unfolding tap_items_def q using False zero by (simp add: open_gap_def record_drop_def Let_def)
    have "unat (of_nat n :: u64) = n" using n by (intro unat_of_nat64) simp
    moreover have "(of_nat n :: u64) \<noteq> 0" using n by (intro word64_of_nat_nonzero) auto
    ultimately show ?thesis
      using chain at False zero unfolding items new
      by (auto simp: chain_append drop_counted_def record_drop_def Let_def)
  qed
qed

text \<open>
  A merge is only offered to a tail frame that ends where the new payload starts, so on a
  contiguous stream it never happens while a drop episode is open.
\<close>

lemma last_of_rev: "rev xs = y # ys \<Longrightarrow> xs = rev ys @ [y]"
  by (metis rev.simps(2) rev_rev_ident)

lemma tail_merge_total:
  assumes "tap_ok s"
  obtains m where "tail_merge_target s sess offset n = Some m"
proof (cases "tap_pending s")
  case Some
  then show thesis using that by (simp add: tail_merge_target_def)
next
  case none: None
  show thesis
  proof (cases "rev (tap_queue s)")
    case Nil
    then show thesis using that none by (simp add: tail_merge_target_def)
  next
    case (Cons q before)
    then have "tap_queue s = rev before @ [q]" by (rule last_of_rev)
    then have "wf_item q" using assms by (simp add: tap_ok_def)
    then show thesis
      using that none Cons by (cases q) (auto simp: tail_merge_target_def)
  qed
qed

lemma tail_merge_pendingD:
  assumes "tail_merge_target s sess offset n = Some (Some MergePending)"
  obtains p where "tap_pending s = Some p" "pf_session p = sess"
    "pf_offset p + of_nat (length (pf_payload p)) = offset"
  using assms by (auto simp: tail_merge_target_def split: option.splits if_splits list.splits queued.splits)

lemma tail_merge_queuedD:
  assumes "tail_merge_target s sess offset n = Some (Some MergeQueuedFrame)"
  obtains before lst o' p where "tap_pending s = None" "rev (tap_queue s) = Frame lst # before"
    "decode_output_frame lst = Some (sess, o', p)" "o' + of_nat (length p) = offset"
  using assms by (auto simp: tail_merge_target_def split: option.splits if_splits list.splits queued.splits)

lemma tail_merge_no_drop:
  assumes "chain sess pos (tap_items s)"
    and at: "offset = pos + of_nat (length (views (tap_items s)))"
    and m: "tail_merge_target s sess offset n = Some (Some m)"
    and counted: "drop_counted s"
  shows "\<not> tap_dropping s"
proof
  assume dropping: "tap_dropping s"
  obtain front f o' p where f: "tap_queue (finalize_pending s) = front @ [Frame f]"
      "decode_output_frame f = Some (sess, o', p)"
    and e: "o' + of_nat (length p) = offset"
  proof (cases m)
    case MergePending
    with m show thesis
      by (auto elim!: tail_merge_pendingD intro!: that simp: finalize_pending_def)
  next
    case MergeQueuedFrame
    with m show thesis
      by (auto elim!: tail_merge_queuedD intro!: that dest!: last_of_rev simp: finalize_pending_def)
  qed
  let ?v = "of_nat (length (views front)) :: u64"
  have items: "tap_items s = front @ [Frame f, Gap (tap_drop_anchor s) (tap_dropped s)]"
    using dropping f by (simp add: tap_items_def open_gap_def)
  with assms(1) f have "o' = pos + ?v" by (simp add: chain_append)
  moreover have "offset = pos + ?v + of_nat (length p) + tap_dropped s"
    using at items f by (simp add: algebra_simps)
  ultimately have "tap_dropped s = 0" using e by simp
  with counted dropping show False by (simp add: drop_counted_def)
qed

lemma offer_stream:
  assumes ok: "tap_ok s" and chain: "chain sess pos (tap_items s)"
    and at: "offset = pos + of_nat (length (views (tap_items s)))"
    and n: "payload \<noteq> []" "length (views (tap_items s)) + length payload < 2 ^ 64"
    and above: "\<not> offset + of_nat (length payload) \<le> tap_cutoff s"
    and counted: "drop_counted s"
  obtains s' w where
    "offer s offset (length payload) (encode_output_frame sess offset payload) = Some (s', w)"
    "chain sess pos (tap_items s')" "drop_counted s'"
    "views (tap_items s') = views (tap_items s) @ map Some payload
     \<or> views (tap_items s') = views (tap_items s) @ replicate (length payload) None"
    "tap_cutoff s' = tap_cutoff s"
    "tap_bytes s + length payload \<le> FRAME_QUEUE_BYTES \<Longrightarrow> tap_frames s < FRAME_QUEUE_DEPTH
     \<Longrightarrow> views (tap_items s') = views (tap_items s) @ map Some payload"
proof -
  let ?n = "length payload" and ?f = "encode_output_frame sess offset payload"
  obtain m where m: "tail_merge_target s sess offset ?n = Some m"
    using tail_merge_total [OF ok] .
  show thesis
  proof (cases "m = None \<and> tap_frames s \<ge> FRAME_QUEUE_DEPTH
                \<or> tap_bytes s + ?n > FRAME_QUEUE_BYTES")
    case True
    with above m have r: "offer s offset ?n ?f = Some (record_drop s offset ?n, False)"
      by (auto simp: offer_def)
    show thesis
      by (rule that [OF r])
        (use record_drop_items [OF ok chain at _ n(2)] n(1) True in \<open>auto simp: record_drop_def Let_def\<close>)
  next
    case room: False
    let ?s1 = "if m = None then finalize_pending s else s"
    have o: "offer s offset ?n ?f = (case enqueue (push_gap ?s1) m sess payload ?n ?f of
        None \<Rightarrow> None | Some s2 \<Rightarrow> Some (s2, True))"
      using above m room by (auto simp: offer_def Let_def split: option.splits)
    consider (new) "m = None" | (pend) "m = Some MergePending" | (queued) "m = Some MergeQueuedFrame"
      by (cases m) (auto intro: tail_merge.exhaust)
    then show thesis
    proof cases
      case new
      let ?s2 = "push_gap (finalize_pending s)"
      let ?s' = "?s2\<lparr>tap_queue := tap_queue ?s2 @ [Frame ?f], tap_frames := tap_frames ?s2 + 1,
          tap_bytes := tap_bytes ?s2 + ?n\<rparr>"
      have r: "offer s offset ?n ?f = Some (?s', True)"
        using o new by (simp add: enqueue_def)
      have items: "tap_items ?s' = tap_items s @ [Frame ?f]"
        by (simp add: tap_items_def open_gap_def push_gap_def finalize_pending_def split: option.splits)
      show thesis
        by (rule that [OF r])
          (unfold items, use chain at in \<open>auto simp: chain_append drop_counted_def push_gap_def\<close>)
    next
      case pend
      with tail_merge_no_drop [OF chain at _ counted] m have nd: "\<not> tap_dropping s" by simp
      from m pend obtain p where p: "tap_pending s = Some p" "pf_session p = sess"
        by (auto elim: tail_merge_pendingD)
      let ?s' = "s\<lparr>tap_pending := Some (p\<lparr>pf_payload := pf_payload p @ payload\<rparr>),
                    tap_bytes := tap_bytes s + ?n\<rparr>"
      have r: "offer s offset ?n ?f = Some (?s', True)"
        using o pend p nd by (simp add: enqueue_def push_gap_def)
      have items: "tap_items s = tap_queue s @ [Frame (encode_output_frame sess (pf_offset p) (pf_payload p))]"
          "tap_items ?s' = tap_queue s @ [Frame (encode_output_frame sess (pf_offset p) (pf_payload p @ payload))]"
        using nd p by (simp_all add: tap_items_def open_gap_def finalize_pending_def)
      show thesis
        by (rule that [OF r])
          (unfold items, use chain [unfolded items] nd in \<open>auto simp: chain_append drop_counted_def\<close>)
    next
      case queued
      with tail_merge_no_drop [OF chain at _ counted] m have nd: "\<not> tap_dropping s" by simp
      from m queued obtain lst before o' p where
        q: "rev (tap_queue s) = Frame lst # before" "decode_output_frame lst = Some (sess, o', p)"
        and np: "tap_pending s = None"
        by (auto elim: tail_merge_queuedD)
      let ?s' = "s\<lparr>tap_queue := rev before,
                    tap_pending := Some \<lparr>pf_session = sess, pf_offset = o', pf_payload = p @ payload\<rparr>,
                    tap_bytes := tap_bytes s + ?n\<rparr>"
      have r: "offer s offset ?n ?f = Some (?s', True)"
        using o queued q nd by (simp add: enqueue_def push_gap_def)
      have items: "tap_items s = rev before @ [Frame lst]"
          "tap_items ?s' = rev before @ [Frame (encode_output_frame sess o' (p @ payload))]"
        using nd np last_of_rev [OF q(1)] by (simp_all add: tap_items_def open_gap_def finalize_pending_def)
      show thesis
        by (rule that [OF r])
          (unfold items, use chain [unfolded items] q nd in \<open>auto simp: chain_append drop_counted_def\<close>)
    qed
  qed
qed

section \<open>Draining moves a prefix of the view out\<close>

text \<open>\<open>drain_keeps s out s' out'\<close>: going from \<open>s\<close> and \<open>out\<close> to \<open>s'\<close> and \<open>out'\<close> moves
  items without changing what they cover, where they stand or the invariant.\<close>

definition drain_keeps :: "tap_state \<Rightarrow> queued list \<Rightarrow> tap_state \<Rightarrow> queued list \<Rightarrow> bool" where
  "drain_keeps s out s' out' \<longleftrightarrow>
     tap_ok s' \<and> views (out' @ tap_items s') = views (out @ tap_items s)
     \<and> (\<forall>sess pos. chain sess pos (out @ tap_items s) \<longrightarrow> chain sess pos (out' @ tap_items s'))
     \<and> (drop_counted s \<longrightarrow> drop_counted s') \<and> tap_cutoff s' = tap_cutoff s
     \<and> (\<forall>q \<in> set out'. q \<in> set out \<or> wf_item q)"

lemma drain_keeps_refl: "tap_ok s \<Longrightarrow> drain_keeps s out s out"
  by (simp add: drain_keeps_def)

lemma drain_keeps_trans:
  "drain_keeps s out s1 out1 \<Longrightarrow> drain_keeps s1 out1 s2 out2 \<Longrightarrow> drain_keeps s out s2 out2"
  by (auto simp: drain_keeps_def)

lemma drain_keeps_finalize: "tap_ok s \<Longrightarrow> drain_keeps s out (finalize_pending s) out"
  by (auto simp: drain_keeps_def drop_counted_def)

lemma tap_items_pop:
  assumes "tap_queue s = q # rest"
  shows "tap_items s = q # tap_items (s\<lparr>tap_queue := rest\<rparr>)"
  using assms by (simp add: tap_items_def open_gap_def finalize_pending_def split: option.splits)

lemma tap_items_cons:
  "tap_items (s\<lparr>tap_queue := q # rest\<rparr>) = q # tap_items (s\<lparr>tap_queue := rest\<rparr>)"
  by (simp add: tap_items_def open_gap_def finalize_pending_def split: option.splits)

lemma tap_items_counters [simp]:
  "tap_items (s\<lparr>tap_bytes := b\<rparr>) = tap_items s" "tap_items (s\<lparr>tap_frames := f\<rparr>) = tap_items s"
  by (simp_all add: tap_items_def open_gap_def finalize_pending_def split: option.splits)

lemma drain_keeps_pop:
  assumes ok: "tap_ok s" and q: "tap_queue s = q # rest" and r: "q = Gap a d \<Longrightarrow> s' = s\<lparr>tap_queue := rest\<rparr>"
    and f: "is_frame q \<Longrightarrow> s' = s\<lparr>tap_queue := rest, tap_bytes := tap_bytes s - item_bytes q,
                                  tap_frames := tap_frames s - 1\<rparr>"
    and k: "q = Gap a d \<or> is_frame q"
  shows "drain_keeps s out s' (out @ [q])"
proof -
  have "tap_items s = q # tap_items s'"
    using tap_items_pop [OF q] r f k by auto
  moreover have "tap_ok s'" using k
  proof
    assume "q = Gap a d"
    then show ?thesis using ok q r by (auto simp: tap_ok_def pending_list_def)
  next
    assume "is_frame q"
    then show ?thesis using ok q f [OF \<open>is_frame q\<close>] by (auto simp: tap_ok_def pending_list_def)
  qed
  moreover have "tap_dropping s' = tap_dropping s" "tap_dropped s' = tap_dropped s"
      "tap_cutoff s' = tap_cutoff s"
    using r f k by auto
  ultimately show ?thesis
    using ok q by (auto simp: drain_keeps_def drop_counted_def tap_ok_def)
qed

lemma drain_keeps_split:
  assumes ok: "tap_ok s" and q: "tap_queue s = Frame (encode_output_frame se o' p) # rest"
    and room: "room < length p"
    and s': "s' = s\<lparr>tap_queue := Frame (encode_output_frame se (o' + of_nat room) (drop room p)) # rest,
                    tap_bytes := tap_bytes s - room\<rparr>"
  shows "drain_keeps s out s' (out @ [Frame (encode_output_frame se o' (take room p))])"
proof -
  let ?rest = "tap_items (s\<lparr>tap_queue := rest\<rparr>)"
  have items: "tap_items s = Frame (encode_output_frame se o' p) # ?rest"
    using tap_items_pop [OF q] .
  have end_eq: "o' + of_nat room + of_nat (length p - room) = o' + of_nat (length p)"
    using room by (simp add: add.assoc flip: of_nat_add)
  have "tap_ok s'"
    using ok q room unfolding s' by (auto simp: tap_ok_def pending_list_def)
  moreover have "map Some p = map Some (take room p) @ map Some (drop room p)"
    by (simp flip: map_append)
  ultimately show ?thesis
    using room end_eq
    by (auto simp: drain_keeps_def items tap_items_cons chain_append add.assoc drop_counted_def s' min_def)
qed

lemma drain_loop_spec:
  assumes "tap_ok s" and "taken \<le> budget"
  shows "\<exists>out' s'. drain_loop budget taken s out = Some (out', s') \<and> drain_keeps s out s' out'
           \<and> payload_bytes out' \<le> payload_bytes out + (budget - taken)"
  using assms
proof (induction budget taken s out rule: drain_loop.induct)
  case (1 budget taken s out)
  show ?case
  proof (cases "taken < budget")
    case False
    then have "drain_loop budget taken s out = Some (out, s)"
      by (simp add: drain_loop.simps [of budget taken s out])
    then show ?thesis using "1.prems" drain_keeps_refl by auto
  next
    case True
    let ?s1 = "if tap_queue s = [] then finalize_pending s else s"
    have k1: "drain_keeps s out ?s1 out"
      using "1.prems" by (auto intro: drain_keeps_finalize drain_keeps_refl)
    then have ok1: "tap_ok ?s1" by (simp add: drain_keeps_def)
    show ?thesis
    proof (cases "tap_queue ?s1")
      case Nil
      then show ?thesis using k1 True
        by (simp add: drain_loop.simps [of budget taken] Let_def)
    next
      case (Cons q rest)
      show ?thesis
      proof (cases q)
        case (Gap a d)
        let ?s2 = "?s1\<lparr>tap_queue := rest\<rparr>"
        have k2: "drain_keeps ?s1 out ?s2 (out @ [q])"
          by (rule drain_keeps_pop [OF ok1 Cons]) (simp_all add: Gap)
        then have ok2: "tap_ok ?s2" by (simp add: drain_keeps_def)
        note ih = "1.IH"(3) [OF True refl Cons [unfolded Gap] refl ok2 "1.prems"(2)]
        have step: "drain_loop budget taken s out = drain_loop budget taken ?s2 (out @ [q])"
          using True Cons Gap by (simp add: drain_loop.simps [of budget taken s] Let_def)
        show ?thesis
          unfolding step using ih drain_keeps_trans [OF k1 drain_keeps_trans [OF k2]] by (auto simp: Gap)
      next
        case (Frame f)
        then obtain se o' p where f: "f = encode_output_frame se o' p"
          using ok1 Cons by (auto simp: tap_ok_def)
        then have dec: "decode_output_frame f = Some (se, o', p)" by simp
        let ?room = "budget - taken"
        show ?thesis
        proof (cases "length p > ?room")
          case split: True
          let ?s2 = "?s1\<lparr>tap_queue := Frame (encode_output_frame se (o' + of_nat ?room) (drop ?room p)) # rest,
                         tap_bytes := tap_bytes ?s1 - ?room\<rparr>"
          let ?out = "out @ [Frame (encode_output_frame se o' (take ?room p))]"
          have k2: "drain_keeps ?s1 out ?s2 ?out"
            by (rule drain_keeps_split [OF ok1 Cons [unfolded Frame f] split refl])
          then have ok2: "tap_ok ?s2" by (simp add: drain_keeps_def)
          have step: "drain_loop budget taken s out = Some (?out, ?s2)"
            using True Cons Frame dec split
            by (simp add: drain_loop.simps [of budget taken s] drain_loop.simps [of budget budget] Let_def)
          show ?thesis
            unfolding step using drain_keeps_trans [OF k1 k2] split by auto
        next
          case whole: False
          let ?s2 = "?s1\<lparr>tap_queue := rest, tap_bytes := tap_bytes ?s1 - length p,
                         tap_frames := tap_frames ?s1 - 1\<rparr>"
          have k2: "drain_keeps ?s1 out ?s2 (out @ [q])"
            by (rule drain_keeps_pop [OF ok1 Cons]) (simp_all add: Frame f)
          then have ok2: "tap_ok ?s2" by (simp add: drain_keeps_def)
          have fit: "taken + length p \<le> budget" using whole True by simp
          note ih = "1.IH"(2) [OF True refl Cons [unfolded Frame] refl dec refl refl refl whole ok2 fit]
          have step: "drain_loop budget taken s out = drain_loop budget (taken + length p) ?s2 (out @ [q])"
            using True Cons Frame dec whole by (simp add: drain_loop.simps [of budget taken s] Let_def)
          show ?thesis
            unfolding step using ih drain_keeps_trans [OF k1 drain_keeps_trans [OF k2]] fit
            by (auto simp: Frame f)
        qed
      qed
    qed
  qed
qed

lemma drain_up_to_spec:
  assumes "tap_ok s"
  obtains out more s' where "drain_up_to s budget = Some (out, more, s')" "drain_keeps s [] s' out"
    "payload_bytes out \<le> budget"
proof -
  obtain out s1 where l: "drain_loop budget 0 s [] = Some (out, s1)" and k: "drain_keeps s [] s1 out"
    and b: "payload_bytes out \<le> budget"
    using drain_loop_spec [OF assms, of 0 budget "[]"] by auto
  let ?more = "tap_queue s1 \<noteq> [] \<or> tap_pending s1 \<noteq> None"
  let ?gap = "Gap (tap_drop_anchor s1) (tap_dropped s1)"
  let ?s2 = "s1\<lparr>tap_dropping := False, tap_dropped := 0\<rparr>"
  show thesis
  proof (cases "\<not> ?more \<and> tap_dropping s1")
    case True
    then have r: "drain_up_to s budget = Some (out @ [?gap], ?more, ?s2)"
      using l by (simp add: drain_up_to_def Let_def)
    have items: "tap_items s1 = [?gap]" "tap_items ?s2 = []"
      using True by (simp_all add: tap_items_def open_gap_def finalize_pending_def)
    have "tap_ok ?s2" using k by (auto simp: drain_keeps_def tap_ok_def pending_list_def)
    then have k2: "drain_keeps s [] ?s2 (out @ [?gap])"
      using k unfolding drain_keeps_def items by (auto simp: drop_counted_def)
    show thesis by (rule that [OF r k2]) (use b in simp)
  next
    case False
    then have "drain_up_to s budget = Some (out, ?more, s1)"
      using l by (auto simp: drain_up_to_def Let_def)
    with k b show thesis by (intro that)
  qed
qed

lemma drain_spec:
  assumes "tap_ok s"
  shows "fst (drain s) = tap_items s" "tap_items (snd (drain s)) = []" "tap_ok (snd (drain s))"
    "tap_cutoff (snd (drain s)) = tap_cutoff s" "drop_counted (snd (drain s))"
  using assms
  by (auto simp: drain_def Let_def tap_items_def open_gap_def drop_counted_def tap_ok_def
      pending_list_def finalize_pending_def split: option.splits)

section \<open>Runs: one session feeding a tap that a writer drains\<close>

datatype tap_op = Feed "byte list" | Drain_all | Drain_budget nat

fun fed :: "tap_op list \<Rightarrow> byte list" where
  "fed [] = []"
| "fed (Feed p # ops) = p @ fed ops"
| "fed (_ # ops) = fed ops"

fun tap_run :: "u32 \<Rightarrow> u64 \<Rightarrow> tap_op list \<Rightarrow> tap_state \<Rightarrow> queued list \<Rightarrow> (queued list \<times> tap_state) option" where
  "tap_run sess at [] s out = Some (out, s)"
| "tap_run sess at (Feed p # ops) s out =
     (case offer s at (length p) (encode_output_frame sess at p) of
        None \<Rightarrow> None
      | Some (s', _) \<Rightarrow> tap_run sess (at + of_nat (length p)) ops s' out)"
| "tap_run sess at (Drain_all # ops) s out =
     (let (items, s') = drain s in tap_run sess at ops s' (out @ items))"
| "tap_run sess at (Drain_budget n # ops) s out =
     (case drain_up_to s n of
        None \<Rightarrow> None
      | Some (items, _, s') \<Rightarrow> tap_run sess at ops s' (out @ items))"

definition stream_inv :: "u32 \<Rightarrow> u64 \<Rightarrow> byte list \<Rightarrow> tap_state \<Rightarrow> queued list \<Rightarrow> bool" where
  "stream_inv sess start bs s out \<longleftrightarrow>
     tap_ok s \<and> tap_cutoff s = 0 \<and> drop_counted s
     \<and> chain sess start (out @ tap_items s) \<and> faithful (views (out @ tap_items s)) bs"

lemma stream_inv_drain:
  "stream_inv sess start bs s out \<Longrightarrow> stream_inv sess start bs (snd (drain s)) (out @ fst (drain s))"
  using drain_spec [of s] by (auto simp: stream_inv_def)

lemma drain_keeps_chain:
  "drain_keeps s [] s' items \<Longrightarrow> chain sess start (out @ tap_items s) \<Longrightarrow>
   chain sess start (out @ items @ tap_items s')"
  by (auto simp: drain_keeps_def chain_append)

lemma stream_inv_drain_keeps:
  "stream_inv sess start bs s out \<Longrightarrow> drain_keeps s [] s' items \<Longrightarrow> stream_inv sess start bs s' (out @ items)"
  using drain_keeps_chain [of s s' items sess start out]
  by (auto simp: stream_inv_def drain_keeps_def)

lemma stream_inv_offer:
  assumes inv: "stream_inv sess start bs s out" and p: "p \<noteq> []"
    and room: "unat start + length bs + length p < 2 ^ 64"
  obtains s' w where
    "offer s (start + of_nat (length bs)) (length p) (encode_output_frame sess (start + of_nat (length bs)) p)
       = Some (s', w)"
    "stream_inv sess start (bs @ p) s' out"
proof -
  let ?at = "start + of_nat (length bs)" and ?mid = "start + of_nat (length (views out))"
  have ok: "tap_ok s" and counted: "drop_counted s" and zero: "tap_cutoff s = 0"
    and out: "chain sess start out" and items: "chain sess ?mid (tap_items s)"
    and f: "faithful (views (out @ tap_items s)) bs"
    using inv by (auto simp: stream_inv_def chain_append)
  have len: "length bs = length (views out) + length (views (tap_items s))"
    using faithful_length [OF f] by simp
  have at: "?at = ?mid + of_nat (length (views (tap_items s)))"
    using len by (simp add: algebra_simps)
  have "unat (?at + of_nat (length p)) = unat start + length bs + length p"
    using room unat_add_of_nat64 [of start "length bs"] unat_add_of_nat64 [of ?at "length p"] by simp
  then have above: "\<not> ?at + of_nat (length p) \<le> tap_cutoff s"
    using p zero by (auto simp: word_le_nat_alt)
  have small: "length (views (tap_items s)) + length p < 2 ^ 64" using len room by simp
  obtain s' w where o: "offer s ?at (length p) (encode_output_frame sess ?at p) = Some (s', w)"
    and new: "chain sess ?mid (tap_items s')" "drop_counted s'" "tap_cutoff s' = tap_cutoff s"
      "views (tap_items s') = views (tap_items s) @ map Some p
       \<or> views (tap_items s') = views (tap_items s) @ replicate (length p) None"
    using offer_stream [OF ok items at p small above counted] .
  have "faithful (views (out @ tap_items s')) (bs @ p)"
    using new(4) faithful_append_data [OF f, of p] faithful_append_hole [OF f, of p] by auto
  with o new out zero tap_ok_offer [OF ok refl o] show thesis
    by (intro that) (auto simp: stream_inv_def chain_append)
qed

lemma tap_run_stream_inv:
  assumes "stream_inv sess start bs s out" and "\<forall>p. Feed p \<in> set ops \<longrightarrow> p \<noteq> []"
    and "unat start + length bs + length (fed ops) < 2 ^ 64"
  shows "\<exists>out' s'. tap_run sess (start + of_nat (length bs)) ops s out = Some (out', s')
           \<and> stream_inv sess start (bs @ fed ops) s' out'"
  using assms
proof (induction ops arbitrary: bs s out)
  case Nil
  then show ?case by simp
next
  case (Cons op ops)
  show ?case
  proof (cases op)
    case (Feed p)
    obtain s' w where o: "offer s (start + of_nat (length bs)) (length p)
          (encode_output_frame sess (start + of_nat (length bs)) p) = Some (s', w)"
      and inv: "stream_inv sess start (bs @ p) s' out"
      using stream_inv_offer [OF Cons.prems(1), of p] Cons.prems Feed by auto
    from Cons.IH [OF inv] o Cons.prems Feed show ?thesis
      by (auto simp: add.assoc [symmetric])
  next
    case Drain_all
    from Cons.IH [OF stream_inv_drain [OF Cons.prems(1)]] Cons.prems Drain_all show ?thesis
      by (auto simp: case_prod_beta)
  next
    case (Drain_budget n)
    have "tap_ok s" using Cons.prems(1) by (simp add: stream_inv_def)
    then obtain items more s' where d: "drain_up_to s n = Some (items, more, s')"
      and k: "drain_keeps s [] s' items"
      using drain_up_to_spec by metis
    from Cons.IH [OF stream_inv_drain_keeps [OF Cons.prems(1) k]] d Cons.prems Drain_budget show ?thesis
      by auto
  qed
qed

lemma stream_inv_new: "stream_inv sess start [] tap_state_new []"
  by (simp add: stream_inv_def drop_counted_def faithful_def) (simp add: tap_state_new_def)

section \<open>Attaching at a cutoff\<close>

fun item_end :: "queued \<Rightarrow> u64" where
  "item_end (Frame frame) = (case frame_end frame of None \<Rightarrow> 0 | Some e \<Rightarrow> e)"
| "item_end (Gap a d) = a + d"

lemma retained_item_end: "wf_item q \<Longrightarrow> retained c q = Some (c < item_end q)"
  by (cases q) (auto simp: frame_end_def)

lemma retain_items_filter:
  "\<forall>q \<in> set qs. wf_item q \<Longrightarrow> retain_items c qs = Some (filter (\<lambda>q. c < item_end q) qs)"
  by (induction qs) (auto simp: retained_item_end)

lemma attach_spec:
  assumes ok: "tap_ok s"
  obtains n s' where "attach s (Some c) = Some (n, s')" "tap_ok s'" "tap_cutoff s' = c"
    "tap_items s' = filter (\<lambda>q. c < item_end q) (tap_items s)"
    "tap_attempts s' = tap_attempts s + 1"
proof -
  let ?s1 = "(finalize_pending (s\<lparr>tap_attempts := tap_attempts s + 1\<rparr>))\<lparr>tap_cutoff := c\<rparr>"
  let ?q = "filter (\<lambda>q. c < item_end q) (tap_queue ?s1)"
  let ?s2 = "?s1\<lparr>tap_queue := ?q, tap_frames := length (filter is_frame ?q),
                tap_bytes := sum_list (map item_bytes ?q)\<rparr>"
  let ?s3 = "if tap_dropping ?s2 \<and> tap_drop_anchor ?s2 + tap_dropped ?s2 \<le> c
             then ?s2\<lparr>tap_dropping := False, tap_dropped := 0\<rparr> else ?s2"
  have ok0: "tap_ok (finalize_pending (s\<lparr>tap_attempts := tap_attempts s + 1\<rparr>))"
    using ok by (intro tap_ok_finalize) (simp add: tap_ok_def pending_list_def)
  then have "retain_items c (tap_queue ?s1) = Some ?q"
    by (intro retain_items_filter) (simp add: tap_ok_def)
  then have r: "attach s (Some c) = Some (tap_attempts ?s3, ?s3)"
    by (simp add: attach_def Let_def)
  have "length (filter is_frame ?q) \<le> length (filter is_frame (tap_queue ?s1))"
    by (rule length_filter_filter_le)
  then have bounds: "length (filter is_frame ?q) \<le> FRAME_QUEUE_DEPTH"
      "sum_list (map item_bytes ?q) \<le> FRAME_QUEUE_BYTES"
    using ok0 sum_list_filter_le [of item_bytes "\<lambda>q. c < item_end q" "tap_queue ?s1"]
    by (auto simp: tap_ok_def pending_list_def)
  have "tap_ok ?s2" using ok0 bounds by (auto simp: tap_ok_def pending_list_def)
  then have ok3: "tap_ok ?s3" by (auto simp: tap_ok_def pending_list_def)
  have items: "tap_items ?s3 = filter (\<lambda>q. c < item_end q) (tap_items s)"
    by (auto simp: tap_items_def open_gap_def finalize_pending_def not_le split: option.splits)
  show thesis
    by (rule that [OF r ok3 _ items]) (auto simp: finalize_pending_def split: option.splits)
qed

section \<open>Properties\<close>

text \<open>C1: nothing a PTY wrote is silently lost, duplicated, reordered or moved on its way to a
  client. For every sequence of non-empty chunks of one session offered at consecutive offsets,
  interleaved with any drains, no operation panics, and what was handed out followed by what is
  still queued stands at consecutive stream offsets from the start and covers every byte fed,
  each position either with the byte itself or inside a reported gap.\<close>

theorem tap_run_accounts_for_every_byte:
  assumes "\<forall>p. Feed p \<in> set ops \<longrightarrow> p \<noteq> []" and "unat start + length (fed ops) < 2 ^ 64"
  shows "\<exists>out s'. tap_run sess start ops tap_state_new [] = Some (out, s')
           \<and> tap_ok s' \<and> chain sess start (out @ tap_items s')
           \<and> faithful (views (out @ tap_items s')) (fed ops)"
  using tap_run_stream_inv [OF stream_inv_new assms(1), of start sess] assms(2)
  by (auto simp: stream_inv_def)

theorem tap_run_accounts_for_every_byte_witness:
  "\<exists>out s'. tap_run 7 100 [Feed [65, 66], Drain_budget 1, Feed [67], Drain_all] tap_state_new [] = Some (out, s')
     \<and> faithful (views (out @ tap_items s')) [65, 66, 67]"
  using tap_run_accounts_for_every_byte
    [of "[Feed [65, 66], Drain_budget 1, Feed [67], Drain_all]" 100 7] by auto

text \<open>an offer keeps the tap's invariant: every queued item is a well-formed frame or a gap,
  the counters equal what is held, and neither bound (4096 frames, 4 MiB) is ever passed.\<close>

theorem offer_keeps_bounds:
  assumes "tap_ok s" and "offer s offset (length p) (encode_output_frame sess o' p) = Some (s', w)"
  shows "tap_ok s' \<and> tap_bytes s' \<le> FRAME_QUEUE_BYTES \<and> tap_frames s' \<le> FRAME_QUEUE_DEPTH
         \<and> length (filter is_frame (tap_queue s')) \<le> FRAME_QUEUE_DEPTH
         \<and> sum_list (map item_bytes (tap_queue s')) \<le> FRAME_QUEUE_BYTES"
  using tap_ok_offer [OF assms(1) refl assms(2)] by (auto simp: tap_ok_def)

theorem offer_keeps_bounds_witness:
  "tap_ok (tap_state_new\<lparr>tap_queue := [Frame (encode_output_frame 1 0 [65])], tap_frames := 1, tap_bytes := 1\<rparr>)"
proof -
  have "offer tap_state_new 0 (length [65]) (encode_output_frame 1 0 [65])
     = Some (tap_state_new\<lparr>tap_queue := [Frame (encode_output_frame 1 0 [65])], tap_frames := 1, tap_bytes := 1\<rparr>, True)"
    by (simp add: offer_def tap_state_new_def tail_merge_target_def enqueue_def push_gap_def
        finalize_pending_def FRAME_QUEUE_DEPTH_def FRAME_QUEUE_BYTES_def)
  from offer_keeps_bounds [OF tap_ok_new this] show ?thesis by simp
qed

text \<open>while there is room nothing is dropped: an offer of the next chunk that fits both bounds
  appends exactly its bytes to what the client will see.\<close>

theorem offer_with_room_drops_nothing:
  assumes "tap_ok s" and "chain sess pos (tap_items s)" and "drop_counted s" and "p \<noteq> []"
    and "length (views (tap_items s)) + length p < 2 ^ 64"
    and "\<not> pos + of_nat (length (views (tap_items s))) + of_nat (length p) \<le> tap_cutoff s"
    and "tap_bytes s + length p \<le> FRAME_QUEUE_BYTES" and "tap_frames s < FRAME_QUEUE_DEPTH"
  shows "\<exists>s' w. offer s (pos + of_nat (length (views (tap_items s)))) (length p)
             (encode_output_frame sess (pos + of_nat (length (views (tap_items s)))) p) = Some (s', w)
           \<and> views (tap_items s') = views (tap_items s) @ map Some p"
  using offer_stream [OF assms(1,2) refl assms(4,5,6,3)] assms(7,8) by metis

theorem offer_with_room_drops_nothing_witness:
  "\<exists>s' w. offer tap_state_new 5 3 (encode_output_frame 1 5 [65, 66, 67]) = Some (s', w)
     \<and> views (tap_items s') = map Some [65, 66, 67]"
proof -
  have "tap_cutoff tap_state_new = 0" "tap_bytes tap_state_new = 0" "tap_frames tap_state_new = 0"
      "drop_counted tap_state_new"
    by (simp_all add: tap_state_new_def drop_counted_def)
  then show ?thesis
    using offer_with_room_drops_nothing [of tap_state_new 1 5 "[65, 66, 67]"]
    by (simp add: FRAME_QUEUE_DEPTH_def FRAME_QUEUE_BYTES_def numeral_3_eq_3)
qed

text \<open>a budgeted drain hands out at most its budget of payload bytes, keeps the tap's
  invariant, and only moves items: what it hands out followed by what stays covers exactly what
  was queued, splitting a frame at the same stream offsets.\<close>

theorem drain_up_to_within_budget:
  assumes "tap_ok s"
  shows "\<exists>out more s'. drain_up_to s budget = Some (out, more, s') \<and> tap_ok s'
           \<and> payload_bytes out \<le> budget
           \<and> views out @ views (tap_items s') = views (tap_items s)
           \<and> (\<forall>sess pos. chain sess pos (tap_items s) \<longrightarrow> chain sess pos (out @ tap_items s'))"
proof -
  obtain out more s' where "drain_up_to s budget = Some (out, more, s')" "drain_keeps s [] s' out"
      "payload_bytes out \<le> budget"
    using drain_up_to_spec [OF assms] .
  then show ?thesis by (auto simp: drain_keeps_def)
qed

theorem drain_up_to_within_budget_witness:
  "\<exists>out more s'. drain_up_to tap_state_new 10 = Some (out, more, s') \<and> payload_bytes out \<le> 10"
  using drain_up_to_within_budget [OF tap_ok_new, of 10] by blast

text \<open>attaching at a cutoff prunes exactly what the client already has: of the items queued,
  the open gap included, those that end past the cutoff stay, in order, and no others; the
  counters are recomputed so that the invariant still holds.\<close>

theorem attach_prunes_exactly:
  assumes "tap_ok s"
  shows "\<exists>n s'. attach s (Some c) = Some (n, s') \<and> tap_ok s' \<and> tap_cutoff s' = c
           \<and> tap_items s' = filter (\<lambda>q. c < item_end q) (tap_items s)"
  using attach_spec [OF assms, of c] by metis

theorem attach_prunes_exactly_witness:
  "\<exists>n s'. attach tap_state_new (Some 9) = Some (n, s') \<and> tap_cutoff s' = 9"
  using attach_prunes_exactly [OF tap_ok_new, of 9] by auto

text \<open>C35: a tap that listens to every session can reach the branch the code calls unreachable.
  After a frame of session 1 is queued, a frame of session 2 that does not fit opens a drop
  episode; the next frame of session 1 merges with the queue's tail, but the gap is pushed on
  the queue first, so the popped tail is the gap and the code panics.\<close>

theorem every_session_tap_panics:
  "\<exists>s1 s2. offer tap_state_new 0 1 (encode_output_frame 1 0 [65]) = Some (s1, True)
     \<and> offer s1 0 FRAME_QUEUE_BYTES (encode_output_frame 2 0 (replicate FRAME_QUEUE_BYTES 66)) = Some (s2, False)
     \<and> offer s2 1 1 (encode_output_frame 1 1 [67]) = None"
proof -
  let ?s1 = "tap_state_new\<lparr>tap_queue := [Frame (encode_output_frame 1 0 [65])], tap_frames := 1, tap_bytes := 1\<rparr>"
  let ?s2 = "record_drop ?s1 0 FRAME_QUEUE_BYTES"
  note defs = offer_def tap_state_new_def tail_merge_target_def enqueue_def push_gap_def
    finalize_pending_def record_drop_def FRAME_QUEUE_DEPTH_def FRAME_MERGE_CEILING_BYTES_def Let_def
  have "offer tap_state_new 0 1 (encode_output_frame 1 0 [65]) = Some (?s1, True)"
    by (simp add: defs FRAME_QUEUE_BYTES_def)
  moreover have "offer ?s1 0 FRAME_QUEUE_BYTES (encode_output_frame 2 0 (replicate FRAME_QUEUE_BYTES 66)) = Some (?s2, False)"
    by (simp add: defs) (simp add: FRAME_QUEUE_BYTES_def)
  moreover have "offer ?s2 1 1 (encode_output_frame 1 1 [67]) = None"
    by (simp add: defs FRAME_QUEUE_BYTES_def)
  ultimately show ?thesis by blast
qed

end
