(* ===== verification/Frame_Registry.thy ===== *)
theory Frame_Registry
  imports Frame_Stream
begin

text \<open>
  The registry that fans one PTY chunk out to every tap that asked for the session
  (\<open>FrameRegistry\<close> of \<^verbatim>\<open>frame_queue.rs\<close>), the wake-up of a connection, and the part of the
  in-process \<open>Observer\<close> that hands drained items on. Taps are reference counted and shared
  with the connections, so the registry holds addresses and the hub holds the taps.
\<close>

record hub =
  hub_taps :: "nat \<Rightarrow> frame_tap"
  hub_by_session :: "u32 \<rightharpoonup> nat list"
  hub_every :: "nat list"

definition frame_tap_offer :: "u64 \<Rightarrow> nat \<Rightarrow> byte list \<Rightarrow> frame_tap \<Rightarrow> frame_tap option" where
  "frame_tap_offer offset payload_len frame t =
     (case offer (ft_state t) offset payload_len frame of
        None \<Rightarrow> None
      | Some (s, woke) \<Rightarrow> Some (t\<lparr>ft_state := s, ft_woken := ft_woken t \<or> woke\<rparr>))"

definition frame_tap_clear :: "frame_tap \<Rightarrow> frame_tap" where
  "frame_tap_clear t = t\<lparr>ft_state := clear (ft_state t)\<rparr>"

definition register :: "hub \<Rightarrow> nat \<Rightarrow> hub" where
  "register h a =
     (case ft_session (hub_taps h a) of
        Some sid \<Rightarrow> h\<lparr>hub_by_session := (hub_by_session h)
           (sid \<mapsto> (case hub_by_session h sid of None \<Rightarrow> [] | Some taps \<Rightarrow> taps) @ [a])\<rparr>
      | None \<Rightarrow> h\<lparr>hub_every := hub_every h @ [a]\<rparr>)"

definition unregister :: "hub \<Rightarrow> nat \<Rightarrow> hub" where
  "unregister h a =
     (case ft_session (hub_taps h a) of
        Some sid \<Rightarrow>
          (case hub_by_session h sid of
             None \<Rightarrow> h
           | Some taps \<Rightarrow>
               (let kept = filter (\<lambda>t. t \<noteq> a) taps
                in h\<lparr>hub_by_session := (hub_by_session h)
                       (sid := (if kept = [] then None else Some kept))\<rparr>))
      | None \<Rightarrow> h\<lparr>hub_every := filter (\<lambda>t. t \<noteq> a) (hub_every h)\<rparr>)"

definition forget_session :: "hub \<Rightarrow> u32 \<Rightarrow> hub" where
  "forget_session h session =
     (case hub_by_session h session of
        None \<Rightarrow> h
      | Some taps \<Rightarrow>
          h\<lparr>hub_by_session := (hub_by_session h)(session := None),
            hub_taps := (\<lambda>a. if a \<in> set taps then frame_tap_clear (hub_taps h a) else hub_taps h a)\<rparr>)"

fun offer_each :: "u64 \<Rightarrow> nat \<Rightarrow> byte list \<Rightarrow> nat list \<Rightarrow> (nat \<Rightarrow> frame_tap) \<Rightarrow> (nat \<Rightarrow> frame_tap) option" where
  "offer_each offset payload_len frame [] taps = Some taps"
| "offer_each offset payload_len frame (a # as) taps =
     (case frame_tap_offer offset payload_len frame (taps a) of
        None \<Rightarrow> None
      | Some t \<Rightarrow> offer_each offset payload_len frame as (taps(a := t)))"

definition session_taps :: "hub \<Rightarrow> u32 \<Rightarrow> nat list" where
  "session_taps h session = (case hub_by_session h session of None \<Rightarrow> [] | Some taps \<Rightarrow> taps)"

definition offer_locked :: "hub \<Rightarrow> u32 \<Rightarrow> u64 \<Rightarrow> nat \<Rightarrow> byte list \<Rightarrow> hub option" where
  "offer_locked h session offset payload_len frame =
     (case offer_each offset payload_len frame (session_taps h session) (hub_taps h) of
        None \<Rightarrow> None
      | Some taps \<Rightarrow>
          (case offer_each offset payload_len frame (hub_every h) taps of
             None \<Rightarrow> None
           | Some taps' \<Rightarrow> Some (h\<lparr>hub_taps := taps'\<rparr>)))"

text \<open>The flag of the result says whether the frame was encoded.\<close>

definition offer_lazy :: "hub \<Rightarrow> u32 \<Rightarrow> u64 \<Rightarrow> nat \<Rightarrow> (unit \<Rightarrow> byte list) \<Rightarrow> (hub \<times> bool) option" where
  "offer_lazy h session offset payload_len encode =
     (let has_session_taps = (case hub_by_session h session of None \<Rightarrow> False | Some taps \<Rightarrow> taps \<noteq> [])
      in if \<not> has_session_taps \<and> hub_every h = [] then Some (h, False)
         else map_option (\<lambda>h'. (h', True)) (offer_locked h session offset payload_len (encode ())))"

datatype recv_result = RecvFrame "byte list" | RecvLagged u64

text \<open>The branch of \<open>Observer::recv\<close> that answers from the items it has drained.\<close>

fun observer_next :: "queued list \<Rightarrow> (recv_result \<times> queued list) option" where
  "observer_next [] = None"
| "observer_next (Frame frame # rest) = Some (RecvFrame frame, rest)"
| "observer_next (Gap _ d # rest) = Some (RecvLagged d, rest)"

section \<open>What a fan-out touches\<close>

lemma offer_each_other:
  "offer_each offset n frame as taps = Some taps' \<Longrightarrow> a \<notin> set as \<Longrightarrow> taps' a = taps a"
  by (induction as arbitrary: taps) (auto split: option.splits)

lemma offer_each_member:
  "offer_each offset n frame as taps = Some taps' \<Longrightarrow> distinct as \<Longrightarrow> a \<in> set as \<Longrightarrow>
   frame_tap_offer offset n frame (taps a) = Some (taps' a)"
proof (induction as arbitrary: taps)
  case Nil
  then show ?case by simp
next
  case (Cons b as)
  then obtain t where t: "frame_tap_offer offset n frame (taps b) = Some t"
    and rest: "offer_each offset n frame as (taps(b := t)) = Some taps'"
    by (auto split: option.splits)
  show ?case
  proof (cases "a = b")
    case True
    with Cons.prems offer_each_other [OF rest, of b] t show ?thesis by simp
  next
    case False
    with Cons.prems Cons.IH [OF rest] show ?thesis by auto
  qed
qed

lemma offer_each_total:
  "distinct as \<Longrightarrow> \<forall>a \<in> set as. frame_tap_offer offset n frame (taps a) \<noteq> None \<Longrightarrow>
   offer_each offset n frame as taps \<noteq> None"
proof (induction as arbitrary: taps)
  case Nil
  then show ?case by simp
next
  case (Cons b as)
  then obtain t where t: "frame_tap_offer offset n frame (taps b) = Some t" by auto
  have "\<forall>a \<in> set as. frame_tap_offer offset n frame ((taps(b := t)) a) \<noteq> None"
    using Cons.prems by auto
  with Cons t show ?case by auto
qed

text \<open>registering a tap and unregistering it again leaves the registry as it was, for a
  tap that was not registered before: no connection that closes keeps receiving frames.\<close>

theorem unregister_register:
  assumes fresh: "a \<notin> set (hub_every h)" "\<And>sid taps. hub_by_session h sid = Some taps \<Longrightarrow> a \<notin> set taps \<and> taps \<noteq> []"
  shows "unregister (register h a) a = h"
proof (cases "ft_session (hub_taps h a)")
  case None
  then have "unregister (register h a) a = h\<lparr>hub_every := filter (\<lambda>t. t \<noteq> a) (hub_every h)\<rparr>"
    by (simp add: register_def unregister_def)
  moreover have "filter (\<lambda>t. t \<noteq> a) (hub_every h) = hub_every h"
    using fresh(1) by (auto intro: filter_True)
  ultimately show ?thesis by simp
next
  case (Some sid)
  have kept: "filter (\<lambda>t. t \<noteq> a) taps = taps" if "hub_by_session h sid = Some taps" for taps
    using fresh(2) [OF that] by (auto intro: filter_True)
  show ?thesis
    using Some fresh(2) [of sid] kept
    by (cases "hub_by_session h sid") (auto simp: register_def unregister_def Let_def fun_upd_idem)
qed

theorem unregister_register_witness:
  "unregister (register \<lparr>hub_taps = \<lambda>_. frame_tap_new (Some 7), hub_by_session = Map.empty, hub_every = []\<rparr> 3) 3
     = \<lparr>hub_taps = \<lambda>_. frame_tap_new (Some 7), hub_by_session = Map.empty, hub_every = []\<rparr>"
  by (rule unregister_register) simp_all

text \<open>skipping the encoding when nobody listens changes nothing: \<open>offer_lazy\<close> leaves the
  same taps as \<open>offer\<close> of the encoded frame, and it encodes exactly when some tap listens to
  the session or to every session.\<close>

theorem offer_lazy_is_offer:
  "offer_lazy h session offset n encode =
     map_option (\<lambda>h'. (h', \<not> (session_taps h session = [] \<and> hub_every h = [])))
       (offer_locked h session offset n (encode ()))"
  by (auto simp: offer_lazy_def offer_locked_def session_taps_def Let_def split: option.splits)

text \<open>a fan-out offers the chunk once to each tap of the session and to each tap of every
  session, and leaves all other taps untouched.\<close>

theorem offer_locked_reaches_exactly:
  assumes "offer_locked h session offset n frame = Some h'"
    and "distinct (session_taps h session @ hub_every h)"
  shows "if a \<in> set (session_taps h session) \<union> set (hub_every h)
         then frame_tap_offer offset n frame (hub_taps h a) = Some (hub_taps h' a)
         else hub_taps h' a = hub_taps h a"
proof -
  obtain taps where t: "offer_each offset n frame (session_taps h session) (hub_taps h) = Some taps"
    and e: "offer_each offset n frame (hub_every h) taps = Some (hub_taps h')"
    using assms(1) by (auto simp: offer_locked_def split: option.splits)
  have d: "distinct (session_taps h session)" "distinct (hub_every h)"
      "a \<in> set (session_taps h session) \<Longrightarrow> a \<notin> set (hub_every h)"
    using assms(2) by auto
  show ?thesis
    using offer_each_member [OF t d(1), of a] offer_each_member [OF e d(2), of a]
      offer_each_other [OF t, of a] offer_each_other [OF e, of a] d(3)
    by (cases "a \<in> set (session_taps h session)"; cases "a \<in> set (hub_every h)") simp_all
qed

theorem offer_locked_reaches_exactly_witness:
  "\<exists>h'. offer_locked (register \<lparr>hub_taps = \<lambda>_. frame_tap_new (Some 7), hub_by_session = Map.empty,
            hub_every = []\<rparr> 3) 7 0 1 (encode_output_frame 7 0 [65]) = Some h'
        \<and> frame_tap_offer 0 1 (encode_output_frame 7 0 [65]) (frame_tap_new (Some 7)) = Some (hub_taps h' 3)"
proof -
  let ?h = "register \<lparr>hub_taps = \<lambda>_. frame_tap_new (Some 7), hub_by_session = Map.empty, hub_every = []\<rparr> 3"
  have taps: "session_taps ?h 7 = [3]" "hub_every ?h = []" "hub_taps ?h 3 = frame_tap_new (Some 7)"
    by (simp_all add: register_def frame_tap_new_def session_taps_def)
  have "offer_locked ?h 7 0 1 (encode_output_frame 7 0 [65]) \<noteq> None"
    by (simp add: offer_locked_def session_taps_def register_def frame_tap_offer_def offer_def frame_tap_new_def tap_state_new_def
        tail_merge_target_def enqueue_def push_gap_def finalize_pending_def FRAME_QUEUE_DEPTH_def
        FRAME_QUEUE_BYTES_def Let_def)
  then obtain h' where h': "offer_locked ?h 7 0 1 (encode_output_frame 7 0 [65]) = Some h'" by auto
  show ?thesis
    using h' offer_locked_reaches_exactly [OF h', of 3] taps by auto
qed

end
