(* ===== verification/Bounded_Log.thy ===== *)
theory Bounded_Log
  imports Prelude
begin

text \<open>
  The contract of a bounded log: pushing appends at the back and may trim at the front, and
  what is held never passes a bound. Houston keeps several (the scrollback ring, the ring of
  finished command blocks, the watchdog's round-trip history); each interprets this locale,
  so \<open>held_suffix\<close> and its corollaries are proved once. \<open>counted_log\<close> adds the running
  count of everything ever pushed, by which a reader addresses what is still held.
\<close>

locale bounded_log =
  fixes push :: "'s \<Rightarrow> 'a list \<Rightarrow> 's"
    and held :: "'s \<Rightarrow> 'a list"
    and inv :: "'s \<Rightarrow> bool"
    and weight :: "'a list \<Rightarrow> nat"
    and limit :: nat
  assumes push_suffix: "inv s \<Longrightarrow> suffix (held (push s xs)) (held s @ xs)"
    and push_inv: "inv s \<Longrightarrow> inv (push s xs)"
    and push_limit: "inv s \<Longrightarrow> weight (held (push s xs)) \<le> limit"
begin

lemma foldl_inv: "inv s \<Longrightarrow> inv (foldl push s xss)"
  by (induction xss arbitrary: s) (auto intro: push_inv)

text \<open>After any number of pushes the log holds a suffix of what was held and pushed.\<close>

lemma held_suffix: "inv s \<Longrightarrow> suffix (held (foldl push s xss)) (held s @ concat xss)"
proof (induction xss arbitrary: s)
  case Nil
  then show ?case by simp
next
  case (Cons xs xss)
  have "suffix (held (foldl push (push s xs) xss)) (held (push s xs) @ concat xss)"
    using Cons by (auto intro: push_inv)
  moreover have "suffix (held (push s xs) @ concat xss) ((held s @ xs) @ concat xss)"
    using push_suffix [OF Cons.prems] by (auto simp: suffix_def)
  ultimately show ?case
    by (auto intro: suffix_order.order_trans)
qed

lemma held_limit:
  assumes "inv s" and "weight (held s) \<le> limit"
  shows "weight (held (foldl push s xss)) \<le> limit"
  using assms by (induction xss arbitrary: s) (auto intro: push_inv push_limit)

end

locale counted_log = bounded_log push held inv weight limit
  for push :: "'s \<Rightarrow> 'a list \<Rightarrow> 's" and held inv weight limit +
  fixes seen :: "'s \<Rightarrow> nat"
  assumes seen_push: "inv s \<Longrightarrow> seen (push s xs) = seen s + length xs"
begin

lemma seen_foldl: "inv s \<Longrightarrow> seen (foldl push s xss) = seen s + length (concat xss)"
  by (induction xss arbitrary: s) (simp_all add: seen_push push_inv)

text \<open>On a log that started empty at count \<open>base\<close>, the held elements are those from stream
  position \<open>seen - length held\<close> on.\<close>

lemma held_is_stream_tail:
  assumes "inv s" and "held s = []" and "seen s = base" and t: "t = foldl push s xss"
  shows "held t = drop (seen t - base - length (held t)) (concat xss)"
    and "length (held t) \<le> seen t - base"
proof -
  have seen: "seen t - base = length (concat xss)"
    using assms seen_foldl by simp
  have "suffix (held t) (concat xss)"
    using held_suffix [of s xss] assms by simp
  then obtain front where split: "concat xss = front @ held t"
    by (auto simp: suffix_def)
  then show "held t = drop (seen t - base - length (held t)) (concat xss)"
    unfolding seen by simp
  show "length (held t) \<le> seen t - base"
    unfolding seen by (simp add: split)
qed

end

end
