(* ===== verification/Rust_Std.thy ===== *)
theory Rust_Std
  imports Prelude
begin

text \<open>
  The parts of Rust's standard library on text that the components use. A Rust \<open>String\<close> is
  the list of its UTF-8 bytes. \<open>String::from_utf8_lossy\<close> follows the standard library's
  \<open>Utf8Chunks\<close>: it copies valid sequences and writes U+FFFD for each maximal invalid
  prefix. \<open>str::lines\<close> splits at newlines, drops the empty piece after a final newline and
  takes one carriage return off the end of each terminated line.
\<close>

type_synonym rstring = "byte list"

definition utf8_replacement :: rstring where
  "utf8_replacement = [0xEF, 0xBF, 0xBD]"

definition is_cont :: "byte \<Rightarrow> bool" where
  "is_cont b \<longleftrightarrow> 0x80 \<le> b \<and> b \<le> 0xBF"

text \<open>Width by the first byte; 0 for a byte that starts nothing.\<close>

definition utf8_char_width :: "byte \<Rightarrow> nat" where
  "utf8_char_width b =
     (if b < 0x80 then 1
      else if 0xC2 \<le> b \<and> b \<le> 0xDF then 2
      else if 0xE0 \<le> b \<and> b \<le> 0xEF then 3
      else if 0xF0 \<le> b \<and> b \<le> 0xF4 then 4
      else 0)"

definition second_ok :: "byte \<Rightarrow> byte \<Rightarrow> bool" where
  "second_ok b c =
     (if b = 0xE0 then 0xA0 \<le> c \<and> c \<le> 0xBF
      else if b = 0xED then 0x80 \<le> c \<and> c \<le> 0x9F
      else if b = 0xF0 then 0x90 \<le> c \<and> c \<le> 0xBF
      else if b = 0xF4 then 0x80 \<le> c \<and> c \<le> 0x8F
      else is_cont c)"

text \<open>\<open>utf8_step b rest\<close>: how many bytes the sequence that starts with \<open>b\<close> consumes, and
  whether it is valid.\<close>

definition utf8_step :: "byte \<Rightarrow> byte list \<Rightarrow> nat \<times> bool" where
  "utf8_step b rest =
     (case utf8_char_width b of
        0 \<Rightarrow> (1, False)
      | Suc 0 \<Rightarrow> (1, True)
      | w \<Rightarrow>
          (case rest of
             [] \<Rightarrow> (1, False)
           | c # rest1 \<Rightarrow>
               if \<not> second_ok b c then (1, False)
               else if w = 2 then (2, True)
               else (case rest1 of
                       [] \<Rightarrow> (2, False)
                     | d # rest2 \<Rightarrow>
                         if \<not> is_cont d then (2, False)
                         else if w = 3 then (3, True)
                         else (case rest2 of
                                 [] \<Rightarrow> (3, False)
                               | e # _ \<Rightarrow> if is_cont e then (4, True) else (3, False)))))"

lemma utf8_step_pos: "0 < fst (utf8_step b rest)"
  by (auto simp: utf8_step_def split: nat.splits list.splits)

function from_utf8_lossy :: "byte list \<Rightarrow> rstring" where
  "from_utf8_lossy [] = []"
| "from_utf8_lossy (b # rest) =
     (case utf8_step b rest of
        (n, ok) \<Rightarrow> (if ok then take n (b # rest) else utf8_replacement)
                   @ from_utf8_lossy (drop n (b # rest)))"
  by pat_completeness auto
termination
proof (relation "measure length", goal_cases)
  case (2 b rest x)
  then show ?case using utf8_step_pos [of b rest] by (cases "utf8_step b rest") auto
qed simp

lemma from_utf8_lossy_ascii: "\<forall>b \<in> set bs. b < 0x80 \<Longrightarrow> from_utf8_lossy bs = bs"
  by (induction bs) (auto simp: utf8_step_def utf8_char_width_def)

definition strip_cr :: "rstring \<Rightarrow> rstring" where
  "strip_cr l = (if l \<noteq> [] \<and> last l = 13 then butlast l else l)"

fun split_lines :: "rstring \<Rightarrow> rstring \<Rightarrow> rstring list" where
  "split_lines acc [] = (if acc = [] then [] else [acc])"
| "split_lines acc (b # bs) =
     (if b = 10 then strip_cr acc # split_lines [] bs else split_lines (acc @ [b]) bs)"

definition str_lines :: "rstring \<Rightarrow> rstring list" where
  "str_lines s = split_lines [] s"

section \<open>White space\<close>

text \<open>The length of the white-space character a byte string starts with, 0 when it starts with
  none: the code points of Unicode's \<open>White_Space\<close>, as \<open>char::is_whitespace\<close> has them, in UTF-8.\<close>

fun ws_len :: "rstring \<Rightarrow> nat" where
  "ws_len [] = 0"
| "ws_len (b # rest) =
     (if (9 \<le> b \<and> b \<le> 13) \<or> b = 32 then 1
      else case rest of
        [] \<Rightarrow> 0
      | c # rest2 \<Rightarrow>
          if b = 0xC2 \<and> (c = 0x85 \<or> c = 0xA0) then 2
          else (case rest2 of
                  [] \<Rightarrow> 0
                | d # _ \<Rightarrow>
                    if b = 0xE1 \<and> c = 0x9A \<and> d = 0x80
                       \<or> b = 0xE2 \<and> c = 0x80 \<and> (d \<ge> 0x80 \<and> d \<le> 0x8A \<or> d = 0xA8 \<or> d = 0xA9 \<or> d = 0xAF)
                       \<or> b = 0xE2 \<and> c = 0x81 \<and> d = 0x9F
                       \<or> b = 0xE3 \<and> c = 0x80 \<and> d = 0x80
                    then 3 else 0))"

function trim_start :: "rstring \<Rightarrow> rstring" where
  "trim_start s = (if ws_len s = 0 then s else trim_start (drop (ws_len s) s))"
  by pat_completeness auto
termination
proof (relation "measure length")
  fix s :: rstring
  assume "ws_len s \<noteq> 0"
  then have "s \<noteq> []" by auto
  with \<open>ws_len s \<noteq> 0\<close> show "(drop (ws_len s) s, s) \<in> measure length" by simp
qed simp

declare trim_start.simps [simp del]

text \<open>The same from the end: the white-space character a string ends with.\<close>

definition ws_len_end :: "rstring \<Rightarrow> nat" where
  "ws_len_end s =
     (case find_index (\<lambda>k. k \<le> length s \<and> ws_len (drop (length s - k) s) = k) [1, 2, 3] of
        Some i \<Rightarrow> i + 1 | None \<Rightarrow> 0)"

function trim_end :: "rstring \<Rightarrow> rstring" where
  "trim_end s =
     (if ws_len_end s = 0 \<or> s = [] then s else trim_end (take (length s - ws_len_end s) s))"
  by pat_completeness auto
termination by (relation "measure length") auto

declare trim_end.simps [simp del]

definition trim :: "rstring \<Rightarrow> rstring" where
  "trim s = trim_end (trim_start s)"

section \<open>Validity, character boundaries, integers\<close>

text \<open>\<open>std::str::from_utf8\<close> succeeds exactly on valid byte strings.\<close>

function valid_utf8 :: "byte list \<Rightarrow> bool" where
  "valid_utf8 [] \<longleftrightarrow> True"
| "valid_utf8 (b # rest) \<longleftrightarrow> (case utf8_step b rest of (n, ok) \<Rightarrow> ok \<and> valid_utf8 (drop n (b # rest)))"
  by pat_completeness auto
termination
proof (relation "measure length", goal_cases)
  case (2 b rest x)
  then show ?case using utf8_step_pos [of b rest] by (cases "utf8_step b rest") auto
qed simp

definition is_char_boundary :: "rstring \<Rightarrow> nat \<Rightarrow> bool" where
  "is_char_boundary s i \<longleftrightarrow> i = 0 \<or> i = length s \<or> (i < length s \<and> \<not> is_cont (s ! i))"

text \<open>\<open>while !s.is_char_boundary(cut) { cut -= 1; }\<close>, which ends at 0 at the latest.\<close>

fun floor_boundary :: "rstring \<Rightarrow> nat \<Rightarrow> nat" where
  "floor_boundary s 0 = 0"
| "floor_boundary s (Suc n) = (if is_char_boundary s (Suc n) then Suc n else floor_boundary s n)"

lemma floor_boundary_le: "floor_boundary s n \<le> n"
  by (induction n) auto

text \<open>\<open>str::parse::<i32>\<close>: an optional sign, then at least one digit, within the range.\<close>

definition parse_digits :: "rstring \<Rightarrow> int option" where
  "parse_digits ds =
     (if ds = [] \<or> \<not> list_all (\<lambda>b. 48 \<le> b \<and> b \<le> 57) ds then None
      else Some (foldl (\<lambda>acc b. acc * 10 + (uint b - 48)) 0 ds))"

definition parse_i32 :: "rstring \<Rightarrow> int option" where
  "parse_i32 s =
     filter_option (\<lambda>n. - (2 ^ 31) \<le> n \<and> n < 2 ^ 31)
       (case s of
          [] \<Rightarrow> None
        | c # rest \<Rightarrow>
            if c = 45 then map_option uminus (parse_digits rest)
            else if c = 43 then parse_digits rest
            else parse_digits s)"

section \<open>Printed decimals read back\<close>

definition is_digit :: "byte \<Rightarrow> bool" where
  "is_digit b \<longleftrightarrow> 48 \<le> b \<and> b \<le> 57"

lemma digit_byte:
  assumes "k < 10" shows "(of_char (char_of (48 + k :: nat)) :: byte) = word_of_nat (48 + k)"
proof -
  have "(of_char (char_of (48 + k)) :: byte) = word_of_nat (of_char (char_of (48 + k)))"
    by (simp only: of_nat_of_char)
  also have "\<dots> = word_of_nat (48 + k)" using assms by (simp add: take_bit_eq_mod)
  finally show ?thesis .
qed

lemma digit_value: "k < 10 \<Longrightarrow> uint (word_of_nat (48 + k) :: byte) = 48 + int k"
  by (simp add: uint_word_of_int_eq unsigned_of_nat take_bit_eq_mod flip: of_nat_add)

lemma bytes_of_append: "bytes_of (s @ t) = bytes_of s @ bytes_of t"
  by (simp add: bytes_of_def)

lemma dec_bytes:
  "bytes_of (dec n) =
     (if n < 10 then [word_of_nat (48 + n)] else bytes_of (dec (n div 10)) @ [word_of_nat (48 + n mod 10)])"
  by (subst dec.simps) (simp add: bytes_of_def digit_byte)

lemma digit_byte_is_digit: "k < 10 \<Longrightarrow> is_digit (word_of_nat (48 + k))"
  using digit_value [of k] by (simp add: is_digit_def word_le_def)

lemma dec_bytes_digits: "\<forall>b \<in> set (bytes_of (dec n)). is_digit b"
proof (induction n rule: less_induct)
  case (less n)
  have "\<forall>b \<in> set (bytes_of (dec (n div 10))). is_digit b" if "\<not> n < 10"
    using that by (intro less.IH) simp
  then show ?case by (subst dec_bytes) (auto simp: digit_byte_is_digit simp del: of_nat_add)
qed

lemma dec_bytes_value: "foldl (\<lambda>acc b. acc * 10 + (uint b - 48)) 0 (bytes_of (dec n)) = int n"
proof (induction n rule: less_induct)
  case (less n)
  show ?case
  proof (cases "n < 10")
    case True
    then show ?thesis by (subst dec_bytes) (simp add: digit_value del: of_nat_add)
  next
    case False
    then have "foldl (\<lambda>acc b. acc * 10 + (uint b - 48)) 0 (bytes_of (dec (n div 10))) = int (n div 10)"
      by (intro less.IH) simp
    with False show ?thesis
      by (subst dec_bytes) (simp add: digit_value zdiv_int zmod_int del: of_nat_add)
  qed
qed

lemma dec_bytes_nonempty: "bytes_of (dec n) \<noteq> []"
  by (simp add: bytes_of_def)

lemma parse_dec_bytes: "parse_digits (bytes_of (dec n)) = Some (int n)"
  using dec_bytes_digits [of n] by (simp add: parse_digits_def dec_bytes_nonempty dec_bytes_value is_digit_def list_all_iff)

lemma take_digits: "\<not> is_digit c \<Longrightarrow> takeWhile is_digit (bytes_of (dec n) @ c # rest) = bytes_of (dec n)"
  using dec_bytes_digits [of n] by (simp add: takeWhile_append2)

end
