(* ===== verification/Scrollback.thy ===== *)
theory Scrollback
  imports Bounded_Log Rust_Std
begin

text \<open>
  The per-session scrollback ring (\<^verbatim>\<open>core/houston-core/src/scrollback.rs\<close>): the last few
  megabytes a PTY wrote, trimmed at the front where a cut cannot split an escape sequence,
  replayed to clients that attach and checkpointed to disk. The code's \<open>VecDeque\<close> stores its
  bytes in two slices whose boundary depends on the allocator, so the state carries that
  boundary (\<open>sb_wrap\<close>) and an operation that moves it takes the new one as an argument:
  every theorem holds for all of them. Stream offsets are naturals; the only place the code
  guards the 64-bit range, \<open>load\<close>, writes that guard out. File access is left to the
  caller: \<open>load\<close> starts from the file's bytes.
\<close>

definition SCROLLBACK_CAP :: nat where "SCROLLBACK_CAP = 4 * 1024 * 1024"
definition TRIM_SLACK :: nat where "TRIM_SLACK = 1024 * 1024"
definition SAFE_CUT_WINDOW :: nat where "SAFE_CUT_WINDOW = 8 * 1024"

lemmas sb_consts = SCROLLBACK_CAP_def TRIM_SLACK_def SAFE_CUT_WINDOW_def

definition SGR_RESET :: "byte list" where "SGR_RESET = [0x1b, 0x5b, 0x30, 0x6d]"
definition PERSIST_MAGIC :: "byte list" where "PERSIST_MAGIC = [0x54, 0x52, 0x53, 0x42]"
definition PERSIST_VERSION :: u8 where "PERSIST_VERSION = 1"

record replay =
  rp_data :: "byte list"
  rp_generation :: u32
  rp_replayed_bytes :: nat
  rp_bytes_seen :: nat

record scrollback =
  sb_buf :: "byte list"
  sb_wrap :: nat
  sb_start :: nat
  sb_generation :: u32

definition sb_new :: scrollback where
  "sb_new = \<lparr>sb_buf = [], sb_wrap = 0, sb_start = 0, sb_generation = 1\<rparr>"

definition as_slices :: "scrollback \<Rightarrow> byte list \<times> byte list" where
  "as_slices s = (take (sb_wrap s) (sb_buf s), drop (sb_wrap s) (sb_buf s))"

definition bytes_seen :: "scrollback \<Rightarrow> nat" where
  "bytes_seen s = sb_start s + length (sb_buf s)"

text \<open>What a line with bare carriage returns shows: the text after the last one that has any.\<close>

fun rfind :: "('a \<Rightarrow> bool) \<Rightarrow> 'a list \<Rightarrow> nat option" where
  "rfind p [] = None"
| "rfind p (x # xs) =
     (case rfind p xs of Some i \<Rightarrow> Some (Suc i) | None \<Rightarrow> if p x then Some 0 else None)"

lemma rfind_less: "rfind p xs = Some i \<Longrightarrow> i < length xs"
  by (induction xs arbitrary: i) (auto split: option.splits if_splits)

function carriage_tail :: "rstring \<Rightarrow> rstring" where
  "carriage_tail head =
     (case rfind (\<lambda>b. b = 13) head of
        None \<Rightarrow> head
      | Some i \<Rightarrow> (let after = drop (Suc i) head
                  in if after \<noteq> [] then after else carriage_tail (take i head)))"
  by pat_completeness auto
termination
  by (relation "measure length") (auto dest: rfind_less)

declare carriage_tail.simps [simp del]

section \<open>Where a trim may cut\<close>

primrec safe_cut_loop :: "byte list list \<Rightarrow> nat \<Rightarrow> nat option \<Rightarrow> nat \<Rightarrow> nat" where
  "safe_cut_loop [] offset escape from = (case escape of None \<Rightarrow> from | Some e \<Rightarrow> e)"
| "safe_cut_loop (segment # segments) offset escape from =
     (let segment_end = offset + length segment; stop = from + SAFE_CUT_WINDOW
      in if from < segment_end \<and> offset < stop then
           (let lo = from - offset;
                hi = min (length segment) (stop - offset);
                window = take (hi - lo) (drop lo segment)
            in case find_index (\<lambda>b. b = 10) window of
                 Some i \<Rightarrow> offset + lo + i + 1
               | None \<Rightarrow>
                   safe_cut_loop segments segment_end
                     (if escape = None
                      then map_option (\<lambda>i. offset + lo + i) (find_index (\<lambda>b. b = 0x1b) window)
                      else escape)
                     from)
         else safe_cut_loop segments segment_end escape from)"

definition safe_cut :: "byte list list \<Rightarrow> nat \<Rightarrow> nat" where
  "safe_cut segments from = safe_cut_loop segments 0 None from"

section \<open>Operations\<close>

definition sb_push :: "nat \<Rightarrow> byte list \<Rightarrow> scrollback \<Rightarrow> nat \<times> scrollback" where
  "sb_push wrap' data s =
     (let offset = bytes_seen s;
          old_len = length (sb_buf s);
          total = old_len + length data;
          trimmed = (SCROLLBACK_CAP + TRIM_SLACK < total);
          (first, second) = as_slices s;
          cutoff = (if trimmed then safe_cut [first, second, data] (total - SCROLLBACK_CAP) else 0);
          skip = cutoff - old_len
      in (offset,
          s\<lparr>sb_buf := drop (min cutoff old_len) (sb_buf s) @ drop skip data,
            sb_start := sb_start s + cutoff,
            sb_wrap := wrap'\<rparr>))"

text \<open>Bytes \<open>from .. to\<close> of the ring, gathered slice by slice.\<close>

definition extend_range :: "scrollback \<Rightarrow> byte list \<Rightarrow> nat \<Rightarrow> nat \<Rightarrow> byte list" where
  "extend_range s out from to =
     (let (first, second) = as_slices s;
          out1 = (if from < length first
                  then out @ take (min to (length first) - from) (drop from first) else out)
      in if length first < to
         then out1 @ take (to - length first - (from - length first)) (drop (from - length first) second)
         else out1)"

definition sb_replay :: "nat option \<Rightarrow> scrollback \<Rightarrow> replay" where
  "sb_replay cap s =
     (let len = length (sb_buf s);
          want = (case cap of None \<Rightarrow> len | Some c \<Rightarrow> min c len);
          (first, second) = as_slices s;
          from = (if 0 < len - want then safe_cut [first, second] (len - want) else len - want);
          tail_len = len - from;
          partial = (0 < sb_start s \<or> 0 < from)
      in \<lparr>rp_data = extend_range s (if partial \<and> 0 < tail_len then SGR_RESET else []) from len,
          rp_generation = sb_generation s,
          rp_replayed_bytes = tail_len,
          rp_bytes_seen = bytes_seen s\<rparr>)"

definition sb_slice :: "nat \<Rightarrow> nat \<Rightarrow> scrollback \<Rightarrow> byte list \<times> bool" where
  "sb_slice start end0 s =
     (let end = min end0 (bytes_seen s)
      in if end \<le> start then ([], False)
         else if end \<le> sb_start s then ([], True)
         else (extend_range s [] (max start (sb_start s) - sb_start s) (end - sb_start s),
               start < sb_start s))"

definition sb_replay_from :: "nat \<Rightarrow> u32 \<Rightarrow> scrollback \<Rightarrow> replay option" where
  "sb_replay_from offset generation s =
     (if generation \<noteq> sb_generation s \<or> offset < sb_start s \<or> bytes_seen s < offset then None
      else Some \<lparr>rp_data = fst (sb_slice offset (bytes_seen s) s),
                 rp_generation = sb_generation s,
                 rp_replayed_bytes = bytes_seen s - offset,
                 rp_bytes_seen = bytes_seen s\<rparr>)"

definition wrote_a_line :: "scrollback \<Rightarrow> bool" where
  "wrote_a_line s =
     (let (first, second) = as_slices s
      in find_index (\<lambda>b. b = 10) first \<noteq> None \<or> find_index (\<lambda>b. b = 10) second \<noteq> None)"

text \<open>\<open>memrchr_iter\<close>: the newline positions of a slice, last first, shifted by \<open>offset\<close>.\<close>

definition newlines_rev :: "nat \<Rightarrow> byte list \<Rightarrow> nat list" where
  "newlines_rev offset bytes =
     map ((+) offset) (rev (filter (\<lambda>i. bytes ! i = 10) [0..<length bytes]))"

fun scan_newlines :: "nat \<Rightarrow> nat \<Rightarrow> nat list \<Rightarrow> nat" where
  "scan_newlines lines seen [] = 0"
| "scan_newlines lines seen (i # is) =
     (if Suc seen = lines then i + 1 else scan_newlines lines (Suc seen) is)"

definition tail_bytes :: "nat \<Rightarrow> scrollback \<Rightarrow> byte list" where
  "tail_bytes lines s =
     (let (first, second) = as_slices s;
          len = length (sb_buf s);
          end = (if sb_buf s \<noteq> [] \<and> last (sb_buf s) = 10 then len - 1 else len);
          start = (if 0 < lines
                   then scan_newlines lines 0
                          (newlines_rev (length first) (take (end - length first) second)
                           @ newlines_rev 0 (take (min end (length first)) first))
                   else 0)
      in extend_range s [] start end)"

definition tail_lines :: "(rstring \<Rightarrow> rstring) \<Rightarrow> nat \<Rightarrow> scrollback \<Rightarrow> rstring list" where
  "tail_lines strip_ansi lines s =
     map (\<lambda>line. strip_ansi (carriage_tail line)) (str_lines (from_utf8_lossy (tail_bytes lines s)))"

definition sb_snapshot :: "scrollback \<Rightarrow> byte list" where
  "sb_snapshot s =
     (let (first, second) = as_slices s
      in PERSIST_MAGIC @ [PERSIST_VERSION] @ nat_le 4 (unat (sb_generation s))
         @ nat_le 8 (sb_start s) @ first @ second)"

datatype load_error = Exceeds_limit nat | Corrupt_header nat | Bad_version u8 | Invalid_offset nat nat

definition sb_load :: "nat \<Rightarrow> byte list \<Rightarrow> load_error + scrollback" where
  "sb_load wrap' file =
     (let limit = 17 + SCROLLBACK_CAP + TRIM_SLACK;
          raw = take (limit + 1) file
      in if limit < length raw then Inl (Exceeds_limit (length raw))
         else if length raw < 17 \<or> take 4 raw \<noteq> PERSIST_MAGIC then Inl (Corrupt_header (length raw))
         else if raw ! 4 \<noteq> PERSIST_VERSION then Inl (Bad_version (raw ! 4))
         else
           (let generation = word_of_nat (le_nat (take 4 (drop 5 raw)));
                start = le_nat (take 8 (drop 9 raw))
            in if 2 ^ 64 \<le> start + (length raw - 17) then Inl (Invalid_offset start (length raw - 17))
               else Inr \<lparr>sb_buf = drop 17 raw, sb_wrap = wrap', sb_start = start,
                         sb_generation = generation\<rparr>))"

section \<open>The cut does not depend on the ring's layout\<close>

definition cut_window :: "nat \<Rightarrow> byte list \<Rightarrow> byte list" where
  "cut_window from data = take SAFE_CUT_WINDOW (drop from data)"

definition safe_cut_spec :: "byte list \<Rightarrow> nat \<Rightarrow> nat" where
  "safe_cut_spec data from =
     (case find_index (\<lambda>b. b = 10) (cut_window from data) of
        Some i \<Rightarrow> from + i + 1
      | None \<Rightarrow>
          (case find_index (\<lambda>b. b = 0x1b) (cut_window from data) of
             Some i \<Rightarrow> from + i
           | None \<Rightarrow> from))"

lemma cut_window_append:
  "cut_window from (xs @ ys) =
     cut_window from xs @ take (SAFE_CUT_WINDOW - (length xs - from)) (drop (from - length xs) ys)"
  by (simp add: cut_window_def)

lemma length_cut_window: "length (cut_window from xs) = min SAFE_CUT_WINDOW (length xs - from)"
  by (simp add: cut_window_def min.commute)

lemma safe_cut_loop_spec:
  assumes "find_index (\<lambda>b. b = 10) (cut_window from pre) = None"
    and "escape = map_option ((+) from) (find_index (\<lambda>b. b = 0x1b) (cut_window from pre))"
  shows "safe_cut_loop segments (length pre) escape from = safe_cut_spec (pre @ concat segments) from"
  using assms
proof (induction segments arbitrary: pre escape)
  case Nil
  then show ?case by (auto simp: safe_cut_spec_def split: option.splits)
next
  case (Cons seg segments)
  let ?off = "length pre" and ?stop = "from + SAFE_CUT_WINDOW"
  let ?lo = "from - ?off" and ?hi = "min (length seg) (?stop - ?off)"
  let ?win = "take (?hi - ?lo) (drop ?lo seg)"
  show ?case
  proof (cases "from < ?off + length seg \<and> ?off < ?stop")
    case False
    then have same: "cut_window from (pre @ seg) = cut_window from pre"
      by (auto simp: cut_window_append)
    have "safe_cut_loop segments (length (pre @ seg)) escape from
          = safe_cut_spec ((pre @ seg) @ concat segments) from"
      using Cons.prems by (intro Cons.IH) (simp_all add: same)
    moreover have "safe_cut_loop (seg # segments) ?off escape from
          = safe_cut_loop segments (length (pre @ seg)) escape from"
      by (simp only: safe_cut_loop.simps Let_def False if_False length_append)
    ultimately show ?thesis by simp
  next
    case True
    have "?win = take (SAFE_CUT_WINDOW - (?off - from)) (drop ?lo seg)"
    proof (cases "from \<le> ?off")
      case below: True
      then have "?stop - ?off = SAFE_CUT_WINDOW - (?off - from)" by simp
      with below show ?thesis by (simp add: min_def)
    next
      case above: False
      then have "?stop - ?off - ?lo = SAFE_CUT_WINDOW" by simp
      with above show ?thesis by (auto simp: min_def)
    qed
    then have grow: "cut_window from (pre @ seg) = cut_window from pre @ ?win"
      by (simp add: cut_window_append)
    have at: "from + length (cut_window from pre) = ?off + ?lo"
      using True by (auto simp: length_cut_window)
    show ?thesis
    proof (cases "find_index (\<lambda>b. b = 10) ?win")
      case (Some i)
      have "find_index (\<lambda>b. b = 10) (cut_window from (pre @ seg)) = Some (length (cut_window from pre) + i)"
        using Cons.prems(1) Some by (simp add: grow find_index_append)
      then have "find_index (\<lambda>b. b = 10) (cut_window from ((pre @ seg) @ concat segments))
          = Some (length (cut_window from pre) + i)"
        by (subst cut_window_append) (simp add: find_index_append)
      then have "safe_cut_spec (pre @ concat (seg # segments)) from = ?off + ?lo + i + 1"
        using at by (simp add: safe_cut_spec_def)
      then show ?thesis using True Some by (simp add: Let_def)
    next
      case None
      let ?esc = "if escape = None then map_option (\<lambda>i. ?off + ?lo + i) (find_index (\<lambda>b. b = 0x1b) ?win) else escape"
      have esc: "?esc = map_option ((+) from) (find_index (\<lambda>b. b = 0x1b) (cut_window from (pre @ seg)))"
        using Cons.prems(2)
        by (auto simp: grow find_index_append option.map_comp comp_def add.assoc [symmetric] at
            split: option.splits)
      have "safe_cut_loop segments (length (pre @ seg)) ?esc from
            = safe_cut_spec ((pre @ seg) @ concat segments) from"
        using Cons.prems(1) None by (intro Cons.IH esc) (simp add: grow find_index_append)
      moreover have "safe_cut_loop (seg # segments) ?off escape from
            = safe_cut_loop segments (length (pre @ seg)) ?esc from"
        using True None by (simp add: Let_def)
      ultimately show ?thesis by simp
    qed
  qed
qed

lemma safe_cut_eq_spec: "safe_cut segments from = safe_cut_spec (concat segments) from"
  using safe_cut_loop_spec [of "from" "[]" None segments]
  by (simp add: safe_cut_def cut_window_def)

lemma safe_cut_bounds:
  assumes "from \<le> length data"
  shows "from \<le> safe_cut_spec data from" "safe_cut_spec data from \<le> length data"
    "safe_cut_spec data from \<le> from + SAFE_CUT_WINDOW"
  using assms
  by (auto simp: safe_cut_spec_def length_cut_window dest!: find_index_less split: option.splits)

text \<open>A cut is at a boundary an escape sequence cannot span, when the window has one.\<close>

lemma safe_cut_boundary:
  assumes "safe_cut_spec data from = c"
  shows "c = from \<or> (0 < c \<and> data ! (c - 1) = 10) \<or> data ! c = 0x1b"
proof -
  have nth: "cut_window from data ! i = data ! (from + i)" if "i < length (cut_window from data)" for i
    using that by (auto simp: cut_window_def add.commute)
  show ?thesis
    using assms by (auto simp: safe_cut_spec_def dest!: find_index_SomeD simp: nth split: option.splits)
qed

section \<open>Slices and the ring\<close>

lemma as_slices_append: "fst (as_slices s) @ snd (as_slices s) = sb_buf s"
  by (simp add: as_slices_def)

lemma extend_range_eq:
  assumes "from \<le> to" "to \<le> length (sb_buf s)"
  shows "extend_range s out from to = out @ take (to - from) (drop from (sb_buf s))"
proof -
  obtain a b where ab: "as_slices s = (a, b)" by (cases "as_slices s")
  then have buf: "sb_buf s = a @ b" using as_slices_append [of s] by simp
  show ?thesis
  proof (cases "from < length a")
    case True
    then show ?thesis using assms ab buf
      by (cases "length a < to") (auto simp: extend_range_def min_def)
  next
    case False
    then show ?thesis using assms ab buf
      by (auto simp: extend_range_def)
  qed
qed

lemma sb_push_spec:
  assumes "r = sb_push w data s"
  defines "c \<equiv> sb_start (snd r) - sb_start s"
  shows "fst r = bytes_seen s" "sb_generation (snd r) = sb_generation s"
    "sb_start s \<le> sb_start (snd r)"
    "sb_buf (snd r) = drop c (sb_buf s @ data)" "c \<le> length (sb_buf s @ data)"
    "length (sb_buf (snd r)) \<le> SCROLLBACK_CAP + TRIM_SLACK"
    "min (length (sb_buf s @ data)) (SCROLLBACK_CAP - SAFE_CUT_WINDOW) \<le> length (sb_buf (snd r))"
    "bytes_seen (snd r) = bytes_seen s + length data"
proof -
  let ?all = "sb_buf s @ data"
  let ?trim = "SCROLLBACK_CAP + TRIM_SLACK < length ?all"
  let ?from = "length ?all - SCROLLBACK_CAP"
  let ?cut = "if ?trim then safe_cut_spec ?all ?from else 0"
  have cat: "take (sb_wrap s) (sb_buf s) @ drop (sb_wrap s) (sb_buf s) @ data = ?all"
    by (simp flip: append_assoc)
  have "snd r = s\<lparr>sb_buf := drop (min ?cut (length (sb_buf s))) (sb_buf s)
                              @ drop (?cut - length (sb_buf s)) data,
                  sb_start := sb_start s + ?cut, sb_wrap := w\<rparr>"
    unfolding assms sb_push_def by (simp add: Let_def as_slices_def safe_cut_eq_spec cat)
  moreover have "drop (min ?cut (length (sb_buf s))) (sb_buf s) @ drop (?cut - length (sb_buf s)) data
      = drop ?cut ?all"
    by (cases "?cut \<le> length (sb_buf s)") (auto simp: min_def)
  ultimately have r: "snd r = s\<lparr>sb_buf := drop ?cut ?all, sb_start := sb_start s + ?cut, sb_wrap := w\<rparr>"
    by simp
  then have c: "c = ?cut" by (simp add: c_def)
  have cut: "?cut \<le> length ?all" "?trim \<Longrightarrow> ?from \<le> ?cut" "?trim \<Longrightarrow> ?cut \<le> ?from + SAFE_CUT_WINDOW"
    using safe_cut_bounds [of ?from ?all] by auto
  have "sb_buf (snd r) = drop ?cut ?all" by (simp add: r)
  then have len: "length (sb_buf (snd r)) = length ?all - ?cut" by (simp only: length_drop)
  show "fst r = bytes_seen s" by (simp add: assms sb_push_def Let_def case_prod_beta)
  show "sb_generation (snd r) = sb_generation s" "sb_start s \<le> sb_start (snd r)" by (simp_all add: r)
  show "sb_buf (snd r) = drop c ?all" by (simp add: r c)
  show "c \<le> length ?all" using cut by (simp add: c)
  show "length (sb_buf (snd r)) \<le> SCROLLBACK_CAP + TRIM_SLACK"
    unfolding len using cut by (cases ?trim) auto
  show "min (length ?all) (SCROLLBACK_CAP - SAFE_CUT_WINDOW) \<le> length (sb_buf (snd r))"
    unfolding len using cut by (cases ?trim) auto
  show "bytes_seen (snd r) = bytes_seen s + length data"
    using cut by (simp add: r bytes_seen_def)
qed

section \<open>The ring is a bounded, counted log\<close>

text \<open>\<open>W\<close> is the allocator's choice of the slice boundary after each push.\<close>

definition sb_feed :: "(scrollback \<Rightarrow> byte list \<Rightarrow> nat) \<Rightarrow> scrollback \<Rightarrow> byte list list \<Rightarrow> scrollback" where
  "sb_feed W s xss = foldl (\<lambda>s d. snd (sb_push (W s d) d s)) s xss"

interpretation ring: counted_log "\<lambda>s d. snd (sb_push (W s d) d s)" sb_buf "\<lambda>_. True" length
    "SCROLLBACK_CAP + TRIM_SLACK" bytes_seen for W
proof
  fix s and xs :: "byte list"
  show "suffix (sb_buf (snd (sb_push (W s xs) xs s))) (sb_buf s @ xs)"
    by (simp only: sb_push_spec(4) [OF refl] suffix_drop)
qed (simp_all add: sb_push_spec(6,8) [OF refl])

lemma sb_feed_min_kept:
  "min (length (sb_buf s)) (SCROLLBACK_CAP - SAFE_CUT_WINDOW) = min n (SCROLLBACK_CAP - SAFE_CUT_WINDOW) \<Longrightarrow>
   min (n + length (concat xss)) (SCROLLBACK_CAP - SAFE_CUT_WINDOW) \<le> length (sb_buf (sb_feed W s xss))"
proof (induction xss arbitrary: s n)
  case Nil
  then show ?case by (simp add: sb_feed_def)
next
  case (Cons d xss)
  let ?t = "snd (sb_push (W s d) d s)" and ?K = "SCROLLBACK_CAP - SAFE_CUT_WINDOW"
  have kept: "min (length (sb_buf s) + length d) ?K \<le> length (sb_buf ?t)"
    using sb_push_spec(7) [OF refl, of s d "W s d"] by simp
  have "length (sb_buf ?t) \<le> length (sb_buf s) + length d"
    using sb_push_spec(4) [OF refl, of "W s d" d s] by simp
  then have "min (length (sb_buf ?t)) ?K = min (n + length d) ?K"
    using kept Cons.prems by (auto simp: min_def split: if_splits)
  from Cons.IH [OF this] show ?case by (simp add: sb_feed_def add.assoc)
qed

lemma sb_feed_new:
  assumes t: "t = sb_feed W sb_new xss"
  shows "bytes_seen t = length (concat xss)" "sb_buf t = drop (sb_start t) (concat xss)"
    "sb_start t \<le> length (concat xss)"
proof -
  have new: "sb_buf sb_new = []" "bytes_seen sb_new = 0" by (simp_all add: sb_new_def bytes_seen_def)
  have t': "t = foldl (\<lambda>s d. snd (sb_push (W s d) d s)) sb_new xss" using t by (simp add: sb_feed_def)
  show seen: "bytes_seen t = length (concat xss)"
    using ring.seen_foldl [where W = W, of sb_new xss] new t' by simp
  have "bytes_seen t - 0 - length (sb_buf t) = sb_start t" by (simp add: bytes_seen_def)
  then show "sb_buf t = drop (sb_start t) (concat xss)"
    using ring.held_is_stream_tail(1) [where W = W, OF TrueI new t'] by simp
  show "sb_start t \<le> length (concat xss)" using seen by (simp add: bytes_seen_def)
qed

lemma sb_slice_eq:
  assumes "sb_start s \<le> from" "from \<le> bytes_seen s"
  shows "sb_slice from (bytes_seen s) s = (drop (from - sb_start s) (sb_buf s), False)"
proof (cases "from = bytes_seen s")
  case True
  then show ?thesis by (simp add: sb_slice_def bytes_seen_def)
next
  case False
  then have "sb_start s < bytes_seen s" using assms by simp
  with assms False show ?thesis
    by (simp add: sb_slice_def Let_def extend_range_eq bytes_seen_def max_def)
qed

section \<open>What the ring promises\<close>

text \<open>A trim point lies between the requested offset and one window past it, never beyond
  the data; it is the offset itself, or just behind a newline, or at an escape; when the window
  holds a newline the cut is behind the first one; and how the ring splits the bytes over its two
  slices and the new chunk makes no difference to it.\<close>

theorem safe_cut_contract:
  assumes "from \<le> length (concat segments)"
  shows "let c = safe_cut segments from; all = concat segments
    in from \<le> c \<and> c \<le> min (length all) (from + SAFE_CUT_WINDOW)
       \<and> (c = from \<or> (0 < c \<and> all ! (c - 1) = 10) \<or> all ! c = 0x1b)
       \<and> (\<forall>i. find_index (\<lambda>b. b = 10) (take SAFE_CUT_WINDOW (drop from all)) = Some i \<longrightarrow> c = from + i + 1)
       \<and> c = safe_cut [all] from"
proof -
  have "\<forall>i. find_index (\<lambda>b. b = 10) (take SAFE_CUT_WINDOW (drop from (concat segments))) = Some i \<longrightarrow>
      safe_cut_spec (concat segments) from = from + i + 1"
    by (simp add: safe_cut_spec_def cut_window_def)
  with safe_cut_bounds [OF assms] safe_cut_boundary [of "concat segments" "from", OF refl]
  show ?thesis by (simp add: safe_cut_eq_spec Let_def)
qed

lemma safe_cut_contract_witness:
  "2 \<le> safe_cut [[1, 2], [3, 0x1b, 10], [5]] 2 \<and> safe_cut [[1, 2], [3, 0x1b, 10], [5]] 2 = 2 + 2 + 1
   \<and> safe_cut [[1, 2], [3, 0x1b, 10], [5]] 2 = safe_cut [[1, 2, 3, 0x1b, 10, 5]] 2"
  using safe_cut_contract [of 2 "[[1, 2], [3, 0x1b, 10], [5]]"]
  by (simp add: SAFE_CUT_WINDOW_def Let_def)

text \<open>C2: Whatever chunks a session writes and wherever the allocator splits the deque, the ring
  holds exactly the tail of the stream that its start offset names, counts every byte, never
  exceeds the cap plus its slack, and never keeps less than the cap less one cut window (or the
  whole stream, when that is shorter).\<close>

theorem scrollback_holds_stream_tail:
  "let t = sb_feed W sb_new xss; stream = concat xss
   in sb_buf t = drop (sb_start t) stream
      \<and> bytes_seen t = length stream
      \<and> length (sb_buf t) \<le> SCROLLBACK_CAP + TRIM_SLACK
      \<and> min (length stream) (SCROLLBACK_CAP - SAFE_CUT_WINDOW) \<le> length (sb_buf t)"
proof -
  have "length (sb_buf (sb_feed W sb_new xss)) \<le> SCROLLBACK_CAP + TRIM_SLACK"
    using ring.held_limit [where W = W, of sb_new xss] by (simp add: sb_feed_def sb_new_def)
  moreover have "min (0 + length (concat xss)) (SCROLLBACK_CAP - SAFE_CUT_WINDOW)
      \<le> length (sb_buf (sb_feed W sb_new xss))"
    by (rule sb_feed_min_kept) (simp add: sb_new_def)
  ultimately show ?thesis
    using sb_feed_new [OF refl, of W xss] by (simp add: Let_def)
qed

text \<open>C25: A client that comes back with the offset it had read up to gets exactly the bytes of the
  stream it has not seen; it is told to start over only when the process was replaced (another
  generation), when the ring has already dropped bytes it needs, or when it claims more than was
  ever written.\<close>

theorem replay_from_completes_the_client:
  "let t = sb_feed W sb_new xss; stream = concat xss
   in sb_replay_from offset generation t =
        (if generation = sb_generation sb_new \<and> sb_start t \<le> offset \<and> offset \<le> length stream
         then Some \<lparr>rp_data = drop offset stream, rp_generation = generation,
                    rp_replayed_bytes = length stream - offset, rp_bytes_seen = length stream\<rparr>
         else None)"
proof -
  let ?t = "sb_feed W sb_new xss"
  note t = sb_feed_new [OF refl, of W xss]
  have gen: "sb_generation ?t = sb_generation sb_new"
    unfolding sb_feed_def by (induction xss rule: rev_induct) (simp_all add: sb_push_spec(2) [OF refl])
  show ?thesis
  proof (cases "sb_start ?t \<le> offset \<and> offset \<le> length (concat xss)")
    case True
    then have "sb_slice offset (bytes_seen ?t) ?t = (drop (offset - sb_start ?t) (sb_buf ?t), False)"
      by (intro sb_slice_eq) (simp_all add: t(1))
    moreover have "drop (offset - sb_start ?t) (sb_buf ?t) = drop offset (concat xss)"
      using True unfolding t(2) by simp
    ultimately show ?thesis using True by (auto simp: sb_replay_from_def Let_def gen t(1))
  next
    case False
    then show ?thesis by (auto simp: sb_replay_from_def Let_def gen t(1))
  qed
qed

lemma tail_of_tail:
  assumes "buf = drop start stream" and "length stream = start + length buf" and "from \<le> length buf"
  shows "take (length buf - from) (drop from buf) = drop (length stream - (length buf - from)) stream"
  using assms by (simp add: add.commute)

text \<open>A replay is a tail of the stream that ends at its last byte, at most the caller's cap and
  at least the cap less one cut window, prefixed by a colour reset exactly when it is non-empty
  and starts after the stream's first byte; its counters describe the bytes it carries.\<close>

theorem replay_is_a_stream_tail:
  "let t = sb_feed W sb_new xss; stream = concat xss; r = sb_replay cap t;
       n = rp_replayed_bytes r;
       want = (case cap of None \<Rightarrow> length (sb_buf t) | Some c \<Rightarrow> min c (length (sb_buf t)))
   in rp_data r = (if 0 < n \<and> n < length stream then SGR_RESET else []) @ drop (length stream - n) stream
      \<and> rp_bytes_seen r = length stream \<and> rp_generation r = sb_generation t
      \<and> n \<le> want \<and> want - SAFE_CUT_WINDOW \<le> n"
proof -
  let ?t = "sb_feed W sb_new xss"
  let ?len = "length (sb_buf ?t)" and ?stream = "concat xss"
  note t = sb_feed_new [OF refl, of W xss]
  obtain want where want: "want = (case cap of None \<Rightarrow> ?len | Some c \<Rightarrow> min c ?len)" by simp
  obtain cut where cut: "cut = (if 0 < ?len - want then safe_cut_spec (sb_buf ?t) (?len - want) else ?len - want)"
    by simp
  have cat: "take (sb_wrap ?t) (sb_buf ?t) @ drop (sb_wrap ?t) (sb_buf ?t) = sb_buf ?t" by simp
  have r: "sb_replay cap ?t =
     \<lparr>rp_data = extend_range ?t (if (0 < sb_start ?t \<or> 0 < cut) \<and> 0 < ?len - cut then SGR_RESET else []) cut ?len,
      rp_generation = sb_generation ?t, rp_replayed_bytes = ?len - cut, rp_bytes_seen = bytes_seen ?t\<rparr>"
    unfolding sb_replay_def cut want
    by (simp only: Let_def as_slices_def prod.case safe_cut_eq_spec concat.simps append_Nil2 cat)
  have bounds: "?len - want \<le> cut" "cut \<le> ?len" "cut \<le> ?len - want + SAFE_CUT_WINDOW"
    using safe_cut_bounds [of "?len - want" "sb_buf ?t"] unfolding cut by auto
  have wl: "want \<le> ?len" unfolding want by (simp split: option.split)
  have len: "length ?stream = sb_start ?t + ?len" using t(1) by (simp add: bytes_seen_def)
  have partial: "((0 < sb_start ?t \<or> 0 < cut) \<and> 0 < ?len - cut)
      = (0 < ?len - cut \<and> ?len - cut < length ?stream)"
    using bounds(2) len by auto
  have data: "rp_data (sb_replay cap ?t) =
      (if 0 < ?len - cut \<and> ?len - cut < length ?stream then SGR_RESET else [])
      @ drop (length ?stream - (?len - cut)) ?stream"
    unfolding r replay.simps partial extend_range_eq [OF bounds(2) order_refl]
    by (simp only: tail_of_tail [OF t(2) len bounds(2)])
  have "?len - cut \<le> want" "want - SAFE_CUT_WINDOW \<le> ?len - cut"
    using bounds wl by linarith+
  then show ?thesis
    using data t(1) unfolding Let_def want [symmetric] by (simp only: r replay.simps simp_thms)
qed

lemma load_snapshot:
  assumes "length (sb_buf s) \<le> SCROLLBACK_CAP + TRIM_SLACK" and "bytes_seen s < 2 ^ 64"
  shows "sb_load wrap' (sb_snapshot s) = Inr (s\<lparr>sb_wrap := wrap'\<rparr>)"
proof -
  have "unat (sb_generation s) < 2 ^ LENGTH(32)" by (rule unsigned_less)
  then have start: "sb_start s mod 256 ^ 8 = sb_start s"
    "unat (sb_generation s) mod 256 ^ 4 = unat (sb_generation s)"
    using assms(2) by (simp_all add: bytes_seen_def)
  have snap: "sb_snapshot s = PERSIST_MAGIC @ [PERSIST_VERSION] @ nat_le 4 (unat (sb_generation s))
      @ nat_le 8 (sb_start s) @ sb_buf s"
    by (simp add: sb_snapshot_def as_slices_def)
  show "sb_load wrap' (sb_snapshot s) = Inr (s\<lparr>sb_wrap := wrap'\<rparr>)"
    using assms start unfolding snap sb_load_def
    by (simp add: PERSIST_MAGIC_def Let_def bytes_seen_def le_nat_nat_le)
qed

lemma snapshot_load:
  assumes load: "sb_load wrap' file = Inr loaded"
  shows "sb_snapshot loaded = file"
proof -
  let ?limit = "17 + SCROLLBACK_CAP + TRIM_SLACK"
  have short: "length (take (?limit + 1) file) \<le> ?limit"
    using load by (auto simp: sb_load_def Let_def split: if_splits)
  then have raw: "take (?limit + 1) file = file" by simp
  have header: "17 \<le> length file" "take 4 file = PERSIST_MAGIC" "file ! 4 = PERSIST_VERSION"
    and loaded: "loaded = \<lparr>sb_buf = drop 17 file, sb_wrap = wrap', sb_start = le_nat (take 8 (drop 9 file)),
                    sb_generation = word_of_nat (le_nat (take 4 (drop 5 file)))\<rparr>"
    using load unfolding sb_load_def raw by (auto simp: Let_def split: if_splits)
  have "le_nat (take 4 (drop 5 file)) < 256 ^ 4"
    using le_nat_less [of "take 4 (drop 5 file)"] header(1) by simp
  then have gen: "nat_le 4 (unat (word_of_nat (le_nat (take 4 (drop 5 file))) :: u32)) = take 4 (drop 5 file)"
    using header(1) by (simp add: unat_of_nat nat_le_le_nat)
  have off: "nat_le 8 (le_nat (take 8 (drop 9 file))) = take 8 (drop 9 file)"
    using header(1) by (simp add: nat_le_le_nat)
  have join: "take n (drop m file) @ drop (m + n) file = drop m file" for m n
    by (metis append_take_drop_id drop_drop add.commute)
  have "sb_snapshot loaded = take 4 file @ [file ! 4] @ take 4 (drop 5 file) @ take 8 (drop 9 file) @ drop 17 file"
    unfolding sb_snapshot_def loaded as_slices_def Let_def prod.case append_take_drop_id scrollback.simps
      gen off header(2,3) by simp
  also have "\<dots> = take 4 file @ [file ! 4] @ drop 5 file"
    using join [of 4 5] join [of 8 9] by simp
  also have "\<dots> = take 4 file @ drop 4 file"
    using header(1) Cons_nth_drop_Suc [of 4 "file"] by simp
  finally show ?thesis by simp
qed

text \<open>Checkpoint and restore are inverse: loading the snapshot of a ring within its bounds gives
  that ring back with a fresh layout, and any file that loads re-serialises to the same bytes.\<close>

theorem snapshot_load_inverse:
  assumes "length (sb_buf s) \<le> SCROLLBACK_CAP + TRIM_SLACK" and "bytes_seen s < 2 ^ 64"
  shows "sb_load wrap' (sb_snapshot s) = Inr (s\<lparr>sb_wrap := wrap'\<rparr>)
    \<and> (\<forall>file loaded. sb_load wrap' file = Inr loaded \<longrightarrow> sb_snapshot loaded = file)"
  using load_snapshot [OF assms] snapshot_load by blast

lemma snapshot_load_inverse_witness:
  "sb_load 0 (sb_snapshot \<lparr>sb_buf = [7, 8], sb_wrap = 1, sb_start = 300, sb_generation = 2\<rparr>)
     = Inr \<lparr>sb_buf = [7, 8], sb_wrap = 0, sb_start = 300, sb_generation = 2\<rparr>
   \<and> sb_snapshot \<lparr>sb_buf = [7, 8], sb_wrap = 0, sb_start = 300, sb_generation = 2\<rparr>
     = sb_snapshot \<lparr>sb_buf = [7, 8], sb_wrap = 1, sb_start = 300, sb_generation = 2\<rparr>"
proof -
  let ?s = "\<lparr>sb_buf = [7, 8], sb_wrap = 1, sb_start = 300, sb_generation = 2\<rparr>"
  have ok: "length (sb_buf ?s) \<le> SCROLLBACK_CAP + TRIM_SLACK" "bytes_seen ?s < 2 ^ 64"
    by (simp_all add: bytes_seen_def sb_consts)
  note both = snapshot_load_inverse [OF ok, of 0]
  from both have one: "sb_load 0 (sb_snapshot ?s) = Inr (?s\<lparr>sb_wrap := 0\<rparr>)" by (rule conjunct1)
  with both have "sb_snapshot (?s\<lparr>sb_wrap := 0\<rparr>) = sb_snapshot ?s" by blast
  with one show ?thesis by (simp only: scrollback.simps simp_thms)
qed

section \<open>The last lines of a session\<close>

abbreviation newline_count :: "byte list \<Rightarrow> nat" where
  "newline_count bs \<equiv> length (filter (\<lambda>b. b = 10) bs)"

lemma newlines_rev_append:
  "newlines_rev offset (a @ b) = newlines_rev (offset + length a) b @ newlines_rev offset a"
proof -
  have upt: "[0..<length (a @ b)] = [0..<length a] @ map ((+) (length a)) [0..<length b]"
  proof -
    have "(\<lambda>i. i + length a) = (+) (length a)" by (simp add: fun_eq_iff)
    then show ?thesis
      using upt_add_eq_append [of 0 "length a" "length b"] map_add_upt [of "length a" "length b"]
      by (simp add: add.commute)
  qed
  have "filter (\<lambda>i. (a @ b) ! i = 10) [0..<length a] = filter (\<lambda>i. a ! i = 10) [0..<length a]"
    by (rule filter_cong) (simp_all add: nth_append)
  then show ?thesis
    unfolding newlines_rev_def upt
    by (simp add: filter_map comp_def add.assoc rev_map)
qed

lemma newlines_rev_take:
  "newlines_rev 0 (take e (a @ b)) =
     newlines_rev (length a) (take (e - length a) b) @ newlines_rev 0 (take (min e (length a)) a)"
proof (cases "length a \<le> e")
  case True
  then show ?thesis by (simp add: newlines_rev_append)
next
  case False
  then show ?thesis by (simp add: newlines_rev_def)
qed

lemma newlines_rev_snoc:
  "newlines_rev 0 (xs @ [x]) = (if x = 10 then [length xs] else []) @ newlines_rev 0 xs"
  by (simp add: newlines_rev_append) (simp add: newlines_rev_def)

lemma scan_newlines_spec:
  assumes "seen < lines"
  defines "start bs \<equiv> scan_newlines lines seen (newlines_rev 0 bs)"
  shows "start body \<le> length body \<and> newline_count (drop (start body) body) < lines - seen
    \<and> (start body = 0 \<or> body ! (start body - 1) = 10 \<and> newline_count (drop (start body) body) = lines - seen - 1)"
  using assms(1) unfolding start_def
proof (induction body arbitrary: seen rule: rev_induct)
  case Nil
  then show ?case by (simp add: newlines_rev_def)
next
  case (snoc x xs)
  show ?case
  proof (cases "x = 10")
    case False
    with snoc.IH [OF snoc.prems] show ?thesis
      by (auto simp: newlines_rev_snoc nth_append)
  next
    case True
    show ?thesis
    proof (cases "Suc seen = lines")
      case True
      then show ?thesis using \<open>x = 10\<close> by (auto simp: newlines_rev_snoc)
    next
      case False
      with snoc.prems have "Suc seen < lines" by simp
      from snoc.IH [OF this] show ?thesis using \<open>x = 10\<close> False
        by (auto simp: newlines_rev_snoc nth_append)
    qed
  qed
qed

lemma last_take_nth: "0 < n \<Longrightarrow> n \<le> length xs \<Longrightarrow> last (take n xs) = xs ! (n - 1)"
  by (subst last_conv_nth) (auto simp: min_def)

text \<open>The tail of \<open>lines\<close> lines is a suffix of the ring's bytes (less one final newline) with
  fewer newlines than \<open>lines\<close>; when it is not all of them, it starts right behind a newline and
  has exactly \<open>lines\<close> lines. The slice boundary plays no part.\<close>

theorem tail_bytes_is_the_last_lines:
  assumes "0 < lines"
  shows "\<exists>front. front @ tail_bytes lines s =
             (if sb_buf s \<noteq> [] \<and> last (sb_buf s) = 10 then butlast (sb_buf s) else sb_buf s)
           \<and> newline_count (tail_bytes lines s) < lines
           \<and> (front = [] \<or> last front = 10 \<and> newline_count (tail_bytes lines s) = lines - 1)"
proof -
  obtain a b where ab: "as_slices s = (a, b)" by (cases "as_slices s")
  then have buf: "sb_buf s = a @ b" using as_slices_append [of s] by simp
  let ?stop = "if sb_buf s \<noteq> [] \<and> last (sb_buf s) = 10 then length (sb_buf s) - 1 else length (sb_buf s)"
  let ?body = "take ?stop (sb_buf s)"
  have body: "?body = (if sb_buf s \<noteq> [] \<and> last (sb_buf s) = 10 then butlast (sb_buf s) else sb_buf s)"
    by (simp add: butlast_conv_take)
  have le: "?stop \<le> length (sb_buf s)" by simp
  obtain st where st: "st = scan_newlines lines 0 (newlines_rev 0 ?body)"
    and tail: "tail_bytes lines s = extend_range s [] st ?stop"
    using assms newlines_rev_take [of ?stop a b] unfolding buf [symmetric]
    by (simp only: tail_bytes_def ab Let_def prod.case if_True)
  have spec: "st \<le> length ?body \<and> newline_count (drop st ?body) < lines
      \<and> (st = 0 \<or> ?body ! (st - 1) = 10 \<and> newline_count (drop st ?body) = lines - 1)"
    using scan_newlines_spec [OF assms, of ?body] unfolding st by simp
  have "st \<le> ?stop" using spec by simp
  then have eq: "tail_bytes lines s = drop st ?body"
    unfolding tail by (simp only: extend_range_eq [OF _ le] append_Nil drop_take)
  have "last (take st ?body) = ?body ! (st - 1)" if "0 < st"
    using that spec by (intro last_take_nth) auto
  moreover have "take st ?body @ drop st ?body = ?body" by (rule append_take_drop_id)
  ultimately show ?thesis
    unfolding body [symmetric] eq using spec
    by (intro exI [of _ "take st ?body"]) (metis gr0I take0)
qed

lemma tail_bytes_is_the_last_lines_witness:
  "\<exists>front. front @ tail_bytes 1 \<lparr>sb_buf = [65, 10, 66, 10], sb_wrap = 3, sb_start = 0, sb_generation = 1\<rparr> = [65, 10, 66]"
  using tail_bytes_is_the_last_lines [of 1 "\<lparr>sb_buf = [65, 10, 66, 10], sb_wrap = 3, sb_start = 0, sb_generation = 1\<rparr>"]
  by auto

end
