(* ===== verification/Pull_Request.thy ===== *)
theory Pull_Request
  imports Prelude
begin

text \<open>
  Pull requests as Houston reads them (\<^verbatim>\<open>core/houston-protocol/src/lib.rs\<close>) and the one merge
  gate over such a read (\<^verbatim>\<open>core/houston-core/src/pull_requests/mod.rs\<close>): the reason that blocks
  a merge, the refusals a rebase answers, the ones GitHub settles on its own, and what a write
  needs from the account's permissions. Field names carry a prefix per structure because
  Isabelle's record selectors are global. Times and durations are only copied and compared.
\<close>

section \<open>The read\<close>

datatype pr_checks = PrChecks_None | PrChecks_Running | PrChecks_Passing | PrChecks_Failing

datatype pull_request_state = Pr_Open | Pr_Closed | Pr_Merged

datatype pull_request_link_source = Manual | Created | Agent | Detected

record pull_request_link =
  pl_host :: string
  pl_repository :: string
  pl_number :: u32
  pl_url :: string
  pl_state :: pull_request_state
  pl_source :: pull_request_link_source
  pl_title :: "string option"
  pl_is_draft :: bool
  pl_additions :: u32
  pl_deletions :: u32
  pl_changed_files :: u32
  pl_checks :: "pr_checks option"
  pl_review_decision :: "string option"
  pl_linked_at :: u64
  pl_merged_at :: "u64 option"
  pl_closed_at :: "u64 option"
  pl_synced_at :: "u64 option"

datatype pr_merge_method = Merge_Commit | Squash | Rebase

datatype pr_mergeable = Mergeable | Conflicting | Mergeable_Unknown

datatype pr_merge_state =
  Clean | Behind | Blocked_By_Protection | Dirty | Draft | HasHooks | Unstable | State_Unknown

datatype pr_check_state =
  Check_Queued | Check_Running | Check_Passing | Check_Failing | Check_Skipped | Check_Unknown

record pr_check =
  ck_name :: string
  ck_state :: pr_check_state
  ck_url :: "string option"
  ck_duration_ms :: "u64 option"
  ck_run_id :: "u64 option"

datatype pr_reaction = ThumbsUp | ThumbsDown | Laugh | Hooray | Confused | Heart | Rocket | Eyes

record pr_reaction_count =
  rc_content :: pr_reaction
  rc_count :: u32
  rc_reacted :: bool

record pr_comment =
  pc_id :: "string option"
  pc_author :: string
  pc_body :: string
  pc_created_at :: u64
  pc_url :: "string option"
  pc_reactions :: "pr_reaction_count list"
  pc_bot :: bool

record pr_review =
  pv_id :: "string option"
  pv_author :: string
  pv_state :: string
  pv_body :: string
  pv_submitted_at :: u64
  pv_reactions :: "pr_reaction_count list"

datatype pr_reviewer_kind = Reviewer_User | Reviewer_Team

record pr_reviewer =
  rv_id :: string
  rv_kind :: pr_reviewer_kind

record pr_label =
  lb_name :: string
  lb_color :: "string option"

record pr_permissions =
  can_write :: bool
  can_triage :: bool
  can_update :: bool
  did_author :: bool
  can_update_branch :: bool

record pr_thread_comment =
  tc_id :: string
  tc_author :: string
  tc_body :: string
  tc_created_at :: u64
  tc_url :: "string option"
  tc_reactions :: "pr_reaction_count list"
  tc_bot :: bool

record pr_thread =
  th_id :: string
  th_path :: "string option"
  th_line :: "u32 option"
  th_resolved :: bool
  th_outdated :: bool
  th_comments :: "pr_thread_comment list"

record pr_merge_queue_entry =
  qe_state :: string
  qe_position :: "u32 option"
  qe_head_sha :: "string option"

record pr_merge_removal =
  rm_reason :: string
  rm_at_ms :: int

record pr_github_merge =
  gm_merge_queue_required :: "bool option"
  gm_auto_merge_allowed :: "bool option"
  gm_required_checks :: "string list option"
  gm_queue_entry :: "pr_merge_queue_entry option"
  gm_removal :: "pr_merge_removal option"

record pr_detail =
  pd_body :: "string option"
  pd_author :: "string option"
  pd_base_ref :: "string option"
  pd_head_ref :: "string option"
  pd_head_sha :: string
  pd_commit_count :: u32
  pd_created_at :: u64
  pd_updated_at :: u64
  pd_mergeable :: pr_mergeable
  pd_merge_state :: pr_merge_state
  pd_checks :: "pr_check list"
  pd_comments :: "pr_comment list"
  pd_reviews :: "pr_review list"
  pd_comments_total :: u32
  pd_reviews_total :: u32
  pd_merge_disabled_reason :: "string option"
  pd_viewer :: "pr_permissions option"
  pd_viewer_message :: "string option"
  pd_behind_by :: "u32 option"
  pd_labels :: "pr_label list"
  pd_reviewers :: "pr_reviewer list"
  pd_reactions :: "pr_reaction_count list"
  pd_threads :: "pr_thread list"
  pd_threads_truncated :: bool
  pd_threads_message :: "string option"
  pd_auto_merge_enabled :: "bool option"
  pd_auto_merge_method :: "pr_merge_method option"
  pd_merge_methods :: "pr_merge_method list"
  pd_cross_repository :: bool
  pd_github_merge :: "pr_github_merge option"
  pd_read_only :: "string option"

section \<open>The merge gate\<close>

text \<open>The messages hold two characters outside ASCII, written as their UTF-8 bytes.\<close>

definition em_dash :: string where
  "em_dash = [CHR 0xE2, CHR 0x80, CHR 0x94]"

definition pr_tag :: "u32 \<Rightarrow> string" where
  "pr_tag n = ''PR #'' @ dec (unat n)"

definition base_refusal :: "u32 \<Rightarrow> pr_detail \<Rightarrow> string option" where
  "base_refusal number detail =
     (let base = (case pd_base_ref detail of Some b \<Rightarrow> b | None \<Rightarrow> ''its base branch'')
      in if pd_mergeable detail = Mergeable \<and> pd_merge_state detail = Clean then None
         else if pd_mergeable detail = Conflicting \<or> pd_merge_state detail = Dirty
           then Some (pr_tag number @ '' conflicts with '' @ base)
         else if pd_merge_state detail = Behind
           then Some (pr_tag number @ '' is behind '' @ base @ '' '' @ em_dash
                      @ '' update the branch first'')
         else None)"

definition computing_refusal :: "u32 \<Rightarrow> string" where
  "computing_refusal number =
     ''GitHub is still computing whether '' @ pr_tag number @ '' can merge '' @ em_dash @ '' refresh''"

definition plural :: "nat \<Rightarrow> string \<Rightarrow> string \<Rightarrow> string" where
  "plural n one many = dec n @ '' '' @ (if n = 1 then one else many)"

definition name_list :: "string list \<Rightarrow> string" where
  "name_list names =
     (if length names \<le> 3 then join_with '', '' names
      else join_with '', '' (take 3 names) @ '', and '' @ dec (length names - 3) @ '' more'')"

definition pending_refusal :: "u32 \<Rightarrow> pr_check list \<Rightarrow> string option" where
  "pending_refusal number checks =
     (let pending = map ck_name (filter (\<lambda>c. ck_state c \<in> {Check_Running, Check_Queued, Check_Unknown}) checks)
      in if pending \<noteq> [] then
           Some (pr_tag number @ '' is waiting on '' @ plural (length pending) ''check'' ''checks''
                 @ '': '' @ name_list pending)
         else None)"

definition checks_refusal :: "u32 \<Rightarrow> pr_check list \<Rightarrow> string option" where
  "checks_refusal number checks =
     (let failing = map ck_name (filter (\<lambda>c. ck_state c = Check_Failing) checks)
      in if failing \<noteq> [] then
           Some (pr_tag number @ '' has '' @ plural (length failing) ''failing check'' ''failing checks''
                 @ '': '' @ name_list failing)
         else pending_refusal number checks)"

definition draft_refusal :: "u32 \<Rightarrow> string" where
  "draft_refusal number = pr_tag number @ '' is a draft '' @ em_dash @ '' mark it ready for review first''"

definition review_refusal :: "u32 \<Rightarrow> string option \<Rightarrow> string option" where
  "review_refusal number decision =
     (if decision = Some ''CHANGES_REQUESTED'' then Some (''changes were requested on '' @ pr_tag number)
      else if decision = Some ''REVIEW_REQUIRED'' then Some (pr_tag number @ '' needs an approving review'')
      else None)"

definition state_refusal :: "u32 \<Rightarrow> pr_mergeable \<Rightarrow> pr_merge_state \<Rightarrow> string option" where
  "state_refusal number mergeable merge_state =
     (if mergeable = Mergeable \<and> merge_state = Clean then None
      else case merge_state of
        Draft \<Rightarrow> Some (draft_refusal number)
      | Blocked_By_Protection \<Rightarrow>
          Some (''GitHub reports '' @ pr_tag number @ '' blocked by branch protection'')
      | HasHooks \<Rightarrow> Some (pr_tag number @ '' is waiting on repository hooks'')
      | Unstable \<Rightarrow>
          Some (''GitHub reports '' @ pr_tag number @ '' unstable '' @ em_dash @ '' a check may have failed'')
      | _ \<Rightarrow> Some (computing_refusal number))"

definition merge_disabled_reason :: "u32 \<Rightarrow> pull_request_link \<Rightarrow> pr_detail \<Rightarrow> string option" where
  "merge_disabled_reason number link detail =
     (case pl_state link of
        Pr_Merged \<Rightarrow> Some (pr_tag number @ '' is already merged'')
      | Pr_Closed \<Rightarrow> Some (pr_tag number @ '' is closed'')
      | Pr_Open \<Rightarrow>
          if pl_is_draft link then Some (draft_refusal number)
          else case checks_refusal number (pd_checks detail) of
            Some reason \<Rightarrow> Some reason
          | None \<Rightarrow>
              (case review_refusal number (pl_review_decision link) of
                 Some reason \<Rightarrow> Some reason
               | None \<Rightarrow>
                   (case base_refusal number detail of
                      Some reason \<Rightarrow> Some reason
                    | None \<Rightarrow> state_refusal number (pd_mergeable detail) (pd_merge_state detail))))"

definition settling :: "u32 \<Rightarrow> pr_detail \<Rightarrow> bool" where
  "settling number detail =
     (let reason = pd_merge_disabled_reason detail
      in reason \<noteq> None \<and>
         (reason = pending_refusal number (pd_checks detail) \<or> reason = Some (computing_refusal number)))"

section \<open>What a write needs\<close>

datatype pr_need = Need_Write | Need_Update | Need_UpdateBranch | Need_Triage | Need_Resolve

fun pr_need_allowed :: "pr_need \<Rightarrow> pr_permissions \<Rightarrow> bool" where
  "pr_need_allowed Need_Write p = can_write p"
| "pr_need_allowed Need_Update p = can_update p"
| "pr_need_allowed Need_UpdateBranch p = (can_write p \<and> can_update_branch p)"
| "pr_need_allowed Need_Triage p = can_triage p"
| "pr_need_allowed Need_Resolve p = (can_write p \<or> did_author p)"

fun pr_need_missing :: "pr_need \<Rightarrow> string" where
  "pr_need_missing Need_Write = ''you do not have write access to this repository''"
| "pr_need_missing Need_Update = ''GitHub says you may not update this pull request''"
| "pr_need_missing Need_UpdateBranch =
     ''GitHub says either you may not write to this repository or the branch has nothing to update''"
| "pr_need_missing Need_Triage = ''labelling needs triage access, which this account does not have''"
| "pr_need_missing Need_Resolve =
     ''resolving a discussion needs write access or authorship of the pull request''"

text \<open>\<open>github::access\<close> is a call of the \<open>gh\<close> program; its answer (an error or the permissions it
  reports) is an argument.\<close>

definition require_access ::
  "string + pr_permissions \<Rightarrow> u32 \<Rightarrow> pr_need \<Rightarrow> string + pr_permissions" where
  "require_access access number need =
     (case access of
        Inl e \<Rightarrow> Inl (''could not read what you may do with '' @ pr_tag number @ '': '' @ e)
      | Inr p \<Rightarrow>
          if \<not> pr_need_allowed need p
          then Inl (pr_need_missing need @ ''; refusing the write to '' @ pr_tag number)
          else Inr p)"

section \<open>The gate allows exactly the clean, reviewed, green pull requests\<close>

lemmas refusal_defs = base_refusal_def computing_refusal_def pending_refusal_def checks_refusal_def
  draft_refusal_def review_refusal_def state_refusal_def

definition check_done :: "pr_check \<Rightarrow> bool" where
  "check_done c \<longleftrightarrow> ck_state c = Check_Passing \<or> ck_state c = Check_Skipped"

lemma pending_refusal_None:
  "pending_refusal n cs = None \<longleftrightarrow> list_all (\<lambda>c. ck_state c \<notin> {Check_Running, Check_Queued, Check_Unknown}) cs"
  unfolding pending_refusal_def Let_def by (simp add: filter_empty_conv list_all_iff)

lemma checks_refusal_None: "checks_refusal n cs = None \<longleftrightarrow> list_all check_done cs"
proof -
  have "check_done c \<longleftrightarrow> ck_state c \<noteq> Check_Failing \<and> ck_state c \<notin> {Check_Running, Check_Queued, Check_Unknown}" for c
    by (cases "ck_state c") (simp_all add: check_done_def)
  then show ?thesis
    unfolding checks_refusal_def Let_def
    by (simp add: pending_refusal_None filter_empty_conv list_all_iff ball_conj_distrib)
qed

text \<open>C7: The merge gate opens exactly for an open, non-draft pull request whose checks all passed
  or were skipped (an unknown or still running check blocks), whose review decision asks for
  nothing, and which GitHub reports mergeable and clean; every other combination is refused.\<close>

theorem merge_gate_opens_exactly_when_clean:
  "merge_disabled_reason number link detail = None \<longleftrightarrow>
     pl_state link = Pr_Open \<and> \<not> pl_is_draft link
     \<and> list_all (\<lambda>c. ck_state c = Check_Passing \<or> ck_state c = Check_Skipped) (pd_checks detail)
     \<and> pl_review_decision link \<noteq> Some ''CHANGES_REQUESTED''
     \<and> pl_review_decision link \<noteq> Some ''REVIEW_REQUIRED''
     \<and> pd_mergeable detail = Mergeable \<and> pd_merge_state detail = Clean"
proof -
  have all_done: "(\<lambda>c. ck_state c = Check_Passing \<or> ck_state c = Check_Skipped) = check_done"
    by (auto simp: check_done_def)
  have rev: "review_refusal number d = None \<longleftrightarrow> d \<noteq> Some ''CHANGES_REQUESTED'' \<and> d \<noteq> Some ''REVIEW_REQUIRED''" for d
    by (simp add: review_refusal_def)
  have st: "state_refusal number m s = None \<longleftrightarrow> m = Mergeable \<and> s = Clean" for m s
    by (cases s) (simp_all add: state_refusal_def)
  have base: "base_refusal number detail = None" if "pd_mergeable detail = Mergeable" "pd_merge_state detail = Clean"
    using that by (simp add: base_refusal_def Let_def)
  show ?thesis
    unfolding all_done checks_refusal_None [where n = number, symmetric] merge_disabled_reason_def
    using rev [of "pl_review_decision link"] base
    by (auto simp: st split: pull_request_state.split option.split)
qed

text \<open>How each refusal's message starts: enough to tell them apart, whatever the check names and
  branch names are.\<close>

lemma pending_refusal_text: "pending_refusal n cs = Some r \<Longrightarrow> \<exists>t. r = pr_tag n @ '' is waiting on '' @ t"
  unfolding pending_refusal_def Let_def by (simp split: if_splits) blast

lemma review_refusal_text:
  "review_refusal n d = Some r \<Longrightarrow> (\<exists>t. r = ''changes'' @ t) \<or> (\<exists>t. r = pr_tag n @ '' needs '' @ t)"
  by (auto simp: review_refusal_def split: if_splits)

lemma base_refusal_text:
  "base_refusal n d = Some r \<Longrightarrow> (\<exists>t. r = pr_tag n @ '' conflicts '' @ t) \<or> (\<exists>t. r = pr_tag n @ '' is behind '' @ t)"
  unfolding base_refusal_def Let_def by (auto split: if_splits)

lemma computing_refusal_text: "\<exists>t. computing_refusal n = ''GitHub is '' @ t"
  by (simp add: computing_refusal_def)

lemma refusals_distinct:
  "pending_refusal n cs \<noteq> Some (draft_refusal n)" "pending_refusal n cs \<noteq> Some (pr_tag n @ '' is already merged'')"
  "pending_refusal n cs \<noteq> Some (pr_tag n @ '' is closed'')"
  "review_refusal n d \<noteq> Some (computing_refusal n)"
  "base_refusal n detail \<noteq> Some (computing_refusal n)"
  "draft_refusal n \<noteq> computing_refusal n" "pr_tag n @ x \<noteq> computing_refusal n"
  using computing_refusal_text [of n]
  by (auto simp: draft_refusal_def pr_tag_def
      dest!: pending_refusal_text review_refusal_text base_refusal_text)

lemma failing_refusal:
  assumes "\<not> list_all (\<lambda>c. ck_state c \<noteq> Check_Failing) cs"
  shows "\<exists>r. checks_refusal n cs = Some r \<and> pending_refusal n cs \<noteq> Some r \<and> r \<noteq> computing_refusal n"
proof -
  have "filter (\<lambda>c. ck_state c = Check_Failing) cs \<noteq> []"
    using assms by (simp add: filter_empty_conv list_all_iff)
  then obtain t where "checks_refusal n cs = Some (pr_tag n @ '' has '' @ t)"
    by (simp add: checks_refusal_def Let_def)
  then show ?thesis
    using refusals_distinct(7) by (auto dest!: pending_refusal_text)
qed

lemma state_refusal_computing:
  "state_refusal n m s = Some (computing_refusal n) \<longleftrightarrow>
     (s = State_Unknown \<or> s = Clean \<and> m \<noteq> Mergeable \<or> s = Behind \<or> s = Dirty)"
  by (cases s) (simp_all add: state_refusal_def computing_refusal_def draft_refusal_def pr_tag_def)

text \<open>Once no check fails or runs, only the review, the base and GitHub's own state are left.\<close>

lemma settling_when_checks_done:
  assumes answer: "pd_merge_disabled_reason d = merge_disabled_reason n link d"
    and opened: "pl_state link = Pr_Open" "\<not> pl_is_draft link"
    and passing: "list_all (\<lambda>c. ck_state c \<noteq> Check_Failing) (pd_checks d)"
    and idle: "pending_refusal n (pd_checks d) = None"
  shows "settling n d \<longleftrightarrow>
     pl_review_decision link \<noteq> Some ''CHANGES_REQUESTED''
     \<and> pl_review_decision link \<noteq> Some ''REVIEW_REQUIRED''
     \<and> pd_mergeable d \<noteq> Conflicting
     \<and> (pd_merge_state d = State_Unknown
         \<or> pd_merge_state d = Clean \<and> pd_mergeable d = Mergeable_Unknown)"
proof -
  have same: "checks_refusal n (pd_checks d) = None"
    using passing idle by (simp add: checks_refusal_def filter_empty_conv list_all_iff)
  have reason: "pd_merge_disabled_reason d =
      (case review_refusal n (pl_review_decision link) of Some r \<Rightarrow> Some r
       | None \<Rightarrow> (case base_refusal n d of Some r \<Rightarrow> Some r
                 | None \<Rightarrow> state_refusal n (pd_mergeable d) (pd_merge_state d)))"
    using opened answer same by (simp add: merge_disabled_reason_def)
  have settle: "settling n d \<longleftrightarrow> pd_merge_disabled_reason d = Some (computing_refusal n)"
    using idle by (auto simp: settling_def Let_def)
  have review: "review_refusal n (pl_review_decision link) = None \<longleftrightarrow>
      pl_review_decision link \<noteq> Some ''CHANGES_REQUESTED'' \<and> pl_review_decision link \<noteq> Some ''REVIEW_REQUIRED''"
    by (simp add: review_refusal_def)
  have base: "base_refusal n d = None \<longleftrightarrow> pd_mergeable d = Mergeable \<and> pd_merge_state d = Clean
      \<or> pd_mergeable d \<noteq> Conflicting \<and> pd_merge_state d \<noteq> Dirty \<and> pd_merge_state d \<noteq> Behind"
    by (auto simp: base_refusal_def Let_def)
  show ?thesis
  proof (cases "review_refusal n (pl_review_decision link) = None \<and> base_refusal n d = None")
    case False
    then have "\<not> settling n d"
      unfolding settle reason using refusals_distinct(4,5) by (auto split: option.splits)
    with False show ?thesis unfolding review base by auto
  next
    case clean: True
    then have "settling n d \<longleftrightarrow> state_refusal n (pd_mergeable d) (pd_merge_state d) = Some (computing_refusal n)"
      unfolding settle reason by simp
    with clean show ?thesis
      unfolding review base state_refusal_computing by (cases "pd_mergeable d") auto
  qed
qed

text \<open>On a detail that carries the gate's own answer, \<open>settling\<close> recognises exactly the two
  refusals GitHub resolves without anyone acting: checks that are still running when none has
  failed, and a merge state it has not computed; never a draft, a failed check, a missing review,
  a conflict, a branch behind its base or a blocked one.\<close>

theorem settling_is_exact:
  assumes "pd_merge_disabled_reason d = merge_disabled_reason n link d"
  shows "settling n d \<longleftrightarrow>
     pl_state link = Pr_Open \<and> \<not> pl_is_draft link
     \<and> list_all (\<lambda>c. ck_state c \<noteq> Check_Failing) (pd_checks d)
     \<and> (pending_refusal n (pd_checks d) \<noteq> None
         \<or> pl_review_decision link \<noteq> Some ''CHANGES_REQUESTED''
           \<and> pl_review_decision link \<noteq> Some ''REVIEW_REQUIRED''
           \<and> pd_mergeable d \<noteq> Conflicting
           \<and> (pd_merge_state d = State_Unknown
               \<or> pd_merge_state d = Clean \<and> pd_mergeable d = Mergeable_Unknown))"
proof (cases "pl_state link = Pr_Open \<and> \<not> pl_is_draft link")
  case False
  then have "merge_disabled_reason n link d \<in> {Some (draft_refusal n), Some (pr_tag n @ '' is already merged''),
      Some (pr_tag n @ '' is closed'')}"
    by (auto simp: merge_disabled_reason_def split: pull_request_state.splits)
  then have "\<not> settling n d"
    unfolding settling_def Let_def assms
    by (elim insertE) (simp_all only: option.inject refusals_distinct refusals_distinct [symmetric] simp_thms empty_iff)
  with False show ?thesis by blast
next
  case opened: True
  show ?thesis
  proof (cases "list_all (\<lambda>c. ck_state c \<noteq> Check_Failing) (pd_checks d)")
    case False
    from failing_refusal [OF False, of n] show ?thesis
      using opened False assms by (auto simp: settling_def merge_disabled_reason_def)
  next
    case True
    then have same: "checks_refusal n (pd_checks d) = pending_refusal n (pd_checks d)"
      by (simp add: checks_refusal_def filter_empty_conv list_all_iff)
    show ?thesis
    proof (cases "pending_refusal n (pd_checks d)")
      case (Some r)
      then show ?thesis using opened True assms same
        by (simp add: settling_def merge_disabled_reason_def)
    next
      case None
      then show ?thesis using settling_when_checks_done [OF assms _ _ True None] opened True by simp
    qed
  qed
qed

definition sample_detail :: pr_detail where
  "sample_detail = \<lparr>pd_body = None, pd_author = None, pd_base_ref = Some ''main'', pd_head_ref = Some ''fix'',
     pd_head_sha = ''abc'', pd_commit_count = 1, pd_created_at = 0, pd_updated_at = 0,
     pd_mergeable = Mergeable_Unknown, pd_merge_state = State_Unknown, pd_checks = [], pd_comments = [],
     pd_reviews = [], pd_comments_total = 0, pd_reviews_total = 0,
     pd_merge_disabled_reason = Some (computing_refusal 7), pd_viewer = None, pd_viewer_message = None,
     pd_behind_by = None, pd_labels = [], pd_reviewers = [], pd_reactions = [], pd_threads = [],
     pd_threads_truncated = False, pd_threads_message = None, pd_auto_merge_enabled = None,
     pd_auto_merge_method = None, pd_merge_methods = [], pd_cross_repository = False,
     pd_github_merge = None, pd_read_only = None\<rparr>"

definition sample_link :: pull_request_link where
  "sample_link = \<lparr>pl_host = ''github.com'', pl_repository = ''o/r'', pl_number = 7, pl_url = [],
     pl_state = Pr_Open, pl_source = Created, pl_title = None, pl_is_draft = False, pl_additions = 0,
     pl_deletions = 0, pl_changed_files = 0, pl_checks = None, pl_review_decision = None,
     pl_linked_at = 0, pl_merged_at = None, pl_closed_at = None, pl_synced_at = None\<rparr>"

lemma settling_is_exact_witness: "settling 7 sample_detail"
proof -
  have "pd_merge_disabled_reason sample_detail = merge_disabled_reason 7 sample_link sample_detail"
    by (simp add: merge_disabled_reason_def sample_link_def sample_detail_def refusal_defs)
  from settling_is_exact [OF this] show ?thesis
    by (simp add: sample_link_def sample_detail_def)
qed

end
