(* ===== verification/Merge_Queue.thy ===== *)
theory Merge_Queue
  imports Pull_Request "HOL-Library.Multiset"
begin

text \<open>
  The merge queue's model, first half (\<^verbatim>\<open>core/houston-core/src/merge_queue.rs\<close> with the wire
  types of \<^verbatim>\<open>core/houston-protocol/src/lib.rs\<close>): queue rows, what a GitHub read says about
  one, who merges it, the enqueue check and the queue order. \<open>Merge_Line\<close> has the gates and the
  line. Positions and times are only copied and compared, so \<open>i64\<close> is \<open>int\<close> here.
\<close>

section \<open>Wire types\<close>

datatype merge_queue_hand_off = Houston | GitHub_Merge_Queue | AutoMerge

record merge_queue_hand_off_info =
  hi_mode :: merge_queue_hand_off
  hi_base_ref :: "string option"
  hi_read_at_ms :: int
  hi_from_refusal :: bool

record merge_queue_github_hold =
  gh_mode :: merge_queue_hand_off
  gh_head_sha :: string
  gh_base_ref :: string
  gh_base_sha :: string
  gh_method :: "pr_merge_method option"
  gh_unattended :: bool
  gh_at_ms :: int

record merge_queue_verification =
  vf_base_ref :: string
  vf_base_sha :: string
  vf_head_sha :: string
  vf_verified_sha :: string
  vf_at_ms :: int
  vf_fork_sha :: "string option"
  vf_stacked_on :: "u32 option"

datatype merge_queue_failure_kind =
  Failure_Conflict | Failure_Failed | Failure_TimedOut | Failure_ChecksFailed | Failure_Refused | Failure_Ejected

record merge_queue_failure =
  fl_kind :: merge_queue_failure_kind
  fl_message :: string
  fl_files :: "string list"
  fl_output_tail :: "string option"
  fl_head_sha :: string
  fl_base_sha :: "string option"
  fl_handed_to :: "u32 option"
  fl_at_ms :: int

section \<open>Rows and facts\<close>

record facts =
  fx_read_at_ms :: int
  fx_error :: "string option"
  fx_merge_disabled_reason :: "string option"
  fx_base_only :: bool
  fx_settling :: bool
  fx_unresolved_threads :: "u32 option"
  fx_threads_message :: "string option"
  fx_threads_truncated :: bool
  fx_failing_checks :: "string list"
  fx_merge_method :: "pr_merge_method option"
  fx_github_merge :: "pr_github_merge option"
  fx_auto_merge_on :: "bool option"
  fx_merged :: bool

record stacked =
  sk_number :: u32
  sk_head_sha :: string
  sk_head_ref :: string
  sk_base_ref :: "string option"

record queue_row =
  qr_workspace :: string
  qr_number :: u32
  qr_repository :: string
  qr_url :: string
  qr_title :: "string option"
  qr_head_ref :: string
  qr_head_sha :: string
  qr_base_ref :: "string option"
  qr_depends_on :: "u32 option"
  qr_session_id :: "u32 option"
  qr_position :: int
  qr_enqueued_at_ms :: int
  qr_facts :: "facts option"
  qr_verification :: "merge_queue_verification option"
  qr_failure :: "merge_queue_failure option"
  qr_stacked :: "stacked option"
  qr_github :: "merge_queue_github_hold option"

definition base_of :: "queue_row \<Rightarrow> string option" where
  "base_of row =
     (case qr_stacked row of
        Some s \<Rightarrow>
          if qr_base_ref row = Some (sk_head_ref s) then or_else (sk_base_ref s) (qr_base_ref row)
          else qr_base_ref row
      | None \<Rightarrow> qr_base_ref row)"

definition stacked_of :: "queue_row \<Rightarrow> stacked" where
  "stacked_of row = \<lparr>sk_number = qr_number row, sk_head_sha = qr_head_sha row,
     sk_head_ref = qr_head_ref row, sk_base_ref = base_of row\<rparr>"

definition needs_retarget :: "queue_row \<Rightarrow> string option" where
  "needs_retarget row =
     (case qr_stacked row of
        None \<Rightarrow> None
      | Some s \<Rightarrow> if qr_base_ref row = Some (sk_head_ref s) then sk_base_ref s else None)"

definition preferred_method :: "pr_merge_method list \<Rightarrow> pr_merge_method option" where
  "preferred_method allowed = List.find (\<lambda>m. m \<in> set allowed) [Squash, Merge_Commit, Rebase]"

definition facts_from_read :: "u32 \<Rightarrow> pr_detail \<Rightarrow> int \<Rightarrow> facts" where
  "facts_from_read number detail now_ms =
     (let unresolved = length (filter (\<lambda>t. \<not> th_resolved t) (pd_threads detail))
      in \<lparr>fx_read_at_ms = now_ms,
          fx_error = None,
          fx_merge_disabled_reason = pd_merge_disabled_reason detail,
          fx_base_only = (pd_merge_disabled_reason detail \<noteq> None
                          \<and> pd_merge_disabled_reason detail = base_refusal number detail),
          fx_settling = settling number detail,
          fx_unresolved_threads =
            (if pd_threads_message detail = None
             then Some (if unresolved < 2 ^ 32 then word_of_nat unresolved else - 1) else None),
          fx_threads_message = pd_threads_message detail,
          fx_threads_truncated = pd_threads_truncated detail,
          fx_failing_checks = map ck_name (filter (\<lambda>c. ck_state c = Check_Failing) (pd_checks detail)),
          fx_merge_method = preferred_method (pd_merge_methods detail),
          fx_github_merge = pd_github_merge detail,
          fx_auto_merge_on = (if pd_github_merge detail = None then None else pd_auto_merge_enabled detail),
          fx_merged = False\<rparr>)"

definition facts_from_error :: "string \<Rightarrow> int \<Rightarrow> facts" where
  "facts_from_error error now_ms =
     \<lparr>fx_read_at_ms = now_ms, fx_error = Some error, fx_merge_disabled_reason = None,
      fx_base_only = False, fx_settling = False, fx_unresolved_threads = None,
      fx_threads_message = None, fx_threads_truncated = False, fx_failing_checks = [],
      fx_merge_method = None, fx_github_merge = None, fx_auto_merge_on = None, fx_merged = False\<rparr>"

definition same_answer :: "facts \<Rightarrow> facts \<Rightarrow> bool" where
  "same_answer f g \<longleftrightarrow> f\<lparr>fx_read_at_ms := 0\<rparr> = g\<lparr>fx_read_at_ms := 0\<rparr>"

definition hand_off_from :: "facts \<Rightarrow> merge_queue_hand_off option" where
  "hand_off_from f =
     (case fx_github_merge f of
        None \<Rightarrow> None
      | Some gm \<Rightarrow>
          (case gm_merge_queue_required gm of
             None \<Rightarrow> None
           | Some True \<Rightarrow> Some GitHub_Merge_Queue
           | Some False \<Rightarrow>
               if gm_auto_merge_allowed gm = Some True
                  \<and> (case gm_required_checks gm of Some c \<Rightarrow> c \<noteq> [] | None \<Rightarrow> False)
               then Some AutoMerge else Some Houston))"

definition hand_off_mode :: "queue_row \<Rightarrow> merge_queue_hand_off_info option \<Rightarrow> merge_queue_hand_off" where
  "hand_off_mode row cached =
     (let from_read = Option.bind (qr_facts row) hand_off_from;
          cached_mode = map_option hi_mode (filter_option (\<lambda>c. hi_base_ref c = base_of row) cached)
      in case or_else from_read cached_mode of Some m \<Rightarrow> m | None \<Rightarrow> Houston)"

definition github_holds :: "queue_row \<Rightarrow> merge_queue_github_hold option" where
  "github_holds row = filter_option (\<lambda>g. gh_head_sha g = qr_head_sha row) (qr_github row)"

definition is_hex_digit :: "char \<Rightarrow> bool" where
  "is_hex_digit c \<longleftrightarrow> (of_char c :: nat) \<in> {48..57} \<union> {65..70} \<union> {97..102}"

definition valid_head_sha :: "string \<Rightarrow> bool" where
  "valid_head_sha sha \<longleftrightarrow> length sha = 40 \<and> list_all is_hex_digit sha"

section \<open>Order\<close>

definition remove_at :: "nat \<Rightarrow> 'a list \<Rightarrow> 'a list" where
  "remove_at i xs = take i xs @ drop (Suc i) xs"

definition next_in_order :: "queue_row list \<Rightarrow> nat" where
  "next_in_order rows =
     (let waiting = qr_number ` set rows
      in case find_index (\<lambda>r. case qr_depends_on r of None \<Rightarrow> True | Some d \<Rightarrow> d \<notin> waiting) rows of
           Some i \<Rightarrow> i | None \<Rightarrow> 0)"

lemma next_in_order_less: "rows \<noteq> [] \<Longrightarrow> next_in_order rows < length rows"
  by (auto simp: next_in_order_def Let_def dest: find_index_less split: option.splits)

function order_loop :: "queue_row list \<Rightarrow> queue_row list" where
  "order_loop rows =
     (if rows = [] then []
      else rows ! next_in_order rows # order_loop (remove_at (next_in_order rows) rows))"
  by pat_completeness auto
termination
  by (relation "measure length") (auto simp: remove_at_def dest: next_in_order_less)

declare order_loop.simps [simp del]

definition order :: "queue_row list \<Rightarrow> queue_row list" where
  "order rows = order_loop (sort_key qr_position rows)"

section \<open>Enqueue\<close>

datatype enqueue_error =
    Queue_Full string nat u32 u32
  | Depends_On_Itself u32
  | Dependency_Not_Queued u32 string
  | Dependency_Cycle u32 u32 "u32 list"

definition dep_of :: "queue_row list \<Rightarrow> u32 \<Rightarrow> u32 option" where
  "dep_of entries cursor =
     Option.bind (List.find (\<lambda>e. qr_number e = cursor) entries) qr_depends_on"

function follow_chain ::
  "queue_row list \<Rightarrow> u32 \<Rightarrow> u32 \<Rightarrow> u32 list \<Rightarrow> u32 \<Rightarrow> enqueue_error option" where
  "follow_chain entries number dependency chain cursor =
     (case dep_of entries cursor of
        None \<Rightarrow> None
      | Some n \<Rightarrow>
          (let chain' = chain @ [n]
           in if n = number then Some (Dependency_Cycle number dependency chain')
              else if length entries + 1 < length chain' then None
              else follow_chain entries number dependency chain' n))"
  by pat_completeness auto
termination
  by (relation "measure (\<lambda>(entries, _, _, chain, _). length entries + 1 - length chain)") auto

declare follow_chain.simps [simp del]

definition check_enqueue ::
  "queue_row list \<Rightarrow> string \<Rightarrow> u32 \<Rightarrow> u32 option \<Rightarrow> u32 \<Rightarrow> enqueue_error option" where
  "check_enqueue entries workspace number depends_on limit =
     (let queued = list_ex (\<lambda>e. qr_number e = number) entries;
          count = length entries
      in if \<not> queued \<and> unat limit \<le> count then Some (Queue_Full workspace count limit number)
         else case depends_on of
           None \<Rightarrow> None
         | Some dependency \<Rightarrow>
             if dependency = number then Some (Depends_On_Itself number)
             else if \<not> list_ex (\<lambda>e. qr_number e = dependency) entries
               then Some (Dependency_Not_Queued dependency workspace)
             else follow_chain entries number dependency [number, dependency] dependency)"

text \<open>The message of each refusal.\<close>

definition arrow :: string where
  "arrow = '' '' @ [CHR 0xE2, CHR 0x86, CHR 0x92] @ '' ''"

definition hash :: "u32 \<Rightarrow> string" where
  "hash n = ''#'' @ dec (unat n)"

fun enqueue_message :: "enqueue_error \<Rightarrow> string" where
  "enqueue_message (Queue_Full workspace held limit number) =
     ''the merge queue of '' @ workspace @ '' is full: it holds '' @ dec held
     @ '' entries and its limit is '' @ dec (unat limit) @ ''; refusing to enqueue PR '' @ hash number"
| "enqueue_message (Depends_On_Itself number) =
     ''PR '' @ hash number @ '' cannot depend on itself: depends_on forms the cycle ''
     @ hash number @ arrow @ hash number"
| "enqueue_message (Dependency_Not_Queued dependency workspace) =
     ''depends_on names PR '' @ hash dependency @ '', which is not in the merge queue of ''
     @ workspace @ ''; enqueue '' @ hash dependency @ '' first''"
| "enqueue_message (Dependency_Cycle number dependency chain) =
     ''PR '' @ hash number @ '' cannot depend on '' @ hash dependency
     @ '': that forms the cycle '' @ join_with arrow (map hash chain)"

section \<open>The dependency graph\<close>

definition dep_rel :: "queue_row list \<Rightarrow> (u32 \<times> u32) set" where
  "dep_rel rows = {(qr_number r, d) | r d. r \<in> set rows \<and> qr_depends_on r = Some d}"

lemma dep_rel_Cons:
  "dep_rel [] = {}"
  "dep_rel (r # rows) =
     (case qr_depends_on r of None \<Rightarrow> dep_rel rows | Some d \<Rightarrow> insert (qr_number r, d) (dep_rel rows))"
  by (auto simp: dep_rel_def split: option.splits)

lemma finite_dep_rel [simp]: "finite (dep_rel rows)"
proof (rule finite_subset)
  show "dep_rel rows \<subseteq> (\<lambda>r. (qr_number r, the (qr_depends_on r))) ` set rows"
    by (force simp: dep_rel_def)
qed simp

lemma dep_of_eq_rel:
  assumes "distinct (map qr_number rows)"
  shows "dep_of rows n = Some d \<longleftrightarrow> (n, d) \<in> dep_rel rows"
  using assms by (induction rows) (auto simp: dep_of_def dep_rel_def)

lemma acyclic_empty [simp]: "acyclic {}"
  by (simp add: acyclic_def)

lemma acyclic_redirect:
  assumes "acyclic R" and "(d, n) \<notin> R\<^sup>*"
  shows "acyclic ({(a, b) \<in> R. a \<noteq> n} \<union> {(n, d)})"
proof -
  have sub: "{(a, b) \<in> R. a \<noteq> n} \<subseteq> R" by auto
  have "(d, n) \<notin> {(a, b) \<in> R. a \<noteq> n}\<^sup>*"
    using assms(2) rtrancl_mono [OF sub] by blast
  moreover have "acyclic {(a, b) \<in> R. a \<noteq> n}"
    using assms(1) sub by (rule acyclic_subset)
  ultimately show ?thesis by simp
qed

lemma cyclic_redirect:
  assumes "(d, n) \<in> R\<^sup>*"
  shows "\<not> acyclic ({(a, b) \<in> R. a \<noteq> n} \<union> {(n, d)})"
proof -
  let ?R' = "{(a, b) \<in> R. a \<noteq> n} \<union> {(n, d)}"
  have "(x, n) \<in> R\<^sup>* \<Longrightarrow> (x, n) \<in> ?R'\<^sup>*" for x
  proof (induction rule: converse_rtrancl_induct)
    case base
    then show ?case by simp
  next
    case (step y z)
    then show ?case by (cases "y = n") (auto intro: converse_rtrancl_into_rtrancl)
  qed
  then have "(d, n) \<in> ?R'\<^sup>*" using assms by blast
  moreover have "(n, d) \<in> ?R'" by simp
  ultimately have "(n, n) \<in> ?R'\<^sup>+" by (rule rtrancl_into_trancl2 [rotated])
  then show ?thesis by (auto simp: acyclic_def)
qed

text \<open>\<open>visited\<close>: the cursors the walk has left behind. The walk gives up only when every entry
  has been visited, and then the chain has no continuation.\<close>

lemma follow_chain_correct:
  assumes distinct: "distinct (map qr_number entries)"
    and acyclic: "acyclic (dep_rel entries)"
    and "length chain = card visited + 2"
    and "visited \<subseteq> qr_number ` set entries"
    and "\<forall>v \<in> visited. (v, cursor) \<in> (dep_rel entries)\<^sup>+"
  shows "follow_chain entries number dependency chain cursor = None \<longleftrightarrow> (cursor, number) \<notin> (dep_rel entries)\<^sup>+"
  using assms
proof (induction entries number dependency chain cursor arbitrary: visited rule: follow_chain.induct)
  case (1 entries number dependency chain cursor)
  let ?R = "dep_rel entries"
  show ?case
  proof (cases "dep_of entries cursor")
    case None
    then have "(cursor, x) \<notin> ?R" for x
      using dep_of_eq_rel [OF 1(2), of cursor x] by simp
    then have "(cursor, number) \<notin> ?R\<^sup>+" by (meson tranclD)
    with None show ?thesis by (simp add: follow_chain.simps)
  next
    case (Some nx)
    have edge: "nx = x \<longleftrightarrow> (cursor, x) \<in> ?R" for x
      using dep_of_eq_rel [OF 1(2), of cursor x] unfolding Some option.inject .
    have step: "(cursor, nx) \<in> ?R" using edge [of nx] by blast
    have only: "(cursor, x) \<in> ?R \<Longrightarrow> x = nx" for x using edge [of x] by blast
    have reach: "(cursor, number) \<in> ?R\<^sup>+ \<longleftrightarrow> nx = number \<or> (nx, number) \<in> ?R\<^sup>+"
    proof
      assume "(cursor, number) \<in> ?R\<^sup>+"
      then obtain z where "(cursor, z) \<in> ?R" "(z, number) \<in> ?R\<^sup>*" by (meson tranclD)
      then show "nx = number \<or> (nx, number) \<in> ?R\<^sup>+" using only by (auto simp: rtrancl_eq_or_trancl)
    qed (use step in \<open>auto intro: trancl_into_trancl2\<close>)
    let ?visited = "insert cursor visited"
    have fresh: "cursor \<notin> visited" using 1(6) \<open>acyclic ?R\<close> by (auto simp: acyclic_def)
    have entry: "cursor \<in> qr_number ` set entries" using step by (auto simp: dep_rel_def)
    have finite: "finite visited" using 1(5) by (rule finite_subset) simp
    have len: "length (chain @ [nx]) = card ?visited + 2" using 1(4) fresh finite by simp
    have sub: "?visited \<subseteq> qr_number ` set entries" using 1(5) entry by simp
    have behind: "\<forall>v \<in> ?visited. (v, nx) \<in> ?R\<^sup>+" using 1(6) step by (auto intro: trancl_into_trancl)
    show ?thesis
    proof (cases "nx = number \<or> length (chain @ [nx]) \<le> length entries + 1")
      case True
      then show ?thesis
        using 1(1) [OF Some refl, of ?visited] 1(2,3) len sub behind reach Some
        by (subst follow_chain.simps) (auto simp: Let_def)
    next
      case False
      have "card (qr_number ` set entries) \<le> card ?visited"
        using False len card_length [of "map qr_number entries"] by simp
      then have "?visited = qr_number ` set entries" using sub by (simp add: card_seteq)
      moreover have "nx \<notin> ?visited" using behind 1(3) by (auto simp: acyclic_def)
      ultimately have "(nx, x) \<notin> ?R" for x by (auto simp: dep_rel_def)
      then have "(nx, number) \<notin> ?R\<^sup>+" by (meson tranclD)
      with False Some reach show ?thesis by (subst follow_chain.simps) (simp add: Let_def)
    qed
  qed
qed

text \<open>C4: On a queue with one entry per pull request and no dependency cycle, an enqueue is accepted
  exactly when the pull request is already queued or there is room, and its dependency, if it names
  one, is another queued entry and replacing the pull request's dependency by it leaves the graph
  without a cycle: no cycle gets in and no acyclic request is turned away.\<close>

theorem check_enqueue_accepts_exactly:
  assumes "distinct (map qr_number entries)" and "acyclic (dep_rel entries)"
  shows "check_enqueue entries workspace number depends_on limit = None \<longleftrightarrow>
     (number \<in> qr_number ` set entries \<or> length entries < unat limit)
     \<and> (case depends_on of None \<Rightarrow> True
        | Some d \<Rightarrow> d \<noteq> number \<and> d \<in> qr_number ` set entries
            \<and> acyclic ({(a, b) \<in> dep_rel entries. a \<noteq> number} \<union> {(number, d)}))"
proof -
  have walk: "follow_chain entries number d [number, d] d = None \<longleftrightarrow>
      acyclic ({(a, b) \<in> dep_rel entries. a \<noteq> number} \<union> {(number, d)})" if "d \<noteq> number" for d
  proof -
    have "follow_chain entries number d [number, d] d = None \<longleftrightarrow> (d, number) \<notin> (dep_rel entries)\<^sup>+"
      by (rule follow_chain_correct [OF assms, of _ "{}"]) simp_all
    then show ?thesis
      using that acyclic_redirect [OF assms(2), of d number] cyclic_redirect [of d number "dep_rel entries"]
      by (auto simp: rtrancl_eq_or_trancl)
  qed
  have mem: "list_ex (\<lambda>e. qr_number e = n) entries \<longleftrightarrow> n \<in> qr_number ` set entries" for n
    by (auto simp: list_ex_iff)
  show ?thesis
    unfolding check_enqueue_def Let_def mem by (auto simp: walk split: option.split)
qed

definition sample_row :: "u32 \<Rightarrow> int \<Rightarrow> u32 option \<Rightarrow> queue_row" where
  "sample_row number position depends_on =
     \<lparr>qr_workspace = ''/work'', qr_number = number, qr_repository = ''o/r'', qr_url = [],
      qr_title = None, qr_head_ref = ''fix'', qr_head_sha = ''abc'', qr_base_ref = Some ''main'',
      qr_depends_on = depends_on, qr_session_id = None, qr_position = position,
      qr_enqueued_at_ms = 0, qr_facts = None, qr_verification = None, qr_failure = None,
      qr_stacked = None, qr_github = None\<rparr>"

lemma check_enqueue_accepts_exactly_witness:
  "\<not> acyclic ({(a, b) \<in> dep_rel [sample_row 1 0 None, sample_row 2 1 (Some 1)]. a \<noteq> (1::u32)} \<union> {(1, 2)})"
proof -
  let ?q = "[sample_row 1 0 None, sample_row 2 1 (Some 1)]"
  have numbers: "1 \<in> qr_number ` set ?q" "2 \<in> qr_number ` set ?q" "(2::u32) \<noteq> 1" by (simp_all add: sample_row_def)
  have rel: "dep_rel ?q = {(2, 1)}" by (simp add: dep_rel_Cons sample_row_def)
  have acyclic: "acyclic (dep_rel ?q)" unfolding rel by simp
  have distinct: "distinct (map qr_number ?q)" by (simp add: sample_row_def)
  have "check_enqueue ?q ''/work'' 1 (Some 2) 5 \<noteq> None"
    by (simp add: check_enqueue_def follow_chain.simps dep_of_def sample_row_def Let_def)
  then show ?thesis
    unfolding check_enqueue_accepts_exactly [OF distinct acyclic] option.case
    by (simp only: numbers simp_thms)
qed

section \<open>What the order guarantees\<close>

text \<open>A row is ready when its dependency is not among the rows still waiting.\<close>

definition ready :: "queue_row list \<Rightarrow> queue_row \<Rightarrow> bool" where
  "ready rows r \<longleftrightarrow> (case qr_depends_on r of None \<Rightarrow> True | Some d \<Rightarrow> d \<notin> qr_number ` set rows)"

lemma next_in_order_ready:
  "next_in_order rows = (case find_index (ready rows) rows of Some i \<Rightarrow> i | None \<Rightarrow> 0)"
  by (simp add: next_in_order_def ready_def [abs_def] Let_def)

lemma acyclic_has_ready:
  assumes "rows \<noteq> []" and "acyclic (dep_rel rows)"
  shows "\<exists>r \<in> set rows. ready rows r"
proof -
  have "wf ((dep_rel rows)\<inverse>)"
    using assms(2) by (intro finite_acyclic_wf) simp_all
  moreover have "qr_number (hd rows) \<in> qr_number ` set rows" using assms(1) by simp
  ultimately obtain m where m: "m \<in> qr_number ` set rows"
    and min: "\<And>y. (y, m) \<in> (dep_rel rows)\<inverse> \<Longrightarrow> y \<notin> qr_number ` set rows"
    by (rule wfE_min) blast
  then obtain r where "r \<in> set rows" "qr_number r = m" by auto
  then have "ready rows r" using min by (auto simp: ready_def dep_rel_def split: option.splits)
  with \<open>r \<in> set rows\<close> show ?thesis by blast
qed

lemma set_remove_at: "set (remove_at i xs) \<subseteq> set xs"
  by (auto simp: remove_at_def dest: in_set_takeD in_set_dropD)

lemma mset_remove_at: "i < length xs \<Longrightarrow> add_mset (xs ! i) (mset (remove_at i xs)) = mset xs"
  using arg_cong [OF id_take_nth_drop, of i xs mset] by (simp add: remove_at_def)

lemma order_loop_mset: "mset (order_loop rows) = mset rows"
proof (induction rows rule: order_loop.induct)
  case (1 rows)
  then show ?case
    by (subst order_loop.simps) (simp add: mset_remove_at next_in_order_less)
qed

lemma order_loop_step:
  assumes "rows \<noteq> []" and "acyclic (dep_rel rows)"
  obtains i where "i < length rows" "ready rows (rows ! i)" "\<forall>j < i. \<not> ready rows (rows ! j)"
    "order_loop rows = rows ! i # order_loop (remove_at i rows)" "acyclic (dep_rel (remove_at i rows))"
proof -
  obtain i where i: "find_index (ready rows) rows = Some i"
    using acyclic_has_ready [OF assms] find_index_None_iff [of "ready rows" rows] by auto
  then have "next_in_order rows = i" by (simp add: next_in_order_ready)
  then have "order_loop rows = rows ! i # order_loop (remove_at i rows)"
    using assms(1) by (subst order_loop.simps) simp
  moreover have "dep_rel (remove_at i rows) \<subseteq> dep_rel rows"
    using set_remove_at [of i rows] by (auto simp: dep_rel_def)
  then have "acyclic (dep_rel (remove_at i rows))" using assms(2) acyclic_subset by blast
  ultimately show ?thesis using that find_index_SomeD [OF i] by blast
qed

text \<open>At every step the chosen row is ready, and every row before it in the remaining list is not.\<close>

fun picks_first_ready :: "queue_row list \<Rightarrow> bool" where
  "picks_first_ready [] = True"
| "picks_first_ready (r # rs) =
     (ready (r # rs) r
      \<and> (\<forall>q \<in> set rs. ready (r # rs) q \<longrightarrow> qr_position r \<le> qr_position q) \<and> picks_first_ready rs)"

lemma ready_mset: "mset xs = mset ys \<Longrightarrow> ready xs q = ready ys q"
  by (auto simp: ready_def dest: mset_eq_setD split: option.splits)

lemma sorted_remove_at: "sorted xs \<Longrightarrow> sorted (remove_at i xs)"
proof (induction xs arbitrary: i)
  case Nil
  then show ?case by (simp add: remove_at_def)
next
  case (Cons x xs)
  then show ?case
    using set_remove_at [of "i - 1" xs] by (cases i) (auto simp: remove_at_def)
qed

lemma map_remove_at: "map f (remove_at i xs) = remove_at i (map f xs)"
  by (simp add: remove_at_def take_map drop_map)

lemma order_loop_picks:
  assumes "acyclic (dep_rel rows)" and "sorted (map qr_position rows)"
  shows "picks_first_ready (order_loop rows)"
  using assms
proof (induction "length rows" arbitrary: rows)
  case 0
  then show ?case by (simp add: order_loop.simps)
next
  case (Suc n)
  then have "rows \<noteq> []" by auto
  from order_loop_step [OF this Suc.prems(1)] obtain i where i: "i < length rows"
    "ready rows (rows ! i)" "\<forall>j < i. \<not> ready rows (rows ! j)"
    "order_loop rows = rows ! i # order_loop (remove_at i rows)" "acyclic (dep_rel (remove_at i rows))"
    by blast
  let ?rest = "order_loop (remove_at i rows)"
  have len: "n = length (remove_at i rows)" using Suc.hyps(2) i(1) by (simp add: remove_at_def)
  have all: "mset (rows ! i # ?rest) = mset rows"
    using i(1) by (simp add: order_loop_mset mset_remove_at)
  have sorted: "sorted (map qr_position (remove_at i rows))"
    unfolding map_remove_at by (rule sorted_remove_at [OF Suc.prems(2)])
  have "qr_position (rows ! i) \<le> qr_position q" if q: "q \<in> set ?rest" "ready rows q" for q
  proof -
    have "q \<in> set rows" using q(1) mset_eq_setD [OF all] by auto
    then obtain j where "j < length rows" "q = rows ! j" by (auto simp: in_set_conv_nth)
    moreover with i(3) q(2) have "i \<le> j" by (meson not_le)
    ultimately show ?thesis using sorted_nth_mono [OF Suc.prems(2), of i j] by simp
  qed
  then show ?case
    using Suc.hyps(1) [OF len i(5) sorted] i(2,4) ready_mset [OF all] by simp
qed

text \<open>C8: The queue order is a rearrangement of the rows; when the dependencies have no cycle, every
  entry comes after the entry it depends on, and at every place stands the row that was enqueued
  first among those whose dependency no longer waits; without dependencies it is plain FIFO.\<close>

theorem order_respects_dependencies:
  assumes "acyclic (dep_rel rows)"
  shows "mset (order rows) = mset rows \<and> picks_first_ready (order rows)
    \<and> (list_all (\<lambda>r. qr_depends_on r = None) rows \<longrightarrow> order rows = sort_key qr_position rows)"
proof -
  let ?sorted = "sort_key qr_position rows"
  have "dep_rel ?sorted = dep_rel rows" by (simp add: dep_rel_def)
  then have "picks_first_ready (order rows)"
    unfolding order_def using assms by (intro order_loop_picks) simp_all
  moreover have "order_loop rs = rs" if "list_all (\<lambda>r. qr_depends_on r = None) rs" for rs
    using that
  proof (induction rs)
    case Nil
    then show ?case by (simp add: order_loop.simps)
  next
    case (Cons r rs)
    then have "next_in_order (r # rs) = 0" by (simp add: next_in_order_ready ready_def)
    with Cons show ?case by (subst order_loop.simps) (simp add: remove_at_def)
  qed
  then have "list_all (\<lambda>r. qr_depends_on r = None) rows \<longrightarrow> order_loop ?sorted = ?sorted"
    by (simp add: list_all_iff)
  ultimately show ?thesis by (simp add: order_def order_loop_mset)
qed

lemma order_respects_dependencies_witness:
  "order [sample_row 9 3 None, sample_row 2 1 (Some 9), sample_row 5 2 None]
     = [sample_row 5 2 None, sample_row 9 3 None, sample_row 2 1 (Some 9)]
   \<and> picks_first_ready [sample_row 5 2 None, sample_row 9 3 None, sample_row 2 1 (Some 9)]"
proof -
  let ?q = "[sample_row 9 3 None, sample_row 2 1 (Some 9), sample_row 5 2 None]"
  have "acyclic (dep_rel ?q)" by (simp add: dep_rel_Cons sample_row_def)
  moreover have "order ?q = [sample_row 5 2 None, sample_row 9 3 None, sample_row 2 1 (Some 9)]"
    by (simp add: order_def order_loop.simps next_in_order_def remove_at_def sample_row_def Let_def)
  ultimately show ?thesis using order_respects_dependencies [of ?q] by simp
qed

end
