(* ===== verification/Merge_Line.thy ===== *)
theory Merge_Line
  imports Merge_Queue Rust_Std
begin

text \<open>
  The merge queue's model, second half (\<^verbatim>\<open>core/houston-core/src/merge_queue.rs\<close>): the gates an
  entry must pass, the verification and the failure that still hold for its head, the line (rank,
  status and reason of every entry) and the entry that goes next. The loop of \<open>line\<close> is
  \<open>line_loop\<close>; its mutable locals are the record \<open>line_state\<close>. Ranks count entries, so they are
  naturals.
\<close>

section \<open>Wire types\<close>

datatype merge_queue_status =
  Status_Ready | Status_Blocked | Status_Verifying | Status_WaitingForSlot | Status_Fixing
  | Status_Parked | Status_Paused | Status_Watching

datatype merge_queue_gate_kind = Gate_Mergeable | Gate_ReviewThreads | Gate_Reviewer | Gate_Verification

datatype merge_queue_gate_state = Gate_Passed | Gate_Failed | Gate_NotApplicable | Gate_Pending

record merge_queue_gate =
  gt_kind :: merge_queue_gate_kind
  gt_state :: merge_queue_gate_state
  gt_reason :: "string option"

record merge_queue_settings =
  ms_merge_when_verified :: bool
  ms_verification_command :: string
  ms_time_limit_minutes :: u32
  ms_paused :: bool

record merge_queue_entry =
  en_number :: u32
  en_repository :: string
  en_url :: string
  en_title :: "string option"
  en_head_ref :: string
  en_head_sha :: string
  en_base_ref :: "string option"
  en_depends_on :: "u32 option"
  en_session :: "u32 option"
  en_position :: nat
  en_enqueued_at_ms :: int
  en_read_at_ms :: "int option"
  en_status :: merge_queue_status
  en_reason :: "string option"
  en_gates :: "merge_queue_gate list"
  en_verification :: "merge_queue_verification option"
  en_failure :: "merge_queue_failure option"
  en_worktree :: "string option"
  en_verifying_since_ms :: "int option"
  en_github :: "merge_queue_github_hold option"

datatype task_run_state =
  Preparing | Running | WaitingForInput | Validating | HandedBack | NeedsReview
  | Run_Failed | Run_Cancelled | Run_Interrupted

section \<open>Gates\<close>

datatype review = NotSlice | Slice string "task_run_state option" | Unreadable string

definition rebase_answers_mergeable :: "merge_queue_gate list \<Rightarrow> queue_row \<Rightarrow> merge_queue_gate list" where
  "rebase_answers_mergeable gates row =
     (let base = (case qr_base_ref row of Some b \<Rightarrow> b | None \<Rightarrow> ''its base'')
      in map (\<lambda>g. if gt_kind g = Gate_Mergeable \<and> gt_state g = Gate_Failed
                  then g\<lparr>gt_state := Gate_Pending,
                         gt_reason := map_option (\<lambda>r. r @ ''; verification rebases it onto '' @ base)
                                        (gt_reason g)\<rparr>
                  else g) gates)"

definition mk_gate :: "merge_queue_gate_kind \<Rightarrow> string option \<Rightarrow> bool \<Rightarrow> merge_queue_gate" where
  "mk_gate kind failure applies =
     \<lparr>gt_kind = kind,
      gt_state = (if \<not> applies then Gate_NotApplicable
                  else if failure = None then Gate_Passed else Gate_Failed),
      gt_reason = failure\<rparr>"

definition unread_reason :: "queue_row \<Rightarrow> string option" where
  "unread_reason row =
     (case qr_facts row of
        None \<Rightarrow> Some (pr_tag (qr_number row) @ '' has not been read from GitHub yet'')
      | Some f \<Rightarrow>
          (case fx_error f of
             Some e \<Rightarrow> Some (''could not read '' @ pr_tag (qr_number row) @ '' from GitHub: '' @ e)
           | None \<Rightarrow> None))"

definition threads_reason :: "u32 \<Rightarrow> facts \<Rightarrow> string option" where
  "threads_reason number f =
     (case fx_unresolved_threads f of
        None \<Rightarrow> Some (case fx_threads_message f of Some m \<Rightarrow> m
                     | None \<Rightarrow> ''could not read the review threads of '' @ pr_tag number)
      | Some n \<Rightarrow>
          if n = 0 then
            (if fx_threads_truncated f
             then Some (pr_tag number @ '' has more review threads than Houston reads; check them on GitHub'')
             else None)
          else if n = 1 then Some (pr_tag number @ '' has 1 unresolved review thread'')
          else Some (pr_tag number @ '' has '' @ dec (unat n) @ '' unresolved review threads''))"

fun reviewer_reason :: "u32 \<Rightarrow> review \<Rightarrow> string option" where
  "reviewer_reason number NotSlice = None"
| "reviewer_reason number (Unreadable e) =
     Some (''could not read the task backlog for '' @ pr_tag number @ [CHR 39] @ ''s reviewer verdict: '' @ e)"
| "reviewer_reason number (Slice key state) =
     (case state of
        Some HandedBack \<Rightarrow> None
      | None \<Rightarrow> Some (key @ '' has no reviewer verdict yet'')
      | Some NeedsReview \<Rightarrow> Some (key @ [CHR 39] @ ''s newest reviewer verdict is not pass'')
      | Some Run_Failed \<Rightarrow> Some (key @ [CHR 39] @ ''s newest review ended without a verdict'')
      | Some Run_Cancelled \<Rightarrow> Some (key @ [CHR 39] @ ''s newest review ended without a verdict'')
      | Some Run_Interrupted \<Rightarrow> Some (key @ [CHR 39] @ ''s newest review ended without a verdict'')
      | Some _ \<Rightarrow> Some (key @ [CHR 39] @ ''s review is still running''))"

definition gates :: "queue_row \<Rightarrow> review \<Rightarrow> merge_queue_gate list" where
  "gates row review =
     (let mergeable = or_else (unread_reason row) (Option.bind (qr_facts row) fx_merge_disabled_reason);
          threads = or_else (unread_reason row) (Option.bind (qr_facts row) (threads_reason (qr_number row)));
          reviewer = reviewer_reason (qr_number row) review
      in [mk_gate Gate_Mergeable mergeable True,
          mk_gate Gate_ReviewThreads threads True,
          mk_gate Gate_Reviewer reviewer (review \<noteq> NotSlice)])"

definition verification_holds :: "queue_row \<Rightarrow> merge_queue_verification option" where
  "verification_holds row =
     filter_option (\<lambda>v. (vf_head_sha v = qr_head_sha row \<or> vf_verified_sha v = qr_head_sha row)
                        \<and> base_of row = Some (vf_base_ref v)) (qr_verification row)"

definition failure_holds :: "queue_row \<Rightarrow> merge_queue_failure option" where
  "failure_holds row = filter_option (\<lambda>f. fl_head_sha f = qr_head_sha row) (qr_failure row)"

section \<open>The line\<close>

record line_context =
  cx_settings :: "merge_queue_settings option"
  cx_paused :: "string option"
  cx_running :: "(u32 \<times> int) option"
  cx_worktrees :: "string \<rightharpoonup> string"
  cx_refusal :: "string option"

definition command_set :: "line_context \<Rightarrow> bool" where
  "command_set ctx =
     (case cx_settings ctx of
        Some s \<Rightarrow> trim (bytes_of (ms_verification_command s)) \<noteq> []
      | None \<Rightarrow> False)"

definition short_sha :: "string \<Rightarrow> string" where
  "short_sha sha = take (min (length sha) 7) sha"

definition is_running :: "line_context \<Rightarrow> queue_row \<Rightarrow> bool" where
  "is_running ctx row = (case cx_running ctx of Some (n, _) \<Rightarrow> n = qr_number row | None \<Rightarrow> False)"

definition verification_gate :: "queue_row \<Rightarrow> bool \<Rightarrow> line_context \<Rightarrow> merge_queue_gate" where
  "verification_gate row goes_next ctx =
     (let (state, reason) =
        (if \<not> command_set ctx then (Gate_NotApplicable, ''No verification command is set'')
         else case cx_refusal ctx of
           Some refusal \<Rightarrow> (Gate_Failed, refusal)
         | None \<Rightarrow>
             (case verification_holds row of
                Some v \<Rightarrow> (Gate_Passed, ''Verified on '' @ vf_base_ref v @ ''@'' @ short_sha (vf_base_sha v))
              | None \<Rightarrow>
                  if is_running ctx row then (Gate_Pending, ''Verifying now'')
                  else (case failure_holds row of
                          Some f \<Rightarrow> (Gate_Failed, fl_message f)
                        | None \<Rightarrow>
                            if goes_next then (Gate_Pending, ''Runs once the verification slot is free'')
                            else (Gate_Pending, ''Runs when it goes next''))))
      in \<lparr>gt_kind = Gate_Verification, gt_state = state, gt_reason = Some reason\<rparr>)"

definition watching_reason :: "queue_row \<Rightarrow> merge_queue_github_hold \<Rightarrow> string" where
  "watching_reason row hold =
     (case gh_mode hold of
        AutoMerge \<Rightarrow> ''Auto-merge is on for '' @ short_sha (gh_head_sha hold)
                     @ ''; GitHub merges once required checks pass''
      | _ \<Rightarrow>
          (case Option.bind (Option.bind (Option.bind (qr_facts row) fx_github_merge) gm_queue_entry)
                  qe_position of
             Some position \<Rightarrow> ''In GitHub'' @ [CHR 39] @ ''s merge queue (position '' @ dec (unat position) @ '')''
           | None \<Rightarrow> ''In GitHub'' @ [CHR 39] @ ''s merge queue''))"

definition holds_line :: "queue_row \<Rightarrow> review \<Rightarrow> bool" where
  "holds_line row review \<longleftrightarrow>
     (case review of Unreadable _ \<Rightarrow> True | _ \<Rightarrow> False)
     \<or> (case qr_facts row of
          None \<Rightarrow> True
        | Some f \<Rightarrow> fx_error f \<noteq> None \<or> fx_settling f \<or> fx_unresolved_threads f = None)"

datatype turn = Turn_Open | Turn_Taken | Turn_Held u32 string

record line_state =
  ln_held :: "u32 \<rightharpoonup> string"
  ln_blocked :: "u32 set"
  ln_turn :: turn
  ln_rank :: nat

definition take_turn :: "turn \<Rightarrow> turn" where
  "take_turn t = (if t = Turn_Open then Turn_Taken else t)"

definition row_gates :: "line_context \<Rightarrow> queue_row \<Rightarrow> review \<Rightarrow> merge_queue_gate list" where
  "row_gates ctx row review =
     (if command_set ctx \<and> (case qr_facts row of Some f \<Rightarrow> fx_base_only f | None \<Rightarrow> False)
      then rebase_answers_mergeable (gates row review) row else gates row review)"

definition dependency_block :: "u32 set \<Rightarrow> line_state \<Rightarrow> queue_row \<Rightarrow> string option" where
  "dependency_block queued st row =
     (case qr_depends_on row of
        None \<Rightarrow> None
      | Some d \<Rightarrow>
          if d \<notin> queued then Some (''depends on '' @ hash d @ '', which left the queue without merging'')
          else if d \<in> ln_blocked st then Some (''waits for '' @ hash d @ '', which is blocked'')
          else None)"

definition gate_block :: "merge_queue_gate list \<Rightarrow> string option" where
  "gate_block gs = find_map gt_reason (filter (\<lambda>g. gt_state g = Gate_Failed) gs)"

text \<open>The last branch of the loop: an entry in line that is Houston's to merge. The result is its
  status, its reason, whether it goes next, and the loop's state (its rank is already counted).\<close>

definition ranked_verdict ::
  "u32 set \<Rightarrow> line_context \<Rightarrow> queue_row \<Rightarrow> review \<Rightarrow> line_state
     \<Rightarrow> merge_queue_status \<times> string option \<times> bool \<times> line_state" where
  "ranked_verdict queued ctx row review st =
     (let dependency = dependency_block queued st row;
          gate_blk = gate_block (row_gates ctx row review);
          holds = (dependency = None \<and> gate_blk \<noteq> None \<and> holds_line row review);
          own = or_else (or_else dependency gate_blk)
                  (if command_set ctx then cx_refusal ctx else None);
          needs_verification = (command_set ctx \<and> verification_holds row = None)
      in case own of
           Some why \<Rightarrow>
             (Status_Blocked, Some why, False,
              st\<lparr>ln_blocked := insert (qr_number row) (ln_blocked st),
                 ln_turn := (if holds \<and> ln_turn st = Turn_Open then Turn_Held (qr_number row) why
                             else ln_turn st)\<rparr>)
         | None \<Rightarrow>
             if is_running ctx row then
               (Status_Verifying, None, False, st\<lparr>ln_turn := take_turn (ln_turn st)\<rparr>)
             else (case ln_turn st of
                 Turn_Held holder why \<Rightarrow>
                   (Status_Blocked, Some (''the queue waits for '' @ hash holder @ '': '' @ why), False, st)
               | Turn_Taken \<Rightarrow> (Status_Ready, None, False, st)
               | Turn_Open \<Rightarrow>
                   (let st' = st\<lparr>ln_turn := Turn_Taken\<rparr>
                    in case cx_paused ctx of
                         Some paused \<Rightarrow> (Status_Paused, Some paused, True, st')
                       | None \<Rightarrow>
                           if needs_verification then (Status_WaitingForSlot, None, True, st')
                           else (Status_Ready, None, True, st'))))"

definition line_verdict ::
  "u32 set \<Rightarrow> line_context \<Rightarrow> queue_row \<Rightarrow> review \<Rightarrow> line_state
     \<Rightarrow> merge_queue_status \<times> string option \<times> nat \<times> bool \<times> line_state" where
  "line_verdict queued ctx row review st =
     (case failure_holds row of
        Some f \<Rightarrow>
          (let (status, why) = (if fl_handed_to f \<noteq> None then (Status_Fixing, ''being fixed'')
                                else (Status_Parked, ''parked''))
           in (status, Some (fl_message f), 0, False,
               st\<lparr>ln_held := (ln_held st)(qr_number row \<mapsto> why)\<rparr>))
      | None \<Rightarrow>
          (case Option.bind (qr_depends_on row) (\<lambda>d. map_option (Pair d) (ln_held st d)) of
             Some (dependency, why) \<Rightarrow>
               (Status_Blocked, Some (''waits for '' @ hash dependency @ '', which is '' @ why), 0, False,
                st\<lparr>ln_held := (ln_held st)(qr_number row \<mapsto> why)\<rparr>)
           | None \<Rightarrow>
               (let st' = st\<lparr>ln_rank := ln_rank st + 1\<rparr>
                in case github_holds row of
                     Some hold \<Rightarrow>
                       (Status_Watching, Some (watching_reason row hold), ln_rank st', False,
                        st'\<lparr>ln_turn := take_turn (ln_turn st')\<rparr>)
                   | None \<Rightarrow>
                       (let (status, reason, goes_next, st'') = ranked_verdict queued ctx row review st'
                        in (status, reason, ln_rank st', goes_next, st'')))))"

definition line_entry ::
  "u32 set \<Rightarrow> line_context \<Rightarrow> queue_row \<Rightarrow> review \<Rightarrow> line_state \<Rightarrow> merge_queue_entry \<times> line_state" where
  "line_entry queued ctx row review st =
     (let (status, reason, position, goes_next, st') = line_verdict queued ctx row review st
      in (\<lparr>en_number = qr_number row, en_repository = qr_repository row, en_url = qr_url row,
           en_title = qr_title row, en_head_ref = qr_head_ref row, en_head_sha = qr_head_sha row,
           en_base_ref = qr_base_ref row, en_depends_on = qr_depends_on row,
           en_session = qr_session_id row, en_position = position,
           en_enqueued_at_ms = qr_enqueued_at_ms row,
           en_read_at_ms = map_option fx_read_at_ms (qr_facts row),
           en_status = status, en_reason = reason,
           en_gates = row_gates ctx row review @ [verification_gate row goes_next ctx],
           en_verification = verification_holds row, en_failure = failure_holds row,
           en_worktree = cx_worktrees ctx (qr_head_ref row),
           en_verifying_since_ms =
             (if status = Status_Verifying then map_option snd (cx_running ctx) else None),
           en_github = github_holds row\<rparr>, st'))"

fun line_loop ::
  "u32 set \<Rightarrow> line_context \<Rightarrow> line_state \<Rightarrow> (queue_row \<times> review) list \<Rightarrow> merge_queue_entry list" where
  "line_loop queued ctx st [] = []"
| "line_loop queued ctx st ((row, review) # rest) =
     (let (entry, st') = line_entry queued ctx row review st
      in entry # line_loop queued ctx st' rest)"

definition line_start :: line_state where
  "line_start = \<lparr>ln_held = Map.empty, ln_blocked = {}, ln_turn = Turn_Open, ln_rank = 0\<rparr>"

definition line :: "queue_row list \<Rightarrow> review list \<Rightarrow> line_context \<Rightarrow> merge_queue_entry list" where
  "line rows reviews ctx = line_loop (qr_number ` set rows) ctx line_start (zip rows reviews)"

definition next_up :: "merge_queue_entry list \<Rightarrow> merge_queue_entry option" where
  "next_up entries = List.find (\<lambda>e. 0 < en_position e \<and> en_status e \<noteq> Status_Blocked) entries"

section \<open>The gates fail closed\<close>

lemma mk_gate_state [simp]:
  "gt_state (mk_gate k f a) = (if \<not> a then Gate_NotApplicable else if f = None then Gate_Passed else Gate_Failed)"
  "gt_reason (mk_gate k f a) = f" "gt_kind (mk_gate k f a) = k"
  by (simp_all add: mk_gate_def)

lemma list_all_Nil: "list_all P []"
  by simp

lemma mk_gate_reasoned: "gt_state (mk_gate k f a) = Gate_Failed \<longrightarrow> gt_reason (mk_gate k f a) \<noteq> None"
  by simp

lemma threads_reason_None:
  "threads_reason n f = None \<longleftrightarrow> fx_unresolved_threads f = Some 0 \<and> \<not> fx_threads_truncated f"
  by (auto simp: threads_reason_def split: option.splits)

lemma reviewer_reason_None:
  "reviewer_reason n r = None \<longleftrightarrow> r = NotSlice \<or> (\<exists>key. r = Slice key (Some HandedBack))"
  by (cases r) (auto split: option.splits task_run_state.splits)

text \<open>The three gates let an entry through exactly when GitHub was read without an error, its own
  merge gate allows the merge, all review threads were read and none is unresolved, and the
  pull request is no task Slice or its newest review handed back a pass; anything unread,
  unreadable or truncated fails.\<close>

theorem gates_pass_exactly:
  "list_all (\<lambda>g. gt_state g = Gate_Passed \<or> gt_state g = Gate_NotApplicable) (gates row review) \<longleftrightarrow>
     (case qr_facts row of
        None \<Rightarrow> False
      | Some f \<Rightarrow> fx_error f = None \<and> fx_merge_disabled_reason f = None
                  \<and> fx_unresolved_threads f = Some 0 \<and> \<not> fx_threads_truncated f)
     \<and> (case review of NotSlice \<Rightarrow> True | Unreadable _ \<Rightarrow> False
        | Slice key state \<Rightarrow> state = Some HandedBack)"
proof -
  have "reviewer_reason (qr_number row) review = None \<longleftrightarrow>
      (case review of NotSlice \<Rightarrow> True | Unreadable _ \<Rightarrow> False | Slice key state \<Rightarrow> state = Some HandedBack)"
    unfolding reviewer_reason_None by (cases review) auto
  then show ?thesis
    by (cases "qr_facts row")
      (auto simp: gates_def Let_def unread_reason_def threads_reason_None split: option.splits review.splits)
qed

lemma gate_block_None:
  "gate_block (row_gates ctx row review) = None \<longleftrightarrow>
     list_all (\<lambda>g. gt_state g \<noteq> Gate_Failed) (row_gates ctx row review)"
proof -
  have "list_all (\<lambda>g. gt_state g = Gate_Failed \<longrightarrow> gt_reason g \<noteq> None) (gates row review)"
    unfolding gates_def Let_def list.pred_inject by (intro conjI mk_gate_reasoned list_all_Nil)
  then have "list_all (\<lambda>g. gt_state g = Gate_Failed \<longrightarrow> gt_reason g \<noteq> None) (row_gates ctx row review)"
    by (auto simp: row_gates_def rebase_answers_mergeable_def list_all_iff Let_def)
  then show ?thesis
    by (auto simp: gate_block_def find_map_None_iff list_all_iff)
qed

section \<open>Ranks, statuses and reasons\<close>

abbreviation silent_status :: "merge_queue_status \<Rightarrow> bool" where
  "silent_status s \<equiv> s = Status_Ready \<or> s = Status_Verifying \<or> s = Status_WaitingForSlot"

text \<open>What blocks a ranked entry by itself, whatever the turn.\<close>

definition own_block :: "u32 set \<Rightarrow> line_context \<Rightarrow> queue_row \<Rightarrow> review \<Rightarrow> line_state \<Rightarrow> string option" where
  "own_block queued ctx row review st =
     or_else (or_else (dependency_block queued st row) (gate_block (row_gates ctx row review)))
       (if command_set ctx then cx_refusal ctx else None)"

lemma ranked_verdict_own:
  "ranked_verdict queued ctx row review st =
     (case own_block queued ctx row review st of
        Some why \<Rightarrow>
          (Status_Blocked, Some why, False,
           st\<lparr>ln_blocked := insert (qr_number row) (ln_blocked st),
              ln_turn := (if (dependency_block queued st row = None
                              \<and> gate_block (row_gates ctx row review) \<noteq> None \<and> holds_line row review)
                             \<and> ln_turn st = Turn_Open
                          then Turn_Held (qr_number row) why else ln_turn st)\<rparr>)
      | None \<Rightarrow>
          if is_running ctx row then (Status_Verifying, None, False, st\<lparr>ln_turn := take_turn (ln_turn st)\<rparr>)
          else (case ln_turn st of
              Turn_Held holder why \<Rightarrow>
                (Status_Blocked, Some (''the queue waits for '' @ hash holder @ '': '' @ why), False, st)
            | Turn_Taken \<Rightarrow> (Status_Ready, None, False, st)
            | Turn_Open \<Rightarrow>
                (let st' = st\<lparr>ln_turn := Turn_Taken\<rparr>
                 in case cx_paused ctx of
                      Some paused \<Rightarrow> (Status_Paused, Some paused, True, st')
                    | None \<Rightarrow>
                        if command_set ctx \<and> verification_holds row = None
                        then (Status_WaitingForSlot, None, True, st')
                        else (Status_Ready, None, True, st'))))"
  unfolding ranked_verdict_def own_block_def Let_def ..

lemma ranked_verdict_facts:
  assumes "ranked_verdict queued ctx row review st = (status, reason, goes_next, st')"
  shows "ln_rank st' = ln_rank st" "reason = None \<longleftrightarrow> silent_status status"
    "status \<noteq> Status_Fixing" "status \<noteq> Status_Parked" "status \<noteq> Status_Watching"
  using assms
  by (cases "own_block queued ctx row review st";
      auto simp: ranked_verdict_own Let_def split: option.splits if_splits turn.splits)+

lemma line_verdict_facts:
  assumes "line_verdict queued ctx row review st = (status, reason, position, goes_next, st')"
  shows "position = 0 \<and> ln_rank st' = ln_rank st \<or> position = ln_rank st + 1 \<and> ln_rank st' = position"
    "reason = None \<longleftrightarrow> silent_status status"
    "(status = Status_Fixing \<or> status = Status_Parked) \<longleftrightarrow> failure_holds row \<noteq> None"
  using assms
  by (auto simp: line_verdict_def Let_def split: option.splits prod.splits if_splits
      dest: ranked_verdict_facts)

lemma line_entry_facts:
  assumes "line_entry queued ctx row review st = (e, st')"
  shows "en_position e = 0 \<and> ln_rank st' = ln_rank st \<or> en_position e = ln_rank st + 1 \<and> ln_rank st' = en_position e"
    "en_reason e = None \<longleftrightarrow> silent_status (en_status e)"
    "(en_status e = Status_Fixing \<or> en_status e = Status_Parked) \<longleftrightarrow> en_failure e \<noteq> None"
    "en_number e = qr_number row"
proof -
  obtain status reason position goes_next st''
    where v: "line_verdict queued ctx row review st = (status, reason, position, goes_next, st'')"
    by (metis prod_cases5)
  show "en_position e = 0 \<and> ln_rank st' = ln_rank st \<or> en_position e = ln_rank st + 1 \<and> ln_rank st' = en_position e"
    "en_reason e = None \<longleftrightarrow> silent_status (en_status e)"
    "(en_status e = Status_Fixing \<or> en_status e = Status_Parked) \<longleftrightarrow> en_failure e \<noteq> None"
    "en_number e = qr_number row"
    using assms line_verdict_facts [OF v] by (auto simp: line_entry_def v)
qed

lemma upt_grow:
  assumes "xs = [Suc n..<Suc n + length xs]"
  shows "n # xs = [n..<n + length (n # xs)]"
proof -
  have "[n..<n + length (n # xs)] = n # [Suc n..<Suc n + length xs]"
    by (subst upt_conv_Cons) simp_all
  also have "\<dots> = n # xs" using assms [symmetric] by (rule arg_cong)
  finally show ?thesis by (rule sym)
qed

lemma line_loop_facts:
  "filter ((<) 0) (map en_position (line_loop q ctx st xs))
     = [ln_rank st + 1..<ln_rank st + 1 + length (filter ((<) 0) (map en_position (line_loop q ctx st xs)))]"
  "list_all (\<lambda>e. (en_reason e = None) = silent_status (en_status e)) (line_loop q ctx st xs)"
  "list_all (\<lambda>e. (en_status e = Status_Fixing \<or> en_status e = Status_Parked) = (en_failure e \<noteq> None)) (line_loop q ctx st xs)"
  "map en_number (line_loop q ctx st xs) = map (qr_number \<circ> fst) xs"
proof (induction q ctx st xs rule: line_loop.induct)
  case (2 q ctx st row review rest)
  obtain e st' where es: "line_entry q ctx row review st = (e, st')" by fastforce
  note IH = 2 [OF es [symmetric] refl] and facts = line_entry_facts [OF es]
  {
    case 1
    let ?ranks = "filter ((<) 0) (map en_position (line_loop q ctx st' rest))"
    show ?case
    proof (cases "en_position e = 0")
      case True
      then have "filter ((<) 0) (map en_position (line_loop q ctx st ((row, review) # rest))) = ?ranks"
        by (simp add: es)
      moreover have "ln_rank st' = ln_rank st" using facts(1) True by simp
      ultimately show ?thesis using IH(1) by (simp only:)
    next
      case False
      then have "filter ((<) 0) (map en_position (line_loop q ctx st ((row, review) # rest)))
          = (ln_rank st + 1) # ?ranks" and "ln_rank st' = ln_rank st + 1"
        using facts(1) by (simp_all add: es)
      then show ?thesis using upt_grow [of ?ranks "ln_rank st + 1"] IH(1) by (simp only: Suc_eq_plus1)
    qed
  next
    case 2
    show ?case using IH(2) facts(2) by (simp add: es)
  next
    case 3
    show ?case using IH(3) facts(3) by (simp add: es)
  next
    case 4
    show ?case using IH(4) facts(4) by (simp add: es)
  }
qed simp_all

text \<open>The line has one entry per row, in queue order; the entries in line are ranked 1, 2, 3 and
  so on without a gap; an entry is fixing or parked exactly when a failure holds for its head; and
  an entry carries a reason exactly when its status is not one of ready, verifying and waiting
  for a slot.\<close>

theorem line_ranks_and_reasons:
  "let entries = line rows reviews ctx; ranks = filter ((<) 0) (map en_position entries)
   in map en_number entries = map (qr_number \<circ> fst) (zip rows reviews)
      \<and> ranks = [1..<1 + length ranks]
      \<and> list_all (\<lambda>e. (en_status e = Status_Fixing \<or> en_status e = Status_Parked) = (en_failure e \<noteq> None)) entries
      \<and> list_all (\<lambda>e. (en_reason e = None) =
          (en_status e = Status_Ready \<or> en_status e = Status_Verifying \<or> en_status e = Status_WaitingForSlot)) entries"
proof -
  have rank: "ln_rank line_start + 1 = 1" by (simp add: line_start_def)
  note loop = line_loop_facts [of _ _ line_start, unfolded rank]
  show ?thesis
    unfolding line_def Let_def by (intro conjI loop)
qed

section \<open>Who goes next\<close>

abbreviation goes_next_entry :: "merge_queue_entry \<Rightarrow> bool" where
  "goes_next_entry e \<equiv> 0 < en_position e \<and> en_status e \<noteq> Status_Blocked"

text \<open>What the loop knows while no entry has gone next: the turn is not taken, and while it is open
  every row passed over is held or blocked (\<open>N\<close>: their numbers).\<close>

definition passed_over :: "line_state \<Rightarrow> u32 set \<Rightarrow> bool" where
  "passed_over st N \<longleftrightarrow> ln_turn st \<noteq> Turn_Taken
     \<and> (ln_turn st = Turn_Open \<longrightarrow> N \<subseteq> dom (ln_held st) \<union> ln_blocked st)"

text \<open>What holds of the entry that goes next, per status.\<close>

definition clear_to_go :: "u32 set \<Rightarrow> u32 set \<Rightarrow> queue_row \<Rightarrow> merge_queue_entry \<Rightarrow> bool" where
  "clear_to_go queued passed row e \<longleftrightarrow>
     list_all (\<lambda>g. gt_state g \<noteq> Gate_Failed) (en_gates e)
     \<and> (case qr_depends_on row of None \<Rightarrow> True | Some d \<Rightarrow> d \<in> queued \<and> d \<notin> passed)"

definition next_up_ok ::
  "u32 set \<Rightarrow> line_context \<Rightarrow> u32 set \<Rightarrow> queue_row \<Rightarrow> merge_queue_entry \<Rightarrow> bool" where
  "next_up_ok queued ctx passed row e \<longleftrightarrow>
     failure_holds row = None \<and> (en_status e = Status_Watching \<longleftrightarrow> github_holds row \<noteq> None)
     \<and> (case en_status e of
          Status_Watching \<Rightarrow> True
        | Status_Verifying \<Rightarrow> is_running ctx row \<and> list_all (\<lambda>g. gt_state g \<noteq> Gate_Failed) (en_gates e)
        | Status_Paused \<Rightarrow> cx_paused ctx \<noteq> None \<and> clear_to_go queued passed row e
        | Status_WaitingForSlot \<Rightarrow> cx_paused ctx = None \<and> command_set ctx \<and> verification_holds row = None
            \<and> clear_to_go queued passed row e
        | Status_Ready \<Rightarrow> cx_paused ctx = None \<and> (command_set ctx \<longrightarrow> verification_holds row \<noteq> None)
            \<and> clear_to_go queued passed row e
        | _ \<Rightarrow> False)"

lemma verification_gate_not_failed:
  assumes "failure_holds row = None" and "command_set ctx \<longrightarrow> cx_refusal ctx = None"
  shows "gt_state (verification_gate row n ctx) \<noteq> Gate_Failed"
  using assms by (auto simp: verification_gate_def Let_def split: option.split)

lemma own_block_None:
  assumes "own_block queued ctx row review st = None"
  shows "list_all (\<lambda>g. gt_state g \<noteq> Gate_Failed) (row_gates ctx row review)"
    "command_set ctx \<longrightarrow> cx_refusal ctx = None"
    "case qr_depends_on row of None \<Rightarrow> True | Some d \<Rightarrow> d \<in> queued \<and> d \<notin> ln_blocked st"
  using assms by (auto simp: own_block_def gate_block_None dependency_block_def split: option.splits if_splits)

lemma ranked_verdict_cases:
  assumes "ranked_verdict queued ctx row review st = (status, reason, goes_next, st')"
  obtains
    (blocked) "status = Status_Blocked" "ln_blocked st' = insert (qr_number row) (ln_blocked st)"
      "ln_held st' = ln_held st" "ln_turn st' = ln_turn st \<or> (\<exists>n w. ln_turn st' = Turn_Held n w)"
  | (running) "status = Status_Verifying" "is_running ctx row" "own_block queued ctx row review st = None"
  | (held) n w where "status = Status_Blocked" "ln_turn st = Turn_Held n w" "st' = st"
  | (taken) "status = Status_Ready" "ln_turn st = Turn_Taken"
  | (goes) "ln_turn st = Turn_Open" "own_block queued ctx row review st = None"
      "status = (if cx_paused ctx \<noteq> None then Status_Paused
                 else if command_set ctx \<and> verification_holds row = None then Status_WaitingForSlot
                 else Status_Ready)"
proof (cases "own_block queued ctx row review st")
  case (Some why)
  with assms blocked show ?thesis by (auto simp: ranked_verdict_own Let_def split: if_splits)
next
  case None
  with assms running held taken goes show ?thesis
    by (auto simp: ranked_verdict_own Let_def split: if_splits turn.splits option.splits)
qed

lemma line_entry_next:
  assumes entry: "line_entry queued ctx row review st = (e, st')" and inv: "passed_over st N"
  shows "if goes_next_entry e then next_up_ok queued ctx N row e
         else passed_over st' (insert (qr_number row) N)"
proof (cases "failure_holds row")
  case (Some f)
  with entry inv show ?thesis
    by (auto simp: line_entry_def line_verdict_def passed_over_def Let_def split: if_splits)
next
  case no_failure: None
  show ?thesis
  proof (cases "Option.bind (qr_depends_on row) (\<lambda>d. map_option (Pair d) (ln_held st d))")
    case (Some dw)
    with no_failure entry inv show ?thesis
      by (cases dw) (auto simp: line_entry_def line_verdict_def passed_over_def Let_def)
  next
    case no_holder: None
    then have not_held: "case qr_depends_on row of None \<Rightarrow> True | Some d \<Rightarrow> d \<notin> dom (ln_held st)"
      by (auto split: option.splits)
    show ?thesis
    proof (cases "github_holds row")
      case (Some hold)
      with no_failure no_holder entry show ?thesis
        by (auto simp: line_entry_def line_verdict_def next_up_ok_def Let_def)
    next
      case None
      let ?st = "st\<lparr>ln_rank := ln_rank st + 1\<rparr>"
      obtain status reason goes_next st'' where v: "ranked_verdict queued ctx row review ?st = (status, reason, goes_next, st'')"
        by (metis prod_cases4)
      have e: "en_status e = status" "0 < en_position e" "st' = st''"
        and gates: "en_gates e = row_gates ctx row review @ [verification_gate row goes_next ctx]"
        using None no_failure no_holder entry v
        by (auto simp: line_entry_def line_verdict_def Let_def)
      note own = own_block_None [where st = ?st and queued = queued]
      have ok: "list_all (\<lambda>g. gt_state g \<noteq> Gate_Failed) (en_gates e)"
        if "own_block queued ctx row review ?st = None"
        using own(1,2) [OF that] verification_gate_not_failed [OF no_failure] by (simp add: gates)
      show ?thesis
        using v
      proof (cases rule: ranked_verdict_cases)
        case blocked
        with inv e show ?thesis by (auto simp: passed_over_def)
      next
        case running
        with e ok no_failure None show ?thesis by (simp add: next_up_ok_def)
      next
        case held
        with inv e show ?thesis by (simp add: passed_over_def)
      next
        case taken
        with inv show ?thesis by (simp add: passed_over_def)
      next
        case goes
        then have "N \<subseteq> dom (ln_held st) \<union> ln_blocked st" using inv by (simp add: passed_over_def)
        then have "clear_to_go queued N row e"
          using ok [OF goes(2)] own(3) [OF goes(2)] not_held
          by (auto simp: clear_to_go_def split: option.splits)
        with goes e no_failure None show ?thesis by (simp add: next_up_ok_def)
      qed
    qed
  qed
qed

lemma line_loop_next:
  assumes "passed_over st N" and "List.find goes_next_entry (line_loop queued ctx st xs) = Some e"
  shows "\<exists>i < length xs. line_loop queued ctx st xs ! i = e
    \<and> next_up_ok queued ctx (N \<union> qr_number ` fst ` set (take i xs)) (fst (xs ! i)) e
    \<and> (\<forall>j < i. \<not> goes_next_entry (line_loop queued ctx st xs ! j))"
  using assms
proof (induction queued ctx st xs arbitrary: N rule: line_loop.induct)
  case (2 queued ctx st row review rest)
  obtain e1 st' where es: "line_entry queued ctx row review st = (e1, st')" by fastforce
  note step = line_entry_next [OF es 2(2)]
  show ?case
  proof (cases "goes_next_entry e1")
    case True
    then show ?thesis using 2(3) step by (intro exI [of _ 0]) (simp add: es)
  next
    case False
    then have find: "List.find goes_next_entry (line_loop queued ctx st' rest) = Some e"
      using 2(3) by (auto simp: es)
    have "passed_over st' (insert (qr_number row) N)" using step False by simp
    from 2(1) [OF es [symmetric] refl this find] obtain i where i: "i < length rest"
      "line_loop queued ctx st' rest ! i = e"
      "next_up_ok queued ctx (insert (qr_number row) N \<union> qr_number ` fst ` set (take i rest)) (fst (rest ! i)) e"
      "\<forall>j < i. \<not> goes_next_entry (line_loop queued ctx st' rest ! j)" by blast
    have "\<not> goes_next_entry (line_loop queued ctx st ((row, review) # rest) ! j)" if "j < Suc i" for j
      using that i(4) False by (cases j) (auto simp: es)
    then show ?thesis using i by (intro exI [of _ "Suc i"]) (simp add: es)
  qed
qed simp

text \<open>C6: The entry that goes next, the only one the runner works on and the user's Merge accepts,
  has no failure for its head, and every entry before it is out of line or blocked. When it is
  ready, the queue is not paused, none of its gates has failed, a verification of its head on its
  base holds if a verification command is set, and it does not depend on any entry before it or
  on one that left the queue; when it waits for the slot, it has no verification yet. It is watched
  exactly when GitHub holds it.\<close>

theorem next_up_is_clear_to_go:
  assumes "next_up (line rows reviews ctx) = Some e"
  shows "\<exists>i < min (length rows) (length reviews).
     line rows reviews ctx ! i = e
     \<and> next_up_ok (qr_number ` set rows) ctx (qr_number ` set (take i rows)) (rows ! i) e
     \<and> (\<forall>j < i. en_position (line rows reviews ctx ! j) = 0
                 \<or> en_status (line rows reviews ctx ! j) = Status_Blocked)"
proof -
  have start: "passed_over line_start {}" by (simp add: passed_over_def line_start_def)
  from line_loop_next [OF start assms [unfolded next_up_def line_def]] obtain i
    where i: "i < length (zip rows reviews)" "line rows reviews ctx ! i = e"
    "next_up_ok (qr_number ` set rows) ctx ({} \<union> qr_number ` fst ` set (take i (zip rows reviews)))
        (fst (zip rows reviews ! i)) e"
    "\<forall>j < i. \<not> goes_next_entry (line rows reviews ctx ! j)"
    unfolding line_def by blast
  have "fst ` set (take i (zip rows reviews)) = set (map fst (take i (zip rows reviews)))" by simp
  also have "map fst (take i (zip rows reviews)) = take i rows"
    using i(1) by (simp add: take_map [symmetric] map_fst_zip_take)
  finally show ?thesis using i by auto
qed

definition sample_facts :: facts where
  "sample_facts = (facts_from_error ''x'' 5)\<lparr>fx_error := None, fx_unresolved_threads := Some 0\<rparr>"

definition idle_context :: line_context where
  "idle_context = \<lparr>cx_settings = None, cx_paused = None, cx_running = None,
     cx_worktrees = Map.empty, cx_refusal = None\<rparr>"

lemma next_up_is_clear_to_go_witness:
  "next_up_ok {2} idle_context {} ((sample_row 2 1 None)\<lparr>qr_facts := Some sample_facts\<rparr>)
     (line [(sample_row 2 1 None)\<lparr>qr_facts := Some sample_facts\<rparr>] [NotSlice] idle_context ! 0)"
proof -
  let ?row = "(sample_row 2 1 None)\<lparr>qr_facts := Some sample_facts\<rparr>"
  let ?line = "line [?row] [NotSlice] idle_context"
  have "next_up ?line = Some (?line ! 0)"
    by (simp add: next_up_def line_def line_entry_def line_verdict_def ranked_verdict_def row_gates_def
        gates_def mk_gate_def unread_reason_def threads_reason_def gate_block_def dependency_block_def
        command_set_def is_running_def failure_holds_def github_holds_def line_start_def idle_context_def
        sample_row_def sample_facts_def facts_from_error_def Let_def)
  from next_up_is_clear_to_go [OF this] show ?thesis by (simp add: sample_row_def)
qed

end
