(* ===== verification/Watchdog.thy ===== *)
theory Watchdog
  imports Bounded_Log
begin

text \<open>
  The webview watchdog's state machine (\<^verbatim>\<open>src-tauri/src/watchdog/machine.rs\<close>, with the log
  records of \<^verbatim>\<open>watchdog/log.rs\<close>). Every handler takes the machine, gives the actions it emits and
  the machine after it; \<open>on_event\<close> dispatches. Times and counters are naturals; the code's
  saturating operations are written out (subtraction on naturals saturates at 0), so an overflow
  of the 64-bit range has its effect. A round-trip percentile \<open>ceil (n * 0.99)\<close> is computed in
  double precision by the code and exactly here; the two agree for any window below \<open>2 ^ 32\<close>.
\<close>

section \<open>Data\<close>

record thresholds =
  probe_ms :: nat
  probe_hidden_ms :: nat
  warn_ms :: nat
  hang_ms :: nat
  confirm :: nat
  suspend_ms :: nat
  wall_step_ms :: nat
  grace_ms :: nat
  clock_tick_ms :: nat
  paint_ms :: nat
  reload_cooldown_ms :: nat
  reload_budget :: nat
  reload_window_ms :: nat
  boot_ms :: nat
  recover_ms :: nat
  prompt_timeout_ms :: nat
  dpr_poll_ms :: nat
  rtt_summary_probes :: nat

definition default_thresholds :: thresholds where
  "default_thresholds = \<lparr>probe_ms = 2000, probe_hidden_ms = 10000, warn_ms = 1500, hang_ms = 10000,
     confirm = 3, suspend_ms = 2000, wall_step_ms = 2000, grace_ms = 15000, clock_tick_ms = 1000,
     paint_ms = 5000, reload_cooldown_ms = 60000, reload_budget = 3, reload_window_ms = 10 * 60000,
     boot_ms = 30000, recover_ms = 20000, prompt_timeout_ms = 10000, dpr_poll_ms = 1000,
     rtt_summary_probes = 30\<rparr>"

datatype wd_state =
  Booting | Healthy | Suspect | Unresponsive | PaintStalled | Gone | Recovering | Halted

fun wd_state_str :: "wd_state \<Rightarrow> string" where
  "wd_state_str Booting = ''booting''"
| "wd_state_str Healthy = ''healthy''"
| "wd_state_str Suspect = ''suspect''"
| "wd_state_str Unresponsive = ''unresponsive''"
| "wd_state_str PaintStalled = ''paint-stalled''"
| "wd_state_str Gone = ''gone''"
| "wd_state_str Recovering = ''recovering''"
| "wd_state_str Halted = ''halted''"

definition wants_recovery :: "wd_state \<Rightarrow> bool" where
  "wants_recovery s \<longleftrightarrow> s = Unresponsive \<or> s = PaintStalled \<or> s = Gone"

datatype termination_reason = Crashed | ExceededMemoryLimit | TerminatedByApi

fun termination_str :: "termination_reason \<Rightarrow> string" where
  "termination_str Crashed = ''web-process-crashed''"
| "termination_str ExceededMemoryLimit = ''web-process-oom''"
| "termination_str TerminatedByApi = ''web-process-api''"

datatype event =
    Tick
  | PageLoaded
  | ProbeReturned nat
  | ProbeFailed
  | Suspended nat
  | WallStep int
  | Starved nat
  | WebProcessTerminated termination_reason
  | ResponsivenessChanged bool
  | InspectorAttached bool
  | WindowVisible bool
  | WindowFocused bool
  | PaintReport bool nat
  | ReloadRequested string
  | RecoveryConfirmed nat bool
  | RecoveryDeclined nat

datatype trigger =
    Trg_ProbeReturned nat
  | Trg_ProbeFailed nat bool
  | Trg_BootTimeout
  | Trg_Suspend nat
  | Trg_WallStep int
  | Trg_Starved nat
  | Trg_WebProcessTerminated termination_reason
  | Trg_Responsiveness bool
  | Trg_ProbeRttSummary nat nat nat nat nat
  | Trg_PaintReport bool nat
  | Trg_ReloadRequested string
  | Trg_RecoveryWithheld string
  | Trg_RecoveryStarted
  | Trg_RecoveryRung nat
  | Trg_PromptIssued
  | Trg_PromptAnswered bool
  | Trg_PromptDeclined
  | Trg_PromptStale
  | Trg_BudgetExhausted
  | Trg_LadderExhausted

record threshold_crossed =
  tc_name :: string
  tc_value :: nat
  tc_observed :: nat

definition crossing :: "string \<Rightarrow> nat \<Rightarrow> nat \<Rightarrow> threshold_crossed" where
  "crossing name threshold observed = \<lparr>tc_name = name, tc_value = threshold, tc_observed = observed\<rparr>"

record transition_log =
  tl_state :: string
  tl_prev_state :: string
  tl_trigger :: trigger
  tl_threshold_crossed :: "threshold_crossed option"
  tl_probe_rtt_ms :: "nat list"
  tl_incident_id :: "nat option"
  tl_incident_reason :: "string option"
  tl_suppressed :: "string option"

datatype title_state = Title_Normal | Title_NotResponding

datatype action =
    Log transition_log
  | DiscardOutstandingProbes
  | EmitWake nat
  | Reload
  | TerminateWebProcess
  | RecordReloadInPage
  | PromptThenRecover nat nat
  | SetTitle title_state

datatype reload_block = Cooldown | BudgetExhausted

record incident =
  ic_id :: nat
  ic_reason :: string
  ic_rung :: nat
  ic_rung_issued_ms :: "nat option"
  ic_expecting_api_termination :: bool
  ic_prompt_deadline_ms :: "nat option"

record machine =
  m_state :: wd_state
  m_thresholds :: thresholds
  m_failures :: nat
  m_grace_until_ms :: "nat option"
  m_inspector_attached :: bool
  m_window_visible :: bool
  m_window_focused :: bool
  m_responsive :: bool
  m_reloads :: "nat list"
  m_last_reload_ms :: "nat option"
  m_recovery_enabled :: bool
  m_navigation_required :: bool
  m_incident :: "incident option"
  m_next_incident_id :: nat
  m_booting_since_ms :: nat
  m_rtt_history :: "nat list"
  m_withheld_logged :: "string option"
  m_rtt_window :: "nat list"

definition RTT_HISTORY_LEN :: nat where "RTT_HISTORY_LEN = 16"

definition sat64 :: "nat \<Rightarrow> nat" where "sat64 n = min n (2 ^ 64 - 1)"
definition sat32 :: "nat \<Rightarrow> nat" where "sat32 n = min n (2 ^ 32 - 1)"

definition summarise :: "nat list \<Rightarrow> trigger" where
  "summarise window =
     (let w = sort window; n = length w;
          rank = (\<lambda>percent. w ! (max 1 (min n ((n * percent + 99) div 100)) - 1))
      in Trg_ProbeRttSummary n (w ! 0) (rank 50) (rank 99) (w ! (n - 1)))"

definition machine_new :: "thresholds \<Rightarrow> bool \<Rightarrow> nat \<Rightarrow> machine" where
  "machine_new t recovery_enabled now =
     \<lparr>m_state = Booting, m_thresholds = t, m_failures = 0, m_grace_until_ms = None,
      m_inspector_attached = False, m_window_visible = True, m_window_focused = True,
      m_responsive = True, m_reloads = [], m_last_reload_ms = None,
      m_recovery_enabled = recovery_enabled, m_navigation_required = False, m_incident = None,
      m_next_incident_id = 1, m_booting_since_ms = now, m_rtt_history = [],
      m_withheld_logged = None, m_rtt_window = []\<rparr>"

definition probe_period_ms :: "machine \<Rightarrow> nat" where
  "probe_period_ms m =
     (if m_window_visible m then probe_ms (m_thresholds m) else probe_hidden_ms (m_thresholds m))"

section \<open>Helpers of the handlers\<close>

definition suppression_reason :: "nat \<Rightarrow> machine \<Rightarrow> string option" where
  "suppression_reason now m =
     (if m_inspector_attached m then Some ''inspector-attached''
      else if \<not> m_window_visible m then Some ''window-not-visible''
      else if (case m_grace_until_ms m of Some until \<Rightarrow> now < until | None \<Rightarrow> False)
        then Some ''post-wake-grace''
      else None)"

definition wd_log :: "machine \<Rightarrow> wd_state \<Rightarrow> trigger \<Rightarrow> threshold_crossed option \<Rightarrow> action" where
  "wd_log m prev trigger crossed =
     Log \<lparr>tl_state = wd_state_str (m_state m), tl_prev_state = wd_state_str prev, tl_trigger = trigger,
          tl_threshold_crossed = crossed, tl_probe_rtt_ms = m_rtt_history m,
          tl_incident_id = map_option ic_id (m_incident m),
          tl_incident_reason = map_option ic_reason (m_incident m), tl_suppressed = None\<rparr>"

definition open_incident :: "string \<Rightarrow> machine \<Rightarrow> machine" where
  "open_incident reason m =
     (if m_incident m \<noteq> None then m
      else m\<lparr>m_next_incident_id := m_next_incident_id m + 1,
             m_withheld_logged := None,
             m_incident := Some \<lparr>ic_id = m_next_incident_id m, ic_reason = reason, ic_rung = 0,
                                 ic_rung_issued_ms = None, ic_expecting_api_termination = False,
                                 ic_prompt_deadline_ms = None\<rparr>\<rparr>)"

definition enter_unresponsive :: "string \<Rightarrow> machine \<Rightarrow> machine" where
  "enter_unresponsive reason m = open_incident reason (m\<lparr>m_state := Unresponsive\<rparr>)"

definition paint_incident :: "machine \<Rightarrow> bool" where
  "paint_incident m = (case m_incident m of Some i \<Rightarrow> ic_reason i = ''compositor-stall'' | None \<Rightarrow> False)"

definition prompt_identity :: "machine \<Rightarrow> (nat \<times> nat) option" where
  "prompt_identity m =
     (case m_incident m of
        None \<Rightarrow> None
      | Some i \<Rightarrow> map_option (Pair (ic_id i)) (ic_prompt_deadline_ms i))"

definition close_incident :: "machine \<Rightarrow> machine" where
  "close_incident m = m\<lparr>m_incident := None, m_failures := 0, m_withheld_logged := None\<rparr>"

definition update_incident :: "(incident \<Rightarrow> incident) \<Rightarrow> machine \<Rightarrow> machine" where
  "update_incident f m = m\<lparr>m_incident := map_option f (m_incident m)\<rparr>"

definition log_withheld :: "wd_state \<Rightarrow> string \<Rightarrow> machine \<Rightarrow> action list \<times> machine" where
  "log_withheld prev reason m =
     (if m_withheld_logged m = Some reason then ([], m)
      else ([Log \<lparr>tl_state = wd_state_str (m_state m), tl_prev_state = wd_state_str prev,
                  tl_trigger = Trg_RecoveryWithheld reason, tl_threshold_crossed = None,
                  tl_probe_rtt_ms = m_rtt_history m,
                  tl_incident_id = map_option ic_id (m_incident m),
                  tl_incident_reason = map_option ic_reason (m_incident m),
                  tl_suppressed = Some reason\<rparr>],
            m\<lparr>m_withheld_logged := Some reason\<rparr>))"

definition reload_block :: "nat \<Rightarrow> machine \<Rightarrow> reload_block option \<times> machine" where
  "reload_block now m =
     (let window_start = now - reload_window_ms (m_thresholds m);
          m' = m\<lparr>m_reloads := dropWhile (\<lambda>t. t < window_start) (m_reloads m)\<rparr>
      in (if reload_budget (m_thresholds m) \<le> length (m_reloads m') then Some BudgetExhausted
          else case m_last_reload_ms m of
            Some recent \<Rightarrow> if now - recent < reload_cooldown_ms (m_thresholds m) then Some Cooldown else None
          | None \<Rightarrow> None,
          m'))"

definition record_reload :: "nat \<Rightarrow> machine \<Rightarrow> machine" where
  "record_reload now m =
     m\<lparr>m_reloads := m_reloads m @ [now], m_last_reload_ms := Some now, m_booting_since_ms := now\<rparr>"

definition note_reload_issued :: "nat \<Rightarrow> machine \<Rightarrow> machine" where
  "note_reload_issued now m = m\<lparr>m_navigation_required := True, m_booting_since_ms := now\<rparr>"

definition issue_rung :: "nat \<Rightarrow> bool \<Rightarrow> machine \<Rightarrow> action list \<times> machine" where
  "issue_rung now automatic m =
     (let prev = m_state m
      in case m_incident m of
        None \<Rightarrow> ([], m)
      | Some incident \<Rightarrow>
          if 2 \<le> ic_rung incident then
            (let m' = m\<lparr>m_state := Halted\<rparr>
             in ([wd_log m' prev Trg_LadderExhausted None, SetTitle Title_NotResponding], m'))
          else case (if automatic then suppression_reason now m else None) of
            Some reason \<Rightarrow> log_withheld prev reason m
          | None \<Rightarrow>
              (case reload_block now m of
                 (Some BudgetExhausted, m1) \<Rightarrow>
                   (let m' = m1\<lparr>m_state := Halted\<rparr>
                    in ([wd_log m' prev Trg_BudgetExhausted None, SetTitle Title_NotResponding], m'))
               | (Some Cooldown, m1) \<Rightarrow> log_withheld prev ''reload-cooldown'' m1
               | (None, m1) \<Rightarrow>
                   (let rung = ic_rung incident + 1;
                        i' = incident\<lparr>ic_rung := rung, ic_rung_issued_ms := Some now,
                               ic_expecting_api_termination :=
                                 (if rung = 2 then True else ic_expecting_api_termination incident)\<rparr>;
                        m' = record_reload now
                               (m1\<lparr>m_withheld_logged := None, m_incident := Some i', m_state := Recovering\<rparr>)
                    in (wd_log m' prev (Trg_RecoveryRung rung) None
                          # (if rung = 1 then [RecordReloadInPage, Reload]
                             else [TerminateWebProcess, Reload]),
                        m'))))"

definition maybe_recover :: "nat \<Rightarrow> machine \<Rightarrow> action list \<times> machine" where
  "maybe_recover now m =
     (let prev = m_state m;
          title = SetTitle Title_NotResponding
      in if \<not> m_recovery_enabled m then
           (let (acts, m') = log_withheld prev ''detect-only'' m in (title # acts, m'))
         else case suppression_reason now m of
           Some reason \<Rightarrow> (let (acts, m') = log_withheld prev reason m in (title # acts, m'))
         | None \<Rightarrow>
             (case reload_block now m of
                (Some BudgetExhausted, m1) \<Rightarrow>
                  (let m' = m1\<lparr>m_state := Halted\<rparr>
                   in ([title, wd_log m' prev Trg_BudgetExhausted None, SetTitle Title_NotResponding], m'))
              | (Some Cooldown, m1) \<Rightarrow>
                  (let (acts, m') = log_withheld prev ''reload-cooldown'' m1 in (title # acts, m'))
              | (None, m1) \<Rightarrow>
                  if m_window_focused m1 then
                    (let deadline = sat64 (now + prompt_timeout_ms (m_thresholds m1))
                     in if (case m_incident m1 of Some i \<Rightarrow> ic_prompt_deadline_ms i \<noteq> None | None \<Rightarrow> False)
                        then ([title], m1)
                        else (let m' = (update_incident (\<lambda>i. i\<lparr>ic_prompt_deadline_ms := Some deadline\<rparr>) m1)
                                         \<lparr>m_state := Recovering\<rparr>
                              in ([title, wd_log m' prev Trg_PromptIssued None,
                                   PromptThenRecover (ic_id (the (m_incident m'))) deadline], m')))
                  else
                    (let m' = m1\<lparr>m_state := Recovering\<rparr>;
                         (acts, m'') = issue_rung now True m'
                     in (title # wd_log m' prev Trg_RecoveryStarted None # acts, m''))))"

section \<open>Event handlers\<close>

definition on_page_loaded :: "nat \<Rightarrow> machine \<Rightarrow> action list \<times> machine" where
  "on_page_loaded now m =
     (let m1 = m\<lparr>m_navigation_required := False, m_booting_since_ms := now\<rparr>
      in ([DiscardOutstandingProbes],
          if m_state m1 = Gone \<or> m_state m1 = Halted then (close_incident m1)\<lparr>m_state := Booting\<rparr> else m1))"

definition rtt_push :: "nat list \<Rightarrow> nat \<Rightarrow> nat list" where
  "rtt_push history rtt =
     (let h = history @ [rtt] in drop (length h - RTT_HISTORY_LEN) h)"

definition rtt_record :: "nat \<Rightarrow> machine \<Rightarrow> action list \<times> machine" where
  "rtt_record rtt m =
     (let m1 = m\<lparr>m_rtt_history := rtt_push (m_rtt_history m) rtt, m_rtt_window := m_rtt_window m @ [rtt]\<rparr>
      in if rtt_summary_probes (m_thresholds m) \<le> length (m_rtt_window m1)
         then (let m2 = m1\<lparr>m_rtt_window := []\<rparr>
               in ([wd_log m2 (m_state m) (summarise (m_rtt_window m1)) None], m2))
         else ([], m1))"

definition on_probe_returned :: "nat \<Rightarrow> machine \<Rightarrow> action list \<times> machine" where
  "on_probe_returned rtt m =
     (if m_navigation_required m then ([], m)
      else
        (let prev = m_state m;
             (acts, m1) = rtt_record rtt m;
             m2 = m1\<lparr>m_failures := 0\<rparr>;
             crossed = (if warn_ms (m_thresholds m) \<le> rtt
                        then Some (crossing ''T_warn'' (warn_ms (m_thresholds m)) rtt) else None)
         in if m_state m2 = Recovering \<and> paint_incident m2 then (acts, m2)
            else if m_state m2 \<in> {Booting, Suspect, Recovering, Unresponsive} then
              (let m3 = close_incident (m2\<lparr>m_state := Healthy\<rparr>)
               in (acts @ [wd_log m3 prev (Trg_ProbeReturned rtt) crossed, SetTitle Title_Normal], m3))
            else if m_state m2 = Healthy \<and> crossed \<noteq> None
              then (acts @ [wd_log m2 prev (Trg_ProbeReturned rtt) crossed], m2)
            else (acts, m2)))"

definition on_probe_failed :: "nat \<Rightarrow> machine \<Rightarrow> action list \<times> machine" where
  "on_probe_failed now m =
     (let prev = m_state m;
          m1 = m\<lparr>m_failures := sat32 (m_failures m + 1)\<rparr>;
          hang = hang_ms (m_thresholds m);
          crossed = crossing ''T_hang'' hang hang;
          trg = Trg_ProbeFailed (m_failures m1) (m_responsive m1)
      in if m_state m1 = Healthy \<or> m_state m1 = Booting then
           (let m2 = m1\<lparr>m_state := Suspect\<rparr> in ([wd_log m2 prev trg (Some crossed)], m2))
         else if m_state m1 = Suspect then
           (if confirm (m_thresholds m) \<le> m_failures m1 then
              (let m2 = enter_unresponsive ''js-hang'' m1;
                   (acts, m3) = maybe_recover now m2
               in (wd_log m2 prev trg (Some (crossing ''N_confirm'' (confirm (m_thresholds m)) (m_failures m1))) # acts, m3))
            else ([wd_log m1 prev trg (Some crossed)], m1))
         else ([], m1))"

definition on_suspended :: "nat \<Rightarrow> nat \<Rightarrow> machine \<Rightarrow> action list \<times> machine" where
  "on_suspended now suspended m =
     (let m1 = m\<lparr>m_grace_until_ms := Some (sat64 (now + grace_ms (m_thresholds m))), m_failures := 0\<rparr>
      in ([DiscardOutstandingProbes, EmitWake suspended,
           wd_log m1 (m_state m) (Trg_Suspend suspended)
             (Some (crossing ''T_suspend'' (suspend_ms (m_thresholds m)) suspended))], m1))"

definition on_starved :: "nat \<Rightarrow> machine \<Rightarrow> action list \<times> machine" where
  "on_starved by_ms m =
     (let m1 = m\<lparr>m_failures := 0\<rparr>
      in ([DiscardOutstandingProbes, wd_log m1 (m_state m) (Trg_Starved by_ms) None], m1))"

definition on_web_process_terminated :: "nat \<Rightarrow> termination_reason \<Rightarrow> machine \<Rightarrow> action list \<times> machine" where
  "on_web_process_terminated now reason m =
     (let prev = m_state m;
          expected = ((case m_incident m of Some i \<Rightarrow> ic_expecting_api_termination i | None \<Rightarrow> False)
                      \<and> reason = TerminatedByApi);
          m1 = update_incident (\<lambda>i. i\<lparr>ic_expecting_api_termination := False\<rparr>)
                 (m\<lparr>m_navigation_required := True\<rparr>)
      in if expected \<or> m_state m1 = Halted
         then ([DiscardOutstandingProbes, wd_log m1 prev (Trg_WebProcessTerminated reason) None], m1)
         else (let m2 = open_incident (termination_str reason) (m1\<lparr>m_state := Gone\<rparr>);
                   (acts, m3) = maybe_recover now m2
               in (DiscardOutstandingProbes # wd_log m2 prev (Trg_WebProcessTerminated reason) None # acts, m3)))"

definition on_responsiveness :: "bool \<Rightarrow> machine \<Rightarrow> action list \<times> machine" where
  "on_responsiveness responsive m =
     (if responsive = m_responsive m then ([], m)
      else (let m1 = m\<lparr>m_responsive := responsive\<rparr>
            in ([wd_log m1 (m_state m) (Trg_Responsiveness responsive) None], m1)))"

definition on_paint_report :: "nat \<Rightarrow> bool \<Rightarrow> nat \<Rightarrow> machine \<Rightarrow> action list \<times> machine" where
  "on_paint_report now ok gap m =
     (if \<not> m_window_visible m \<or> m_navigation_required m then ([], m)
      else if \<not> ok \<and> m_state m = Healthy then
        (let m1 = open_incident ''compositor-stall'' (m\<lparr>m_state := PaintStalled\<rparr>);
             (acts, m2) = maybe_recover now m1
         in (wd_log m1 (m_state m) (Trg_PaintReport ok gap)
               (Some (crossing ''T_paint'' (paint_ms (m_thresholds m)) gap)) # acts, m2))
      else if ok \<and> (m_state m = PaintStalled \<or> m_state m = Recovering) \<and> paint_incident m
              \<and> gap \<le> paint_ms (m_thresholds m) then
        (let m1 = close_incident (m\<lparr>m_state := Healthy\<rparr>)
         in ([wd_log m1 (m_state m) (Trg_PaintReport ok gap) None, SetTitle Title_Normal], m1))
      else ([], m))"

definition on_reload_requested :: "nat \<Rightarrow> string \<Rightarrow> machine \<Rightarrow> action list \<times> machine" where
  "on_reload_requested now reason m =
     (let m1 = (open_incident (''renderer-requested:'' @ reason) (close_incident m))\<lparr>m_state := Recovering\<rparr>;
          (acts, m2) = issue_rung now False m1
      in (wd_log m1 (m_state m) (Trg_ReloadRequested reason) None # acts, m2))"

definition clear_prompt :: "machine \<Rightarrow> machine" where
  "clear_prompt = update_incident (\<lambda>i. i\<lparr>ic_prompt_deadline_ms := None\<rparr>)"

definition on_recovery_confirmed :: "nat \<Rightarrow> nat \<Rightarrow> bool \<Rightarrow> machine \<Rightarrow> action list \<times> machine" where
  "on_recovery_confirmed now incident_id timed_out m =
     (if map_option fst (prompt_identity m) \<noteq> Some incident_id
      then ([wd_log m (m_state m) Trg_PromptStale None], m)
      else
        (let expired = (case prompt_identity m of Some (_, deadline) \<Rightarrow> deadline \<le> now | None \<Rightarrow> False);
             m1 = clear_prompt m;
             (acts, m2) = issue_rung now True m1
         in (wd_log m1 (m_state m) (Trg_PromptAnswered (timed_out \<or> expired)) None # acts, m2)))"

definition on_recovery_declined :: "nat \<Rightarrow> nat \<Rightarrow> machine \<Rightarrow> action list \<times> machine" where
  "on_recovery_declined now incident_id m =
     (if map_option fst (prompt_identity m) \<noteq> Some incident_id
      then ([wd_log m (m_state m) Trg_PromptStale None], m)
      else if (case prompt_identity m of Some (_, deadline) \<Rightarrow> deadline \<le> now | None \<Rightarrow> False)
        then on_recovery_confirmed now incident_id True m
      else (let m1 = (clear_prompt m)\<lparr>m_state := Halted\<rparr>
            in ([wd_log m1 (m_state m) Trg_PromptDeclined None, SetTitle Title_NotResponding], m1)))"

definition on_tick :: "nat \<Rightarrow> machine \<Rightarrow> action list \<times> machine" where
  "on_tick now m =
     (let prev = m_state m; t = m_thresholds m
      in if m_state m = Booting \<and> boot_ms t \<le> now - m_booting_since_ms m then
           (let m1 = enter_unresponsive ''boot-timeout'' m;
                (acts, m2) = maybe_recover now m1
            in (wd_log m1 prev Trg_BootTimeout
                  (Some (crossing ''T_boot'' (boot_ms t) (now - m_booting_since_ms m))) # acts, m2))
         else if (case prompt_identity m of Some (_, deadline) \<Rightarrow> deadline \<le> now | None \<Rightarrow> False) then
           (let m1 = clear_prompt m;
                (acts, m2) = issue_rung now True m1
            in (wd_log m1 prev (Trg_PromptAnswered True) None # acts, m2))
         else if m_state m = Recovering
                 \<and> (case Option.bind (m_incident m) ic_rung_issued_ms of
                      Some issued \<Rightarrow> recover_ms t \<le> now - issued | None \<Rightarrow> False)
           then issue_rung now True m
         else if m_state m = Recovering
                 \<and> (case m_incident m of
                      Some i \<Rightarrow> ic_rung_issued_ms i = None \<and> ic_prompt_deadline_ms i = None | None \<Rightarrow> False)
           then issue_rung now True m
         else if wants_recovery (m_state m) then maybe_recover now m
         else ([], m))"

fun on_event :: "event \<Rightarrow> nat \<Rightarrow> machine \<Rightarrow> action list \<times> machine" where
  "on_event PageLoaded now m = on_page_loaded now m"
| "on_event Tick now m = on_tick now m"
| "on_event (ProbeReturned rtt) now m = on_probe_returned rtt m"
| "on_event ProbeFailed now m = on_probe_failed now m"
| "on_event (Suspended ms) now m = on_suspended now ms m"
| "on_event (WallStep ms) now m = ([wd_log m (m_state m) (Trg_WallStep ms) None], m)"
| "on_event (Starved ms) now m = on_starved ms m"
| "on_event (WebProcessTerminated reason) now m = on_web_process_terminated now reason m"
| "on_event (ResponsivenessChanged r) now m = on_responsiveness r m"
| "on_event (InspectorAttached a) now m = ([], m\<lparr>m_inspector_attached := a\<rparr>)"
| "on_event (WindowVisible v) now m = ([], m\<lparr>m_window_visible := v\<rparr>)"
| "on_event (WindowFocused f) now m = ([], m\<lparr>m_window_focused := f\<rparr>)"
| "on_event (PaintReport ok gap) now m = on_paint_report now ok gap m"
| "on_event (ReloadRequested reason) now m = on_reload_requested now reason m"
| "on_event (RecoveryConfirmed i t) now m = on_recovery_confirmed now i t m"
| "on_event (RecoveryDeclined i) now m = on_recovery_declined now i m"

section \<open>What one event can do to the reload budget\<close>

text \<open>A handler may prune reloads that left the window and may issue at most one reload, and only
  when the pruned list is below the budget, the cooldown since the last one is over, and (unless
  the page itself asked, \<open>user\<close>) nothing suppresses recovery.\<close>

definition reload_due :: "nat \<Rightarrow> machine \<Rightarrow> nat list" where
  "reload_due now m = dropWhile (\<lambda>t. t < now - reload_window_ms (m_thresholds m)) (m_reloads m)"

definition may_reload :: "nat \<Rightarrow> machine \<Rightarrow> bool" where
  "may_reload now m \<longleftrightarrow> length (reload_due now m) < reload_budget (m_thresholds m)
     \<and> (case m_last_reload_ms m of None \<Rightarrow> True
        | Some l \<Rightarrow> reload_cooldown_ms (m_thresholds m) \<le> now - l)"

definition reload_effect :: "nat \<Rightarrow> bool \<Rightarrow> machine \<Rightarrow> action list \<times> machine \<Rightarrow> bool" where
  "reload_effect now user m r \<longleftrightarrow>
     m_thresholds (snd r) = m_thresholds m
     \<and> (Reload \<notin> set (fst r) \<and> TerminateWebProcess \<notin> set (fst r)
          \<and> m_last_reload_ms (snd r) = m_last_reload_ms m
          \<and> (m_reloads (snd r) = m_reloads m \<or> m_reloads (snd r) = reload_due now m)
        \<or> length (filter ((=) Reload) (fst r)) = 1 \<and> may_reload now m
          \<and> (user \<or> suppression_reason now m = None)
          \<and> m_last_reload_ms (snd r) = Some now \<and> m_reloads (snd r) = reload_due now m @ [now])"

lemma reload_block_eq:
  "reload_block now m = (ob, m') \<Longrightarrow>
     m' = m\<lparr>m_reloads := reload_due now m\<rparr> \<and> (ob = None \<longleftrightarrow> may_reload now m)"
  by (auto simp: reload_block_def reload_due_def may_reload_def Let_def split: option.splits if_splits)

lemma reload_due_idem:
  "reload_due now (m\<lparr>m_reloads := reload_due now m\<rparr>) = reload_due now m"
  by (simp add: reload_due_def dropWhile_idem)

lemma wd_log_simps [simp]: "wd_log m p t c \<noteq> Reload" "wd_log m p t c \<noteq> TerminateWebProcess"
  "Reload \<noteq> wd_log m p t c" "TerminateWebProcess \<noteq> wd_log m p t c"
  by (simp_all add: wd_log_def)

lemma log_withheld_effect:
  "log_withheld prev reason m = (acts, m') \<Longrightarrow>
     Reload \<notin> set acts \<and> TerminateWebProcess \<notin> set acts \<and> (m' = m \<or> m' = m\<lparr>m_withheld_logged := Some reason\<rparr>)"
  by (auto simp: log_withheld_def split: if_splits)

definition rung_issued :: "nat \<Rightarrow> incident \<Rightarrow> machine \<Rightarrow> machine" where
  "rung_issued now i m =
     record_reload now (m\<lparr>m_reloads := reload_due now m, m_withheld_logged := None,
       m_incident := Some (i\<lparr>ic_rung := ic_rung i + 1, ic_rung_issued_ms := Some now,
         ic_expecting_api_termination :=
           (if ic_rung i + 1 = 2 then True else ic_expecting_api_termination i)\<rparr>),
       m_state := Recovering\<rparr>)"

lemma issue_rung_cases [consumes 1, case_names no_incident ladder withheld budget rung]:
  assumes "issue_rung now automatic m = (acts, m')"
  obtains
    "m_incident m = None" "acts = []" "m' = m"
  | i where "m_incident m = Some i" "2 \<le> ic_rung i" "m' = m\<lparr>m_state := Halted\<rparr>"
      "acts = [wd_log m' (m_state m) Trg_LadderExhausted None, SetTitle Title_NotResponding]"
  | i reason m1 where "m_incident m = Some i" "ic_rung i < 2" "log_withheld (m_state m) reason m1 = (acts, m')"
      "m1 = m \<or> m1 = m\<lparr>m_reloads := reload_due now m\<rparr>"
  | i where "m_incident m = Some i" "ic_rung i < 2" "m' = m\<lparr>m_reloads := reload_due now m, m_state := Halted\<rparr>"
      "acts = [wd_log m' (m_state m) Trg_BudgetExhausted None, SetTitle Title_NotResponding]"
  | i where "m_incident m = Some i" "ic_rung i < 2" "automatic \<longrightarrow> suppression_reason now m = None"
      "may_reload now m" "m' = rung_issued now i m"
      "acts = wd_log m' (m_state m) (Trg_RecoveryRung (ic_rung i + 1)) None
                # (if ic_rung i + 1 = 1 then [RecordReloadInPage, Reload] else [TerminateWebProcess, Reload])"
proof (cases "m_incident m")
  case None
  then have "acts = [] \<and> m' = m" using assms by (auto simp: issue_rung_def)
  with that(1) None show ?thesis by blast
next
  case (Some i)
  show ?thesis
  proof (cases "2 \<le> ic_rung i")
    case True
    then have "m' = m\<lparr>m_state := Halted\<rparr> \<and>
        acts = [wd_log m' (m_state m) Trg_LadderExhausted None, SetTitle Title_NotResponding]"
      using assms Some by (auto simp: issue_rung_def Let_def)
    with that(2) Some True show ?thesis by blast
  next
    case low: False
    show ?thesis
    proof (cases "if automatic then suppression_reason now m else None")
      case (Some reason)
      then have "log_withheld (m_state m) reason m = (acts, m')"
        using assms low \<open>m_incident m = Some i\<close> by (simp add: issue_rung_def Let_def)
      with that(3) low \<open>m_incident m = Some i\<close> show ?thesis by force
    next
      case None
      obtain ob m1 where rb: "reload_block now m = (ob, m1)" by fastforce
      note eq = reload_block_eq [OF rb]
      show ?thesis
      proof (cases ob)
        case none: None
        have "m' = rung_issued now i m \<and> acts = wd_log m' (m_state m) (Trg_RecoveryRung (ic_rung i + 1)) None
                # (if ic_rung i + 1 = 1 then [RecordReloadInPage, Reload] else [TerminateWebProcess, Reload])"
          using assms low conjunct1 [OF eq]
          unfolding issue_rung_def Let_def Some option.case None rb none prod.case
          by (auto simp: rung_issued_def)
        moreover have "automatic \<longrightarrow> suppression_reason now m = None" using None by (simp split: if_splits)
        moreover have "may_reload now m" using eq none by simp
        ultimately show ?thesis using that(5) [OF Some] low by simp
      next
        case (Some b)
        have i: "m_incident m = Some i" "ic_rung i < 2" using \<open>m_incident m = Some i\<close> low by simp_all
        have m1: "m1 = m\<lparr>m_reloads := reload_due now m\<rparr>" using eq by simp
        show ?thesis
        proof (cases b)
          case Cooldown
          then have "log_withheld (m_state m) ''reload-cooldown'' m1 = (acts, m')"
            using assms low i None rb Some by (simp add: issue_rung_def Let_def)
          with that(3) i m1 show ?thesis by blast
        next
          case BudgetExhausted
          then have "m' = m1\<lparr>m_state := Halted\<rparr> \<and>
              acts = [wd_log m' (m_state m) Trg_BudgetExhausted None, SetTitle Title_NotResponding]"
            using assms low i None rb Some by (auto simp: issue_rung_def Let_def)
          with that(4) i m1 show ?thesis by simp
        qed
      qed
    qed
  qed
qed

lemma rung_issued_simps [simp]:
  "m_thresholds (rung_issued now i m) = m_thresholds m"
  "m_last_reload_ms (rung_issued now i m) = Some now"
  "m_reloads (rung_issued now i m) = reload_due now m @ [now]"
  "m_state (rung_issued now i m) = Recovering"
  "m_next_incident_id (rung_issued now i m) = m_next_incident_id m"
  "m_recovery_enabled (rung_issued now i m) = m_recovery_enabled m"
  "m_incident (rung_issued now i m) = Some (i\<lparr>ic_rung := ic_rung i + 1, ic_rung_issued_ms := Some now,
         ic_expecting_api_termination :=
           (if ic_rung i + 1 = 2 then True else ic_expecting_api_termination i)\<rparr>)"
  by (simp_all add: rung_issued_def record_reload_def)

lemma issue_rung_effect: "reload_effect now (\<not> automatic) m (issue_rung now automatic m)"
proof -
  obtain acts m' where r: "issue_rung now automatic m = (acts, m')" by fastforce
  then show ?thesis
  proof (cases rule: issue_rung_cases)
    case (withheld i reason m1)
    from log_withheld_effect [OF withheld(3)] withheld(4) show ?thesis
      by (auto simp: r reload_effect_def)
  next
    case (rung i)
    then show ?thesis by (cases "ic_rung i = 0") (simp_all add: r reload_effect_def)
  qed (simp_all add: r reload_effect_def)
qed

lemma maybe_recover_cases [consumes 1, case_names detect_only withheld budget prompted prompt rung]:
  assumes "maybe_recover now m = (acts, m')"
  obtains
    acts1 where "\<not> m_recovery_enabled m" "log_withheld (m_state m) ''detect-only'' m = (acts1, m')"
      "acts = SetTitle Title_NotResponding # acts1"
  | acts1 m1 reason where "m_recovery_enabled m" "log_withheld (m_state m) reason m1 = (acts1, m')"
      "m1 = m \<or> m1 = m\<lparr>m_reloads := reload_due now m\<rparr>" "acts = SetTitle Title_NotResponding # acts1"
  | "m_recovery_enabled m" "m' = m\<lparr>m_reloads := reload_due now m, m_state := Halted\<rparr>"
      "acts = [SetTitle Title_NotResponding, wd_log m' (m_state m) Trg_BudgetExhausted None, SetTitle Title_NotResponding]"
  | "m_recovery_enabled m" "m' = m\<lparr>m_reloads := reload_due now m\<rparr>" "acts = [SetTitle Title_NotResponding]"
      "suppression_reason now m = None"
  | deadline where "m_recovery_enabled m" "suppression_reason now m = None"
      "m' = (update_incident (\<lambda>i. i\<lparr>ic_prompt_deadline_ms := Some deadline\<rparr>) (m\<lparr>m_reloads := reload_due now m\<rparr>))
              \<lparr>m_state := Recovering\<rparr>"
      "acts = [SetTitle Title_NotResponding, wd_log m' (m_state m) Trg_PromptIssued None,
               PromptThenRecover (ic_id (the (m_incident m'))) deadline]"
  | m1 acts1 where "m_recovery_enabled m" "suppression_reason now m = None"
      "m1 = m\<lparr>m_reloads := reload_due now m, m_state := Recovering\<rparr>"
      "issue_rung now True m1 = (acts1, m')"
      "acts = SetTitle Title_NotResponding # wd_log m1 (m_state m) Trg_RecoveryStarted None # acts1"
proof (cases "m_recovery_enabled m")
  case False
  with assms that(1) show ?thesis by (auto simp: maybe_recover_def Let_def split: prod.splits)
next
  case enabled: True
  show ?thesis
  proof (cases "suppression_reason now m")
    case (Some reason)
    with assms enabled that(2) show ?thesis by (auto simp: maybe_recover_def Let_def split: prod.splits)
  next
    case free: None
    obtain ob m1 where rb: "reload_block now m = (ob, m1)" by fastforce
    note eq = reload_block_eq [OF rb]
    show ?thesis
    proof (cases ob)
      case (Some b)
      with assms enabled free rb eq that(2,3) show ?thesis
        by (cases b) (auto simp: maybe_recover_def Let_def split: prod.splits)
    next
      case None
      show ?thesis
      proof (cases "m_window_focused m")
        case True
        with assms enabled free rb eq None that(4,5) show ?thesis
          by (auto simp: maybe_recover_def Let_def split: if_splits)
      next
        case False
        with assms enabled free rb eq None that(6) show ?thesis
          by (auto simp: maybe_recover_def Let_def split: prod.splits)
      qed
    qed
  qed
qed

lemma may_reload_due [simp]:
  "may_reload now (m\<lparr>m_reloads := reload_due now m\<rparr>) = may_reload now m"
  "may_reload now (m\<lparr>m_reloads := reload_due now m, m_state := s\<rparr>) = may_reload now m"
  "reload_due now (m\<lparr>m_reloads := reload_due now m, m_state := s\<rparr>) = reload_due now m"
  "suppression_reason now (m\<lparr>m_reloads := rs, m_state := s\<rparr>) = suppression_reason now m"
  by (simp_all add: suppression_reason_def may_reload_def reload_due_def dropWhile_idem split: option.split)

lemma maybe_recover_effect: "reload_effect now user m (maybe_recover now m)"
proof -
  obtain acts m' where r: "maybe_recover now m = (acts, m')" by fastforce
  then show ?thesis
  proof (cases rule: maybe_recover_cases)
    case (rung m1 acts1)
    with issue_rung_effect [of now True m1] r show ?thesis by (auto simp: reload_effect_def)
  qed (use r in \<open>auto simp: reload_effect_def update_incident_def dest!: log_withheld_effect\<close>)
qed

section \<open>Every event respects the reload budget\<close>

definition same_budget :: "machine \<Rightarrow> machine \<Rightarrow> bool" where
  "same_budget m n \<longleftrightarrow> m_thresholds m = m_thresholds n \<and> m_reloads m = m_reloads n
     \<and> m_last_reload_ms m = m_last_reload_ms n"

lemma reload_effect_cong:
  "same_budget m n \<Longrightarrow> suppression_reason now m = suppression_reason now n \<Longrightarrow>
   reload_effect now u m r = reload_effect now u n r"
  by (simp add: same_budget_def reload_effect_def may_reload_def reload_due_def cong: option.case_cong)

lemma reload_effect_Cons:
  "a \<noteq> Reload \<Longrightarrow> a \<noteq> TerminateWebProcess \<Longrightarrow> reload_effect now u m (a # acts, m') = reload_effect now u m (acts, m')"
  by (auto simp: reload_effect_def)

lemma reload_effect_quiet:
  assumes "Reload \<notin> set acts" "TerminateWebProcess \<notin> set acts" "same_budget m' m"
  shows "reload_effect now u m (acts, m')"
  using assms by (simp add: reload_effect_def same_budget_def)

lemma same_budget_simps [simp]:
  "same_budget m m"
  "same_budget (open_incident r m) n = same_budget m n"
  "same_budget (close_incident m) n = same_budget m n"
  "same_budget (update_incident f m) n = same_budget m n"
  "same_budget (clear_prompt m) n = same_budget m n"
  "same_budget (enter_unresponsive r m) n = same_budget m n"
  "same_budget (m\<lparr>m_state := s\<rparr>) n = same_budget m n"
  "same_budget (m\<lparr>m_failures := k\<rparr>) n = same_budget m n"
  "same_budget (m\<lparr>m_navigation_required := b\<rparr>) n = same_budget m n"
  "same_budget (m\<lparr>m_grace_until_ms := g\<rparr>) n = same_budget m n"
  "same_budget (m\<lparr>m_booting_since_ms := k\<rparr>) n = same_budget m n"
  "same_budget (m\<lparr>m_rtt_history := h\<rparr>) n = same_budget m n"
  "same_budget (m\<lparr>m_rtt_window := h\<rparr>) n = same_budget m n"
  "same_budget (m\<lparr>m_responsive := b\<rparr>) n = same_budget m n"
  "same_budget (m\<lparr>m_inspector_attached := b\<rparr>) n = same_budget m n"
  "same_budget (m\<lparr>m_window_visible := b\<rparr>) n = same_budget m n"
  "same_budget (m\<lparr>m_window_focused := b\<rparr>) n = same_budget m n"
  by (auto simp: same_budget_def open_incident_def close_incident_def update_incident_def clear_prompt_def
      enter_unresponsive_def)

lemma rtt_record_quiet:
  assumes "rtt_record rtt m = (acts, m')"
  shows "Reload \<notin> set acts" "TerminateWebProcess \<notin> set acts" "same_budget m' m"
  using assms by (auto simp: rtt_record_def Let_def split: if_splits)

lemma reload_effect_Nil: "same_budget m' m \<Longrightarrow> reload_effect now u m ([], m')"
  by (rule reload_effect_quiet) simp_all

lemma suppression_simps [simp]:
  "suppression_reason now (open_incident r m) = suppression_reason now m"
  "suppression_reason now (close_incident m) = suppression_reason now m"
  "suppression_reason now (update_incident f m) = suppression_reason now m"
  "suppression_reason now (clear_prompt m) = suppression_reason now m"
  "suppression_reason now (enter_unresponsive r m) = suppression_reason now m"
  "suppression_reason now (m\<lparr>m_state := s\<rparr>) = suppression_reason now m"
  "suppression_reason now (m\<lparr>m_failures := k\<rparr>) = suppression_reason now m"
  "suppression_reason now (m\<lparr>m_navigation_required := b\<rparr>) = suppression_reason now m"
  by (simp_all add: suppression_reason_def open_incident_def close_incident_def update_incident_def
      clear_prompt_def enter_unresponsive_def)

text \<open>The helpers called on a machine that agrees with \<open>m\<close> on the budget, their actions behind
  others.\<close>

lemma called_effect:
  assumes "same_budget n m" "suppression_reason now n = suppression_reason now m" and "\<And>acts m'. f acts m' = (pre @ acts, m')"
    and "Reload \<notin> set pre" "TerminateWebProcess \<notin> set pre"
  shows "reload_effect now (\<not> a) m (case issue_rung now a n of (acts, m') \<Rightarrow> f acts m')"
    "reload_effect now u m (case maybe_recover now n of (acts, m') \<Rightarrow> f acts m')"
proof -
  have append: "reload_effect now u m (pre @ acts, m')" if "reload_effect now u m (acts, m')" for u acts m'
    using that assms(4,5) by (induction pre) (auto simp: reload_effect_Cons)
  have lift: "reload_effect now u m (case r of (acts, m') \<Rightarrow> f acts m')" if "reload_effect now u n r" for u r
    using that append reload_effect_cong [OF assms(1,2)] by (cases r) (simp add: assms(3))
  show "reload_effect now (\<not> a) m (case issue_rung now a n of (acts, m') \<Rightarrow> f acts m')"
    by (rule lift) (rule issue_rung_effect)
  show "reload_effect now u m (case maybe_recover now n of (acts, m') \<Rightarrow> f acts m')"
    by (rule lift) (rule maybe_recover_effect)
qed

lemmas called_rung_1 = called_effect(1) [where pre = "[x]" and f = "\<lambda>acts m'. (x # acts, m')" for x, simplified]
lemmas called_recover_1 = called_effect(2) [where pre = "[x]" and f = "\<lambda>acts m'. (x # acts, m')" for x, simplified]
lemmas called_recover_2 =
  called_effect(2) [where pre = "[x, y]" and f = "\<lambda>acts m'. (x # y # acts, m')" for x y, simplified]

lemmas effect_simps = Let_def reload_effect_Cons reload_effect_Nil called_recover_1 called_recover_2
  called_rung_1 [where a = True, simplified] called_rung_1 [where a = False, simplified]
  issue_rung_effect [where automatic = True, simplified] maybe_recover_effect

lemma confirmed_effect: "reload_effect now False m (on_recovery_confirmed now i t m)"
  by (simp add: on_recovery_confirmed_def effect_simps)

lemma on_event_effect: "reload_effect now (\<exists>reason. e = ReloadRequested reason) m (on_event e now m)"
proof (cases e)
  case (ProbeReturned rtt)
  obtain acts m1 where rr: "rtt_record rtt m = (acts, m1)" by fastforce
  show ?thesis
    using rtt_record_quiet [OF rr]
    by (auto simp: ProbeReturned on_probe_returned_def rr Let_def effect_simps intro!: reload_effect_quiet)
next
  case Tick
  then show ?thesis by (simp add: on_tick_def effect_simps)
next
  case (PaintReport ok gap)
  then show ?thesis by (simp add: on_paint_report_def effect_simps)
next
  case (WebProcessTerminated reason)
  then show ?thesis by (simp add: on_web_process_terminated_def effect_simps)
next
  case ProbeFailed
  then show ?thesis by (simp add: on_probe_failed_def effect_simps)
qed (simp_all add: on_page_loaded_def on_suspended_def on_starved_def on_responsiveness_def
    on_reload_requested_def on_recovery_declined_def confirmed_effect effect_simps)

section \<open>A run of the watchdog\<close>

text \<open>A run: events with their times. The trace lists, per event, its time and the actions.\<close>

fun wd_run :: "machine \<Rightarrow> (event \<times> nat) list \<Rightarrow> (nat \<times> action list) list \<times> machine" where
  "wd_run m [] = ([], m)"
| "wd_run m ((e, now) # rest) =
     (let (acts, m1) = on_event e now m; (trace, m2) = wd_run m1 rest in ((now, acts) # trace, m2))"

definition reload_times :: "(nat \<times> action list) list \<Rightarrow> nat list" where
  "reload_times trace = map fst (filter (\<lambda>(now, acts). Reload \<in> set acts) trace)"

text \<open>The machine's ring holds every reload of the past that could still count: \<open>past\<close> is all of
  them, oldest first.\<close>

definition ring_ok :: "nat list \<Rightarrow> nat \<Rightarrow> machine \<Rightarrow> bool" where
  "ring_ok past clock m \<longleftrightarrow>
     m_last_reload_ms m = (if past = [] then None else Some (last past))
     \<and> sorted past \<and> (\<forall>t \<in> set past. t \<le> clock)
     \<and> (\<exists>old. past = old @ m_reloads m \<and> (\<forall>t \<in> set old. t < clock - reload_window_ms (m_thresholds m)))"

definition within_budget :: "thresholds \<Rightarrow> nat list \<Rightarrow> bool" where
  "within_budget t past \<longleftrightarrow>
     (\<forall>a. length (filter (\<lambda>x. a \<le> x \<and> x \<le> a + reload_window_ms t) past) \<le> reload_budget t)
     \<and> successively (\<lambda>x y. x + reload_cooldown_ms t \<le> y) past"

lemma dropWhile_split: "\<exists>front. xs = front @ dropWhile P xs \<and> (\<forall>x \<in> set front. P x)"
  using takeWhile_dropWhile_id [of P xs] by (metis set_takeWhileD)

lemma ring_ok_due:
  assumes "ring_ok past clock m" and "clock \<le> now"
  shows "\<exists>old. past = old @ reload_due now m \<and> (\<forall>t \<in> set old. t < now - reload_window_ms (m_thresholds m))"
    "\<exists>old. past = old @ m_reloads m \<and> (\<forall>t \<in> set old. t < now - reload_window_ms (m_thresholds m))"
proof -
  from assms obtain old where old: "past = old @ m_reloads m"
    "\<forall>t \<in> set old. t < clock - reload_window_ms (m_thresholds m)"
    by (auto simp: ring_ok_def)
  then have old': "\<forall>t \<in> set old. t < now - reload_window_ms (m_thresholds m)"
    using assms(2) by fastforce
  with old show "\<exists>old. past = old @ m_reloads m \<and> (\<forall>t \<in> set old. t < now - reload_window_ms (m_thresholds m))"
    by blast
  obtain front where "m_reloads m = front @ reload_due now m" "\<forall>t \<in> set front. t < now - reload_window_ms (m_thresholds m)"
    using dropWhile_split [of "m_reloads m"] unfolding reload_due_def by blast
  with old old' show "\<exists>old. past = old @ reload_due now m \<and> (\<forall>t \<in> set old. t < now - reload_window_ms (m_thresholds m))"
    by (intro exI [of _ "old @ front"]) auto
qed

lemma within_budget_snoc:
  assumes ok: "within_budget (m_thresholds m) past" and ring: "ring_ok past clock m" and "clock \<le> now"
    and may: "may_reload now m"
  shows "within_budget (m_thresholds m) (past @ [now])"
proof -
  let ?W = "reload_window_ms (m_thresholds m)" and ?B = "reload_budget (m_thresholds m)"
  obtain old where old: "past = old @ reload_due now m" "\<forall>t \<in> set old. t < now - ?W"
    using ring_ok_due(1) [OF ring \<open>clock \<le> now\<close>] by blast
  have "length (filter (\<lambda>x. a \<le> x \<and> x \<le> a + ?W) (past @ [now])) \<le> ?B" for a
  proof (cases "a \<le> now \<and> now \<le> a + ?W")
    case True
    then have "filter (\<lambda>x. a \<le> x \<and> x \<le> a + ?W) old = []" using old(2) by (auto simp: filter_empty_conv)
    then have "length (filter (\<lambda>x. a \<le> x \<and> x \<le> a + ?W) past) \<le> length (reload_due now m)"
      by (simp add: old(1))
    with may True show ?thesis by (simp add: may_reload_def)
  next
    case False
    with ok show ?thesis by (auto simp: within_budget_def)
  qed
  moreover have "past \<noteq> [] \<longrightarrow> last past + reload_cooldown_ms (m_thresholds m) \<le> now"
  proof
    assume "past \<noteq> []"
    then have "last past \<le> clock" using ring last_in_set [of past] by (simp add: ring_ok_def)
    then have "last past \<le> now" using \<open>clock \<le> now\<close> by simp
    moreover have "m_last_reload_ms m = Some (last past)" using ring \<open>past \<noteq> []\<close> by (simp add: ring_ok_def)
    ultimately show "last past + reload_cooldown_ms (m_thresholds m) \<le> now"
      using may by (simp add: may_reload_def le_diff_conv2)
  qed
  ultimately show ?thesis
    using ok by (auto simp: within_budget_def successively_append_iff)
qed

lemma budget_step:
  assumes "within_budget (m_thresholds m) past" and ring: "ring_ok past clock m" and "clock \<le> now"
    and "on_event e now m = (acts, m')"
  shows "m_thresholds m' = m_thresholds m
    \<and> within_budget (m_thresholds m) (past @ reload_times [(now, acts)])
    \<and> ring_ok (past @ reload_times [(now, acts)]) now m'"
proof -
  have effect: "reload_effect now (\<exists>reason. e = ReloadRequested reason) m (acts, m')"
    using on_event_effect [of now e m] assms(4) by simp
  then have th: "m_thresholds m' = m_thresholds m" by (simp add: reload_effect_def)
  note due = ring_ok_due [OF ring \<open>clock \<le> now\<close>]
  have past: "\<forall>t \<in> set past. t \<le> now" "sorted past" using ring \<open>clock \<le> now\<close> by (auto simp: ring_ok_def)
  show ?thesis
  proof (cases "Reload \<in> set acts")
    case True
    with effect have eff: "may_reload now m" "m_last_reload_ms m' = Some now" "m_reloads m' = reload_due now m @ [now]"
      by (auto simp: reload_effect_def)
    have "ring_ok (past @ [now]) now m'"
      using due(1) past th eff by (auto simp: ring_ok_def sorted_append)
    with True th within_budget_snoc [OF assms(1) ring \<open>clock \<le> now\<close> eff(1)]
    show ?thesis by (simp add: reload_times_def)
  next
    case False
    then have "filter ((=) Reload) acts = []" by (auto simp: filter_empty_conv)
    with effect have "m_last_reload_ms m' = m_last_reload_ms m"
      "m_reloads m' = m_reloads m \<or> m_reloads m' = reload_due now m"
      by (auto simp: reload_effect_def)
    then have "\<exists>old. past = old @ m_reloads m' \<and> (\<forall>t \<in> set old. t < now - reload_window_ms (m_thresholds m))"
      and "m_last_reload_ms m' = (if past = [] then None else Some (last past))"
      using due ring by (metis, simp add: ring_ok_def)
    then have "ring_ok past now m'" using past th by (simp add: ring_ok_def)
    with False th assms(1) show ?thesis by (simp add: reload_times_def)
  qed
qed

lemma reload_times_Cons: "reload_times (x # trace) = reload_times [x] @ reload_times trace"
  by (simp add: reload_times_def)

lemma budget_run:
  assumes "within_budget (m_thresholds m) past" and "ring_ok past clock m"
    and "sorted (clock # map snd events)" and "wd_run m events = (trace, m')"
  shows "within_budget (m_thresholds m) (past @ reload_times trace)"
  using assms
proof (induction m events arbitrary: past clock trace m' rule: wd_run.induct)
  case (1 m)
  then show ?case by (simp add: reload_times_def)
next
  case (2 m e now rest)
  obtain acts m1 where ev: "on_event e now m = (acts, m1)" by fastforce
  obtain trace1 m2 where run: "wd_run m1 rest = (trace1, m2)" by fastforce
  have trace: "trace = (now, acts) # trace1" using 2(5) ev run by simp
  have step: "m_thresholds m1 = m_thresholds m"
    "within_budget (m_thresholds m1) (past @ reload_times [(now, acts)])"
    "ring_ok (past @ reload_times [(now, acts)]) now m1"
    using budget_step [OF 2(2,3) _ ev] 2(4) by auto
  have "sorted (now # map snd rest)" using 2(4) by simp
  from 2(1) [OF ev [symmetric] refl step(2,3) this run] show ?case
    by (simp only: trace step(1) reload_times_Cons [of "(now, acts)" trace1] append_assoc)
qed

text \<open>C3: Whatever happens to the webview, in any order (crashes, hangs, stalled paints, prompts
  answered or ignored, reloads the page itself asks for): no span of time as long as the reload
  window ever contains more reloads than the budget, and two reloads are never closer than the
  cooldown.\<close>

theorem reloads_stay_within_budget:
  assumes "sorted (map snd events)"
  shows "within_budget t (reload_times (fst (wd_run (machine_new t enabled start) events)))"
proof -
  let ?m = "machine_new t enabled start"
  obtain trace m' where run: "wd_run ?m events = (trace, m')" by fastforce
  have m: "m_thresholds ?m = t" "m_reloads ?m = []" "m_last_reload_ms ?m = None"
    by (simp_all add: machine_new_def)
  have "within_budget (m_thresholds ?m) []" by (simp add: within_budget_def)
  moreover have "ring_ok [] 0 ?m" using m by (simp add: ring_ok_def)
  moreover have "sorted (0 # map snd events)" using assms by simp
  ultimately have "within_budget (m_thresholds ?m) ([] @ reload_times trace)" using run by (rule budget_run)
  then show ?thesis by (simp add: run m(1))
qed

lemma reloads_stay_within_budget_witness:
  "within_budget default_thresholds (reload_times (fst (wd_run (machine_new default_thresholds True 0)
     [(ReloadRequested ''a'', 5), (ReloadRequested ''b'', 5), (Tick, 9)])))"
  by (rule reloads_stay_within_budget) simp

end
