(* ===== verification/Watchdog_Incidents.thy ===== *)
theory Watchdog_Incidents
  imports Watchdog
begin

text \<open>
  What the watchdog's machine guarantees per incident: at most two rungs of the recovery ladder,
  no automatic reload while suppressed, none at all in detect-only mode, a halted machine that
  stays halted, an incident in every state that wants recovery; and one prompt that the
  machine does not wait for.
\<close>

section \<open>The ladder has two rungs\<close>

definition is_rung_log :: "nat \<Rightarrow> action \<Rightarrow> bool" where
  "is_rung_log k a \<longleftrightarrow>
     (case a of
        Log l \<Rightarrow> (case tl_trigger l of Trg_RecoveryRung _ \<Rightarrow> tl_incident_id l = Some k | _ \<Rightarrow> False)
      | _ \<Rightarrow> False)"

definition is_move :: "action \<Rightarrow> bool" where
  "is_move a \<longleftrightarrow> a = Reload \<or> a = TerminateWebProcess"

text \<open>The reloads and terminations among the actions of one event, and those made on behalf of incident \<open>k\<close>,
  which its rung in the log says.\<close>

definition moves :: "action list \<Rightarrow> action list" where
  "moves acts = filter is_move acts"

definition moves_for :: "nat \<Rightarrow> action list \<Rightarrow> action list" where
  "moves_for k acts = (if list_ex (is_rung_log k) acts then moves acts else [])"

definition owned :: "action list \<Rightarrow> bool" where
  "owned acts \<longleftrightarrow> moves acts = [] \<or> (\<exists>k. list_ex (is_rung_log k) acts)"

fun ladder :: "nat \<Rightarrow> action list" where
  "ladder 0 = []" | "ladder (Suc 0) = [Reload]" | "ladder (Suc (Suc n)) = [Reload, TerminateWebProcess, Reload]"

text \<open>\<open>cnt k\<close>: what was done for incident \<open>k\<close> so far.\<close>

definition ladder_ok :: "(nat \<Rightarrow> action list) \<Rightarrow> machine \<Rightarrow> bool" where
  "ladder_ok cnt m \<longleftrightarrow> (\<forall>k. cnt k \<in> {[], [Reload], [Reload, TerminateWebProcess, Reload]})
     \<and> (\<forall>k \<ge> m_next_incident_id m. cnt k = [])
     \<and> (case m_incident m of None \<Rightarrow> True
        | Some i \<Rightarrow> ic_id i < m_next_incident_id m \<and> cnt (ic_id i) = ladder (ic_rung i))"

definition ladder_keeps :: "machine \<Rightarrow> machine \<Rightarrow> bool" where
  "ladder_keeps m n \<longleftrightarrow> (\<forall>cnt. ladder_ok cnt m \<longrightarrow> ladder_ok cnt n)"

definition ladder_effect :: "machine \<Rightarrow> action list \<times> machine \<Rightarrow> bool" where
  "ladder_effect m r \<longleftrightarrow>
     owned (fst r) \<and> (\<forall>cnt. ladder_ok cnt m \<longrightarrow> ladder_ok (\<lambda>k. cnt k @ moves_for k (fst r)) (snd r))"

definition uneventful :: "action \<Rightarrow> bool" where
  "uneventful a \<longleftrightarrow> \<not> is_move a \<and> (\<forall>k. \<not> is_rung_log k a)"

lemma is_rung_log_simps [simp]:
  "is_rung_log k (wd_log m p t c) \<longleftrightarrow>
     (case t of Trg_RecoveryRung _ \<Rightarrow> map_option ic_id (m_incident m) = Some k | _ \<Rightarrow> False)"
  "\<not> is_rung_log k (SetTitle x)" "\<not> is_rung_log k Reload" "\<not> is_rung_log k TerminateWebProcess"
  "\<not> is_rung_log k RecordReloadInPage" "\<not> is_rung_log k DiscardOutstandingProbes"
  "\<not> is_rung_log k (EmitWake ms)" "\<not> is_rung_log k (PromptThenRecover i d)"
  by (simp_all add: is_rung_log_def wd_log_def split: trigger.split)

lemma is_move_simps [simp]:
  "\<not> is_move (wd_log m p t c)" "\<not> is_move (SetTitle x)" "is_move Reload" "is_move TerminateWebProcess"
  "\<not> is_move RecordReloadInPage" "\<not> is_move DiscardOutstandingProbes"
  "\<not> is_move (EmitWake ms)" "\<not> is_move (PromptThenRecover i d)"
  by (simp_all add: is_move_def)

lemma uneventful_simps [simp]:
  "uneventful (wd_log m p t c) \<longleftrightarrow> (case t of Trg_RecoveryRung _ \<Rightarrow> m_incident m = None | _ \<Rightarrow> True)"
  "uneventful (SetTitle x)" "uneventful DiscardOutstandingProbes" "uneventful RecordReloadInPage"
  "uneventful (EmitWake ms)" "uneventful (PromptThenRecover i d)"
  by (cases "m_incident m"; auto simp: uneventful_def split: trigger.split)+

lemma uneventful_Cons [simp]:
  assumes "uneventful a"
  shows "moves (a # acts) = moves acts" "moves_for k (a # acts) = moves_for k acts" "owned (a # acts) = owned acts"
  using assms by (simp_all add: uneventful_def moves_def moves_for_def owned_def)

lemma uneventful_append:
  "list_all uneventful pre \<Longrightarrow> moves_for k (pre @ acts) = moves_for k acts \<and> owned (pre @ acts) = owned acts"
  by (induction pre) auto

lemma uneventful_only: "list_all uneventful acts \<Longrightarrow> moves_for k acts = [] \<and> owned acts"
  using uneventful_append [of acts k "[]"] by (simp add: moves_for_def moves_def owned_def)

lemma ladder_keeps_simps [simp]:
  "ladder_keeps m m"
  "ladder_keeps m (n\<lparr>m_state := s\<rparr>) = ladder_keeps m n"
  "ladder_keeps m (n\<lparr>m_failures := k\<rparr>) = ladder_keeps m n"
  "ladder_keeps m (n\<lparr>m_reloads := rs\<rparr>) = ladder_keeps m n"
  "ladder_keeps m (n\<lparr>m_withheld_logged := w\<rparr>) = ladder_keeps m n"
  "ladder_keeps m (n\<lparr>m_navigation_required := b\<rparr>) = ladder_keeps m n"
  "ladder_keeps m (n\<lparr>m_grace_until_ms := g\<rparr>) = ladder_keeps m n"
  "ladder_keeps m (n\<lparr>m_booting_since_ms := k\<rparr>) = ladder_keeps m n"
  "ladder_keeps m (n\<lparr>m_rtt_history := h\<rparr>) = ladder_keeps m n"
  "ladder_keeps m (n\<lparr>m_rtt_window := h\<rparr>) = ladder_keeps m n"
  "ladder_keeps m (n\<lparr>m_responsive := b\<rparr>) = ladder_keeps m n"
  "ladder_keeps m (n\<lparr>m_inspector_attached := b\<rparr>) = ladder_keeps m n"
  "ladder_keeps m (n\<lparr>m_window_visible := b\<rparr>) = ladder_keeps m n"
  "ladder_keeps m (n\<lparr>m_window_focused := b\<rparr>) = ladder_keeps m n"
  by (simp_all add: ladder_keeps_def ladder_ok_def cong: option.case_cong)

lemma ladder_keeps_trans: "ladder_keeps m n \<Longrightarrow> ladder_keeps n p \<Longrightarrow> ladder_keeps m p"
  by (simp add: ladder_keeps_def)

lemma ladder_keeps_incident:
  "ladder_keeps n (close_incident n)" "ladder_keeps n (open_incident r n)"
  "(\<And>i. ic_id (f i) = ic_id i \<and> ic_rung (f i) = ic_rung i) \<Longrightarrow> ladder_keeps n (update_incident f n)"
  by (auto simp: ladder_keeps_def ladder_ok_def close_incident_def open_incident_def update_incident_def
      split: option.splits)

lemma ladder_keeps_close [simp]: "ladder_keeps m n \<Longrightarrow> ladder_keeps m (close_incident n)"
  by (erule ladder_keeps_trans) (rule ladder_keeps_incident)

lemma ladder_keeps_open [simp]: "ladder_keeps m n \<Longrightarrow> ladder_keeps m (open_incident r n)"
  by (erule ladder_keeps_trans) (rule ladder_keeps_incident)

lemma ladder_keeps_more [simp]:
  "ladder_keeps m n \<Longrightarrow> ladder_keeps m (enter_unresponsive r n)"
  "ladder_keeps m n \<Longrightarrow> ladder_keeps m (clear_prompt n)"
  "ladder_keeps m n \<Longrightarrow> ladder_keeps m (update_incident (\<lambda>i. i\<lparr>ic_expecting_api_termination := b\<rparr>) n)"
  "ladder_keeps m n \<Longrightarrow> ladder_keeps m (update_incident (\<lambda>i. i\<lparr>ic_prompt_deadline_ms := d\<rparr>) n)"
  unfolding enter_unresponsive_def clear_prompt_def
  by (simp, (erule ladder_keeps_trans, rule ladder_keeps_incident(3), simp)+)

lemma ladder_effect_Cons: "uneventful a \<Longrightarrow> ladder_effect m (a # acts, n) = ladder_effect m (acts, n)"
  by (simp add: ladder_effect_def)

lemma ladder_effect_quiet:
  assumes "list_all uneventful acts" and "ladder_keeps m n"
  shows "ladder_effect m (acts, n)"
  using assms uneventful_only [OF assms(1)] by (simp add: ladder_effect_def ladder_keeps_def)

lemma ladder_effect_trans: "ladder_keeps m n \<Longrightarrow> ladder_effect n r \<Longrightarrow> ladder_effect m r"
  by (simp add: ladder_effect_def ladder_keeps_def)

lemma log_withheld_ladder:
  assumes "log_withheld prev reason m = (acts, n)"
  shows "list_all uneventful acts" "ladder_keeps m n"
  using assms by (auto simp: log_withheld_def uneventful_def is_move_def is_rung_log_def split: if_splits)

lemma issue_rung_ladder: "ladder_effect m (issue_rung now automatic m)"
proof -
  obtain acts m' where r: "issue_rung now automatic m = (acts, m')" by fastforce
  then show ?thesis
  proof (cases rule: issue_rung_cases)
    case (withheld i reason m1)
    have "ladder_keeps m m1" using withheld(4) by auto
    then show ?thesis
      unfolding r using log_withheld_ladder [OF withheld(3)]
      by (intro ladder_effect_quiet) (auto intro: ladder_keeps_trans)
  next
    case (rung i)
    have moved: "moves_for k acts = (if k = ic_id i then (if ic_rung i = 0 then [Reload] else [TerminateWebProcess, Reload])
        else [])" and "owned acts" for k
      by (auto simp: rung moves_for_def moves_def owned_def)
    moreover have "ic_rung i = 0 \<or> ic_rung i = Suc 0" using rung(2) by auto
    ultimately show ?thesis
      using rung(1) by (auto simp: ladder_effect_def r ladder_ok_def rung(5))
  qed (auto simp: r intro!: ladder_effect_quiet)
qed

lemma maybe_recover_ladder: "ladder_effect m (maybe_recover now m)"
proof -
  obtain acts m' where r: "maybe_recover now m = (acts, m')" by fastforce
  then show ?thesis
  proof (cases rule: maybe_recover_cases)
    case (detect_only acts1)
    then show ?thesis
      unfolding r using log_withheld_ladder [OF detect_only(2)] by (intro ladder_effect_quiet) simp_all
  next
    case (withheld acts1 m1 reason)
    have "ladder_keeps m m1" using withheld(3) by auto
    then show ?thesis
      unfolding r withheld(4) using log_withheld_ladder [OF withheld(2)]
      by (intro ladder_effect_quiet) (auto intro: ladder_keeps_trans)
  next
    case (rung m1 acts1)
    have "ladder_keeps m m1" by (simp add: rung(3))
    then have "ladder_effect m (acts1, m')"
      using issue_rung_ladder [of m1 now True] unfolding rung(4) by (rule ladder_effect_trans)
    then show ?thesis unfolding r rung(5) by (simp add: ladder_effect_Cons)
  qed (auto simp: r intro!: ladder_effect_quiet)
qed

lemma called_ladder:
  assumes "ladder_keeps m n" and "\<And>acts m'. f acts m' = (pre @ acts, m')"
    and "list_all uneventful pre"
  shows "ladder_effect m (case issue_rung now a n of (acts, m') \<Rightarrow> f acts m')"
    "ladder_effect m (case maybe_recover now n of (acts, m') \<Rightarrow> f acts m')"
proof -
  have lift: "ladder_effect m (case r of (acts, m') \<Rightarrow> f acts m')" if "ladder_effect n r" for r
    using ladder_effect_trans [OF assms(1) that]
    uneventful_append [OF assms(3)]
    by (cases r) (simp add: assms(2) ladder_effect_def)
  show "ladder_effect m (case issue_rung now a n of (acts, m') \<Rightarrow> f acts m')"
    by (rule lift) (rule issue_rung_ladder)
  show "ladder_effect m (case maybe_recover now n of (acts, m') \<Rightarrow> f acts m')"
    by (rule lift) (rule maybe_recover_ladder)
qed

lemma ladder_effect_Nil: "ladder_keeps m n \<Longrightarrow> ladder_effect m ([], n)"
  by (rule ladder_effect_quiet) simp_all

lemmas called_ladder_1 = called_ladder [where pre = "[x]" and f = "\<lambda>acts m'. (x # acts, m')" for x, simplified]
lemmas called_ladder_2 =
  called_ladder [where pre = "[x, y]" and f = "\<lambda>acts m'. (x # y # acts, m')" for x y, simplified]

lemmas ladder_simps = Let_def ladder_effect_Cons ladder_effect_Nil called_ladder_1 called_ladder_2
  issue_rung_ladder maybe_recover_ladder

lemma confirmed_ladder: "ladder_effect m (on_recovery_confirmed now i t m)"
  by (simp add: on_recovery_confirmed_def ladder_simps)

lemma rtt_record_ladder:
  assumes "rtt_record rtt m = (acts, n)"
  shows "list_all uneventful acts" "ladder_keeps m n"
  using assms by (auto simp: rtt_record_def summarise_def Let_def split: if_splits)

lemma on_event_ladder: "ladder_effect m (on_event e now m)"
proof (cases e)
  case (ProbeReturned rtt)
  obtain acts m1 where rr: "rtt_record rtt m = (acts, m1)" by fastforce
  show ?thesis
    using rtt_record_ladder [OF rr]
    by (auto simp: ProbeReturned on_probe_returned_def rr Let_def ladder_effect_Nil intro!: ladder_effect_quiet)
next
  case Tick
  then show ?thesis by (simp add: on_tick_def ladder_simps)
next
  case (PaintReport ok gap)
  then show ?thesis by (simp add: on_paint_report_def ladder_simps)
next
  case (WebProcessTerminated reason)
  then show ?thesis by (simp add: on_web_process_terminated_def ladder_simps)
next
  case ProbeFailed
  then show ?thesis by (simp add: on_probe_failed_def ladder_simps)
qed (simp_all add: on_page_loaded_def on_suspended_def on_starved_def on_responsiveness_def
    on_reload_requested_def on_recovery_declined_def confirmed_ladder ladder_simps)

lemma ladder_run:
  "ladder_ok cnt m \<Longrightarrow>
   ladder_ok (\<lambda>k. cnt k @ concat (map (moves_for k \<circ> snd) (fst (wd_run m events)))) (snd (wd_run m events))
     \<and> list_all (owned \<circ> snd) (fst (wd_run m events))"
proof (induction m events arbitrary: cnt rule: wd_run.induct)
  case (1 m)
  then show ?case by simp
next
  case (2 m e now rest)
  obtain acts m1 where ev: "on_event e now m = (acts, m1)" by fastforce
  have "ladder_ok (\<lambda>k. cnt k @ moves_for k acts) m1" and own: "owned acts"
    using on_event_ladder [of m e now] 2(2) by (simp_all add: ladder_effect_def ev)
  from 2(1) [OF ev [symmetric] refl this(1)] own show ?case
    by (simp add: ev case_prod_beta)
qed

text \<open>C36: One incident never gets more than two rungs of the ladder, first one reload, then one termination with
  a reload, and the machine never reloads or terminates the web process but as a rung of an incident, whatever
  sequence of events the webview and the user produce.\<close>

theorem at_most_two_rungs_per_incident:
  "concat (map (moves_for k \<circ> snd) (fst (wd_run (machine_new t enabled start) events)))
     \<in> {[], [Reload], [Reload, TerminateWebProcess, Reload]}
   \<and> list_all (owned \<circ> snd) (fst (wd_run (machine_new t enabled start) events))"
proof -
  have "ladder_ok (\<lambda>_. []) (machine_new t enabled start)" by (simp add: ladder_ok_def machine_new_def)
  from ladder_run [OF this, of events] show ?thesis by (auto simp: ladder_ok_def)
qed

section \<open>When nothing may be reloaded\<close>

text \<open>While recovery is suppressed (an inspector is attached, the window is hidden, or the grace
  period after a wake runs), no event makes the machine reload or terminate the web process,
  except a reload the page itself asks for.\<close>

theorem suppressed_machine_never_reloads:
  assumes "suppression_reason now m \<noteq> None" and "\<And>reason. e \<noteq> ReloadRequested reason"
  shows "Reload \<notin> set (fst (on_event e now m)) \<and> TerminateWebProcess \<notin> set (fst (on_event e now m))"
  using on_event_effect [of now e m] assms by (auto simp: reload_effect_def)

lemma suppressed_machine_never_reloads_witness:
  "Reload \<notin> set (fst (on_event (WebProcessTerminated Crashed) 5
     ((machine_new default_thresholds True 0)\<lparr>m_window_visible := False\<rparr>)))"
  using suppressed_machine_never_reloads [of 5 "(machine_new default_thresholds True 0)\<lparr>m_window_visible := False\<rparr>"
      "WebProcessTerminated Crashed"]
  by (simp add: suppression_reason_def machine_new_def)

section \<open>Detect-only mode\<close>

text \<open>With recovery disabled and no reload asked for by the page, the machine never starts
  recovering and never prompts.\<close>

definition detect_only_ok :: "machine \<Rightarrow> bool" where
  "detect_only_ok m \<longleftrightarrow> \<not> m_recovery_enabled m \<and> m_state m \<noteq> Recovering
     \<and> (case m_incident m of None \<Rightarrow> True | Some i \<Rightarrow> ic_prompt_deadline_ms i = None)"

definition inert :: "action \<Rightarrow> bool" where
  "inert a \<longleftrightarrow> a \<noteq> Reload \<and> a \<noteq> TerminateWebProcess \<and> (\<forall>i d. a \<noteq> PromptThenRecover i d)"

lemma inert_simps [simp]: "inert (wd_log m p t c)" "inert (SetTitle x)" "inert DiscardOutstandingProbes"
  "inert (EmitWake ms)"
  by (simp_all add: inert_def wd_log_def)

lemma maybe_recover_detect_only:
  assumes "\<not> m_recovery_enabled m" and "maybe_recover now m = (acts, n)"
  shows "list_all inert acts" "n = m \<or> (\<exists>w. n = m\<lparr>m_withheld_logged := w\<rparr>)"
  using assms(2)
  by (cases rule: maybe_recover_cases;
      use assms(1) in \<open>auto simp: log_withheld_def inert_def split: if_splits\<close>)+

lemma detect_only_called:
  assumes "detect_only_ok n" and "list_all inert pre" and "f = (\<lambda>acts m'. (pre @ acts, m'))"
  shows "list_all inert (fst (case maybe_recover now n of (acts, m') \<Rightarrow> f acts m'))
    \<and> detect_only_ok (snd (case maybe_recover now n of (acts, m') \<Rightarrow> f acts m'))"
proof -
  obtain acts m' where r: "maybe_recover now n = (acts, m')" by fastforce
  have "\<not> m_recovery_enabled n" using assms(1) by (simp add: detect_only_ok_def)
  from maybe_recover_detect_only [OF this r] show ?thesis
    using assms by (auto simp: r detect_only_ok_def)
qed

lemma detect_only_simps [simp]:
  "detect_only_ok m \<Longrightarrow> s \<noteq> Recovering \<Longrightarrow> detect_only_ok (m\<lparr>m_state := s\<rparr>)"
  "detect_only_ok (m\<lparr>m_failures := k\<rparr>) = detect_only_ok m"
  "detect_only_ok (m\<lparr>m_navigation_required := b\<rparr>) = detect_only_ok m"
  "detect_only_ok (m\<lparr>m_grace_until_ms := g\<rparr>) = detect_only_ok m"
  "detect_only_ok (m\<lparr>m_booting_since_ms := k\<rparr>) = detect_only_ok m"
  "detect_only_ok (m\<lparr>m_rtt_history := h\<rparr>) = detect_only_ok m"
  "detect_only_ok (m\<lparr>m_rtt_window := h\<rparr>) = detect_only_ok m"
  "detect_only_ok (m\<lparr>m_responsive := b\<rparr>) = detect_only_ok m"
  "detect_only_ok (m\<lparr>m_inspector_attached := b\<rparr>) = detect_only_ok m"
  "detect_only_ok (m\<lparr>m_window_visible := b\<rparr>) = detect_only_ok m"
  "detect_only_ok (m\<lparr>m_window_focused := b\<rparr>) = detect_only_ok m"
  "detect_only_ok m \<Longrightarrow> detect_only_ok (close_incident m)"
  "detect_only_ok m \<Longrightarrow> detect_only_ok (open_incident r m)"
  "detect_only_ok m \<Longrightarrow> detect_only_ok (enter_unresponsive r m)"
  "detect_only_ok m \<Longrightarrow> detect_only_ok (update_incident (\<lambda>i. i\<lparr>ic_expecting_api_termination := b\<rparr>) m)"
  by (auto simp: detect_only_ok_def close_incident_def open_incident_def enter_unresponsive_def
      update_incident_def split: option.splits)

lemmas detect_only_1 =
  detect_only_called [where pre = "[x]" and f = "\<lambda>acts m'. (x # acts, m')" for x, simplified]
lemmas detect_only_2 =
  detect_only_called [where pre = "[x, y]" and f = "\<lambda>acts m'. (x # y # acts, m')" for x y, simplified]
lemmas detect_only_0 = detect_only_called [where pre = "[]" and f = Pair, simplified]

lemma detect_only_no_prompt: "detect_only_ok m \<Longrightarrow> prompt_identity m = None"
  by (auto simp: detect_only_ok_def prompt_identity_def split: option.splits)

lemma detect_only_event:
  assumes ok: "detect_only_ok m" and "\<And>reason. e \<noteq> ReloadRequested reason"
  shows "list_all inert (fst (on_event e now m)) \<and> detect_only_ok (snd (on_event e now m))"
proof -
  have state: "m_state m \<noteq> Recovering" using ok by (simp add: detect_only_ok_def)
  show ?thesis
  proof (cases e)
    case (ProbeReturned rtt)
    obtain acts m1 where rr: "rtt_record rtt m = (acts, m1)" by fastforce
    have "list_all inert acts" "detect_only_ok m1"
      using rr ok by (auto simp: rtt_record_def Let_def split: if_splits)
    then show ?thesis by (auto simp: ProbeReturned on_probe_returned_def rr Let_def ok)
  next
    case Tick
    then show ?thesis
      using ok state by (simp add: on_tick_def detect_only_no_prompt detect_only_0 detect_only_1 Let_def)
  next
    case ProbeFailed
    then show ?thesis using ok by (simp add: on_probe_failed_def detect_only_1 Let_def)
  next
    case (WebProcessTerminated reason)
    then show ?thesis using ok by (simp add: on_web_process_terminated_def detect_only_2 Let_def)
  next
    case (PaintReport good gap)
    then show ?thesis using ok by (simp add: on_paint_report_def detect_only_1 Let_def)
  qed (use ok assms(2) in \<open>simp_all add: on_page_loaded_def on_suspended_def on_starved_def on_responsiveness_def
      on_recovery_declined_def on_recovery_confirmed_def detect_only_no_prompt Let_def\<close>)
qed

lemma detect_only_run:
  assumes "detect_only_ok m" and "list_all (\<lambda>(e, _). \<forall>reason. e \<noteq> ReloadRequested reason) events"
  shows "list_all (\<lambda>(_, acts). list_all inert acts) (fst (wd_run m events))"
  using assms
proof (induction m events rule: wd_run.induct)
  case (1 m)
  then show ?case by simp
next
  case (2 m e now rest)
  obtain acts m1 where ev: "on_event e now m = (acts, m1)" by fastforce
  have "list_all inert acts \<and> detect_only_ok m1"
    using detect_only_event [OF 2(2), of e now] 2(3) by (simp add: ev)
  with 2(1) [OF ev [symmetric] refl] 2(3) show ?case by (simp add: ev case_prod_beta)
qed

text \<open>In detect-only mode the watchdog only observes: as long as the page itself asks for no
  reload, no run ever reloads, terminates the web process or shows a prompt.\<close>

theorem detect_only_never_acts:
  assumes "list_all (\<lambda>(e, _). \<forall>reason. e \<noteq> ReloadRequested reason) events"
  shows "list_all (\<lambda>(_, acts). list_all (\<lambda>a. a \<noteq> Reload \<and> a \<noteq> TerminateWebProcess
      \<and> (\<forall>i d. a \<noteq> PromptThenRecover i d)) acts) (fst (wd_run (machine_new t False start) events))"
proof -
  have "detect_only_ok (machine_new t False start)" by (simp add: detect_only_ok_def machine_new_def)
  from detect_only_run [OF this assms] show ?thesis by (simp add: inert_def [abs_def])
qed

lemma detect_only_never_acts_witness:
  "Reload \<notin> set (snd (fst (wd_run (machine_new default_thresholds False 0) [(WebProcessTerminated Crashed, 7)]) ! 0))"
  using detect_only_never_acts [of "[(WebProcessTerminated Crashed, 7)]" default_thresholds 0]
  by (auto simp: list_all_iff case_prod_beta)

section \<open>Halted\<close>

text \<open>A halted machine (budget or ladder exhausted, or the user declined) with no prompt pending
  stays halted and performs no reload and no termination on any event but a completed page load,
  which puts it back to booting, or a reload the page asks for.\<close>

theorem halted_stays_halted:
  assumes "m_state m = Halted" and "prompt_identity m = None"
    and "e \<noteq> PageLoaded" and "\<And>reason. e \<noteq> ReloadRequested reason"
  shows "m_state (snd (on_event e now m)) = Halted \<and> Reload \<notin> set (fst (on_event e now m))
    \<and> TerminateWebProcess \<notin> set (fst (on_event e now m)) \<and> prompt_identity (snd (on_event e now m)) = None"
proof -
  have upd: "prompt_identity (update_incident (\<lambda>i. i\<lparr>ic_expecting_api_termination := b\<rparr>) n) = prompt_identity n"
    "m_state (update_incident f n) = m_state n" for b n f
    by (simp_all add: prompt_identity_def update_incident_def split: option.split)
  have rtt: "m_state n = m_state m" "m_incident n = m_incident m" "Reload \<notin> set acts" "TerminateWebProcess \<notin> set acts"
    if "rtt_record r m = (acts, n)" for r acts n
    using that by (auto simp: rtt_record_def Let_def split: if_splits)
  have same: "prompt_identity (m\<lparr>m_failures := k\<rparr>) = prompt_identity m"
    "prompt_identity (m\<lparr>m_navigation_required := b\<rparr>) = prompt_identity m"
    "prompt_identity (m\<lparr>m_grace_until_ms := g, m_failures := k\<rparr>) = prompt_identity m"
    "prompt_identity (m\<lparr>m_responsive := b\<rparr>) = prompt_identity m"
    "prompt_identity (m\<lparr>m_inspector_attached := b\<rparr>) = prompt_identity m"
    "prompt_identity (m\<lparr>m_window_visible := b\<rparr>) = prompt_identity m"
    "prompt_identity (m\<lparr>m_window_focused := b\<rparr>) = prompt_identity m" for k b g
    by (simp_all add: prompt_identity_def)
  show ?thesis
  proof (cases e)
    case (ProbeReturned r)
    obtain acts n where rr: "rtt_record r m = (acts, n)" by fastforce
    have "prompt_identity (n\<lparr>m_failures := 0\<rparr>) = prompt_identity m"
      using rtt(2) [OF rr] by (simp add: prompt_identity_def)
    with rtt [OF rr] show ?thesis using assms(1,2)
      by (auto simp: ProbeReturned on_probe_returned_def rr Let_def)
  next
    case Tick
    then show ?thesis using assms by (simp add: on_tick_def wants_recovery_def Let_def)
  qed (use assms in \<open>simp_all add: on_probe_failed_def on_suspended_def on_starved_def on_web_process_terminated_def
      on_responsiveness_def on_paint_report_def on_recovery_confirmed_def on_recovery_declined_def upd same Let_def\<close>)
qed

lemma halted_stays_halted_witness:
  "m_state (snd (on_event ProbeFailed 4 ((machine_new default_thresholds True 0)\<lparr>m_state := Halted\<rparr>))) = Halted"
  using halted_stays_halted [of "(machine_new default_thresholds True 0)\<lparr>m_state := Halted\<rparr>" ProbeFailed 4]
  by (simp add: machine_new_def prompt_identity_def)

section \<open>The round-trip history is a bounded log\<close>

lemma rtt_push_suffix: "suffix (rtt_push h r) (h @ [r])"
  unfolding rtt_push_def Let_def by (rule suffix_drop)

lemma rtt_foldl:
  "suffix (foldl rtt_push h xs) (h @ xs)"
  "length h \<le> RTT_HISTORY_LEN \<Longrightarrow> length (foldl rtt_push h xs) \<le> RTT_HISTORY_LEN"
proof (induction xs arbitrary: h)
  case (Cons x xs)
  {
    case 1
    have "suffix (rtt_push h x @ xs) ((h @ [x]) @ xs)" using rtt_push_suffix by (auto simp: suffix_def)
    with Cons(1) show ?case by (auto intro: suffix_order.order_trans)
  next
    case 2
    have "length (rtt_push h x) \<le> RTT_HISTORY_LEN" by (simp add: rtt_push_def Let_def RTT_HISTORY_LEN_def)
    with Cons(2) show ?case by simp
  }
qed simp_all

interpretation rtt_log: bounded_log "foldl rtt_push" "\<lambda>h. h" "\<lambda>h. length h \<le> RTT_HISTORY_LEN" length RTT_HISTORY_LEN
  by unfold_locales (simp_all add: rtt_foldl)

section \<open>A prompt the machine does not wait for\<close>

text \<open>The second prompt of an incident: the renderer hangs, the user confirms a reload, the new
  process crashes, and after the cooldown the machine prompts again at 64 s with a deadline of
  74 s. The rung timer of the first reload has long expired, so the next tick, at 65 s, issues the
  second rung while the prompt is still on screen.\<close>

definition preempting_events :: "(event \<times> nat) list" where
  "preempting_events =
     [(ProbeReturned 5, 0), (ProbeFailed, 1000), (ProbeFailed, 2000), (ProbeFailed, 3000),
      (RecoveryConfirmed 1 False, 4000), (WebProcessTerminated Crashed, 5000), (Tick, 64000)]"

text \<open>There is a run in which the machine terminates the web process and reloads although a
  prompt with a deadline nine seconds ahead has neither been answered nor timed out.\<close>

theorem second_prompt_is_preempted:
  "let m = snd (wd_run (machine_new default_thresholds True 0) preempting_events)
   in prompt_identity m = Some (1, 74000)
      \<and> TerminateWebProcess \<in> set (fst (on_event Tick 65000 m)) \<and> Reload \<in> set (fst (on_event Tick 65000 m))"
  by (simp add: preempting_events_def default_thresholds_def machine_new_def on_probe_returned_def
      rtt_record_def rtt_push_def on_probe_failed_def enter_unresponsive_def open_incident_def
      close_incident_def maybe_recover_def issue_rung_def suppression_reason_def reload_block_def
      on_recovery_confirmed_def clear_prompt_def update_incident_def prompt_identity_def
      on_web_process_terminated_def on_tick_def record_reload_def log_withheld_def wants_recovery_def
      sat64_def sat32_def RTT_HISTORY_LEN_def paint_incident_def Let_def)

end
