(* ===== verification/Clocks.thy ===== *)
theory Clocks
  imports Prelude
begin

text \<open>
  The watchdog's clock classifier (\<^verbatim>\<open>src-tauri/src/watchdog/clocks.rs\<close>): from two samples of three
  clocks it tells a suspend, a step of the wall clock and a starved process apart. Samples are
  naturals below \<open>2 ^ 64\<close>; the casts to \<open>i64\<close> and the subtractions of the wall clock are those of
  a build without overflow checks, which wrap.
\<close>

record clock_sample =
  mono_ms :: nat
  boot_clock_ms :: nat
  wall_ms :: nat

record clock_verdict =
  cv_suspended_ms :: "nat option"
  cv_wall_step_ms :: "int option"
  cv_starved_by_ms :: "nat option"
  cv_mono_delta_ms :: nat

definition clock_quiet :: clock_verdict where
  "clock_quiet = \<lparr>cv_suspended_ms = None, cv_wall_step_ms = None, cv_starved_by_ms = None,
     cv_mono_delta_ms = 0\<rparr>"

definition is_quiet :: "clock_verdict \<Rightarrow> bool" where
  "is_quiet v \<longleftrightarrow> cv_suspended_ms v = None \<and> cv_wall_step_ms v = None \<and> cv_starved_by_ms v = None"

record clock_classifier =
  cl_prev :: "clock_sample option"
  cl_tick_ms :: nat
  cl_suspend_threshold_ms :: nat
  cl_wall_step_threshold_ms :: nat

definition clock_classifier_new :: "nat \<Rightarrow> nat \<Rightarrow> nat \<Rightarrow> clock_classifier" where
  "clock_classifier_new tick suspend_threshold wall_step_threshold =
     \<lparr>cl_prev = None, cl_tick_ms = tick, cl_suspend_threshold_ms = suspend_threshold,
      cl_wall_step_threshold_ms = wall_step_threshold\<rparr>"

definition wrap64 :: "int \<Rightarrow> int" where
  "wrap64 x = (x + 2 ^ 63) mod 2 ^ 64 - 2 ^ 63"

definition classify :: "clock_sample \<Rightarrow> clock_classifier \<Rightarrow> clock_verdict \<times> clock_classifier" where
  "classify now c =
     (let c' = c\<lparr>cl_prev := Some now\<rparr>; expected = cl_tick_ms c
      in case cl_prev c of
           None \<Rightarrow> (clock_quiet, c')
         | Some prev \<Rightarrow>
             (let dm = mono_ms now - mono_ms prev;
                  db = boot_clock_ms now - boot_clock_ms prev;
                  dw = wrap64 (wrap64 (int (wall_ms now)) - wrap64 (int (wall_ms prev)));
                  divergence = db - dm;
                  suspended = (if cl_suspend_threshold_ms c \<le> divergence then Some divergence else None);
                  wall_vs_boot = wrap64 (dw - wrap64 (int db));
                  wall_step = (if cl_wall_step_threshold_ms c \<le> nat \<bar>wall_vs_boot\<bar>
                               then Some wall_vs_boot else None);
                  overshoot = dm - expected;
                  starved = (if expected \<le> overshoot \<and> suspended = None then Some overshoot else None)
              in (\<lparr>cv_suspended_ms = suspended, cv_wall_step_ms = wall_step,
                   cv_starved_by_ms = starved, cv_mono_delta_ms = dm\<rparr>, c')))"

lemma wrap64_id: "- (2 ^ 63) \<le> x \<Longrightarrow> x < 2 ^ 63 \<Longrightarrow> wrap64 x = x"
  by (simp add: wrap64_def)

text \<open>Between two samples of clocks that advanced by \<open>awake\<close> (monotonic), \<open>awake + asleep\<close> (boot)
  and that plus \<open>step\<close> (wall), the classifier reports a suspend of exactly \<open>asleep\<close> when it reaches
  the threshold, a wall step of exactly \<open>step\<close> when its size does, and starvation by the overshoot
  over the tick only when there was no suspend: a step of the wall clock never fakes a suspend or
  a stall, and a suspend is never reported as starvation.\<close>

theorem classifier_tells_the_clocks_apart:
  assumes "cl_prev c = Some p"
    and "mono_ms p + awake < 2 ^ 62" and "boot_clock_ms p + awake + asleep < 2 ^ 62"
    and "wall_ms p < 2 ^ 62" and "0 \<le> int (wall_ms p) + int awake + int asleep + step"
    and "int (wall_ms p) + int awake + int asleep + step < 2 ^ 62"
  shows "fst (classify \<lparr>mono_ms = mono_ms p + awake, boot_clock_ms = boot_clock_ms p + awake + asleep,
             wall_ms = nat (int (wall_ms p) + int awake + int asleep + step)\<rparr> c) =
     \<lparr>cv_suspended_ms = (if cl_suspend_threshold_ms c \<le> asleep then Some asleep else None),
      cv_wall_step_ms = (if int (cl_wall_step_threshold_ms c) \<le> \<bar>step\<bar> then Some step else None),
      cv_starved_by_ms = (if asleep < cl_suspend_threshold_ms c \<and> cl_tick_ms c \<le> awake - cl_tick_ms c
                          then Some (awake - cl_tick_ms c) else None),
      cv_mono_delta_ms = awake\<rparr>"
proof -
  have dw: "wrap64 (wrap64 (int (wall_ms p) + int awake + int asleep + step) - wrap64 (int (wall_ms p)))
      = int awake + int asleep + step"
    using assms by (simp add: wrap64_id)
  have vs: "wrap64 (int awake + int asleep + step - wrap64 (int (awake + asleep))) = step"
    using assms by (simp add: wrap64_id)
  show ?thesis
    using assms(1,5) dw vs by (auto simp: classify_def Let_def nat_le_iff le_nat_iff)
qed

lemma classifier_tells_the_clocks_apart_witness:
  "cv_suspended_ms (fst (classify \<lparr>mono_ms = 11, boot_clock_ms = 5011, wall_ms = 9001\<rparr>
      ((clock_classifier_new 1000 2000 2000)\<lparr>cl_prev := Some \<lparr>mono_ms = 10, boot_clock_ms = 10, wall_ms = 4000\<rparr>\<rparr>)))
   = Some 5000"
  using classifier_tells_the_clocks_apart [of "(clock_classifier_new 1000 2000 2000)
      \<lparr>cl_prev := Some \<lparr>mono_ms = 10, boot_clock_ms = 10, wall_ms = 4000\<rparr>\<rparr>"
      "\<lparr>mono_ms = 10, boot_clock_ms = 10, wall_ms = 4000\<rparr>" 1 5000 0]
  by (simp add: clock_classifier_new_def)

end
