(* ===== verification/Agent_Events.thy ===== *)
theory Agent_Events
  imports Rust_Std
begin

text \<open>
  The lifecycle events agent CLIs report (\<^verbatim>\<open>core/houston-core/src/agent_events.rs\<close>): one table of
  hook names per provider, the status an event stands for, and when an event applies to a pane's
  current status.
\<close>

datatype agent_kind =
  Claude | Codex | Antigravity | Shell | Custom | Opencode | Cursor | Grok | Zcode | Droid | Copilot | Aider | Ssh

datatype agent_status = Agent_Spawning | Agent_Working | Agent_Idle | Agent_NeedsInput | Agent_Unavailable

datatype agent_event =
  SessionStarted | PromptSubmitted | Activity | InputResolved | TurnEnded | TurnInterrupted
  | TurnFailed | SessionEnded | NeedsInput

fun event_status :: "agent_event \<Rightarrow> agent_status" where
  "event_status SessionStarted = Agent_Idle"
| "event_status TurnEnded = Agent_Idle"
| "event_status TurnInterrupted = Agent_Idle"
| "event_status TurnFailed = Agent_Idle"
| "event_status SessionEnded = Agent_Idle"
| "event_status PromptSubmitted = Agent_Working"
| "event_status Activity = Agent_Working"
| "event_status InputResolved = Agent_Working"
| "event_status NeedsInput = Agent_NeedsInput"

definition event_applies :: "agent_event \<Rightarrow> agent_status option \<Rightarrow> bool \<Rightarrow> bool" where
  "event_applies e current ambiguous_idle_notification =
     (case e of
        SessionStarted \<Rightarrow> current \<noteq> Some Agent_Working \<and> current \<noteq> Some Agent_NeedsInput
      | NeedsInput \<Rightarrow> \<not> ambiguous_idle_notification \<or> current \<noteq> Some Agent_Idle
      | InputResolved \<Rightarrow> current = Some Agent_NeedsInput
      | _ \<Rightarrow> True)"

section \<open>The tables\<close>

definition INTERRUPTED :: string where "INTERRUPTED = ''ModTurnInterrupted''"

definition CLAUDE_EVENTS :: "(string \<times> agent_event) list" where
  "CLAUDE_EVENTS =
     [(''SessionStart'', SessionStarted), (''UserPromptSubmit'', PromptSubmitted), (''Stop'', TurnEnded),
      (''StopFailure'', TurnFailed), (INTERRUPTED, TurnInterrupted), (''Notification'', NeedsInput),
      (''PermissionRequest'', NeedsInput), (''PermissionDenied'', InputResolved),
      (''Elicitation'', NeedsInput), (''ElicitationResult'', InputResolved)]"

definition CLAUDE_CORRELATION_EVENTS :: "string list" where
  "CLAUDE_CORRELATION_EVENTS =
     [''SubagentStart'', ''SubagentStop'', ''PreToolUse'', ''PostToolUse'', ''PostToolUseFailure'']"

definition CODEX_EVENTS :: "(string \<times> agent_event) list" where
  "CODEX_EVENTS =
     [(''SessionStart'', SessionStarted), (''UserPromptSubmit'', PromptSubmitted), (''Stop'', TurnEnded),
      (''StopFailure'', TurnFailed), (''Interrupt'', TurnInterrupted), (''PermissionRequest'', NeedsInput)]"

definition CODEX_CORRELATION_EVENTS :: "string list" where
  "CODEX_CORRELATION_EVENTS =
     [''SubagentStart'', ''SubagentStop'', ''SessionEnd'', ''PreToolUse'', ''PostToolUse'']"

definition OPENCODE_EVENTS :: "(string \<times> agent_event) list" where
  "OPENCODE_EVENTS =
     [(''session.created'', SessionStarted), (''message.updated'', PromptSubmitted),
      (''session.status'', Activity), (''permission.asked'', NeedsInput),
      (''permission.updated'', NeedsInput), (''permission.replied'', InputResolved),
      (''question.asked'', NeedsInput), (''question.replied'', InputResolved),
      (''question.rejected'', InputResolved), (''question.v2.asked'', NeedsInput),
      (''question.v2.replied'', InputResolved), (''question.v2.rejected'', InputResolved),
      (''session.idle'', TurnEnded), (''session.error'', TurnFailed)]"

definition OPENCODE_CORRELATION_EVENTS :: "string list" where
  "OPENCODE_CORRELATION_EVENTS = [''SubagentStop'', ''PostToolUse'', ''PostToolUseFailure'']"

definition ANTIGRAVITY_EVENTS :: "(string \<times> agent_event) list" where
  "ANTIGRAVITY_EVENTS =
     [(''SessionStart'', SessionStarted), (''PreInvocation'', PromptSubmitted), (''Stop'', TurnEnded),
      (''PreToolUse'', NeedsInput)]"

definition ANTIGRAVITY_CORRELATION_EVENTS :: "string list" where
  "ANTIGRAVITY_CORRELATION_EVENTS = [''PostToolUse'']"

definition ZCODE_EVENTS :: "(string \<times> agent_event) list" where
  "ZCODE_EVENTS =
     [(''SessionStart'', SessionStarted), (''UserPromptSubmit'', PromptSubmitted), (''Stop'', TurnEnded),
      (''PermissionRequest'', NeedsInput)]"

definition ZCODE_CORRELATION_EVENTS :: "string list" where
  "ZCODE_CORRELATION_EVENTS = [''PreToolUse'', ''PostToolUse'', ''PostToolUseFailure'']"

fun events_for :: "agent_kind \<Rightarrow> (string \<times> agent_event) list" where
  "events_for Claude = CLAUDE_EVENTS"
| "events_for Codex = CODEX_EVENTS"
| "events_for Opencode = OPENCODE_EVENTS"
| "events_for Antigravity = ANTIGRAVITY_EVENTS"
| "events_for Zcode = ZCODE_EVENTS"
| "events_for _ = []"

definition from_provider :: "agent_kind \<Rightarrow> string \<Rightarrow> agent_event option" where
  "from_provider provider name =
     map_option snd (List.find (\<lambda>(their_name, _). their_name = name) (events_for provider))"

definition hook_is_installed :: "agent_kind \<Rightarrow> string \<Rightarrow> bool" where
  "hook_is_installed provider event \<longleftrightarrow> \<not> (provider = Codex \<and> event = ''StopFailure'')"

definition reports_turn_failure :: "agent_kind \<Rightarrow> bool \<Rightarrow> bool" where
  "reports_turn_failure provider windows \<longleftrightarrow>
     \<not> (provider = Codex \<and> windows) \<and> list_ex (\<lambda>(_, e). e = TurnFailed) (events_for provider)"

definition names_root_conversation :: "agent_kind \<Rightarrow> string \<Rightarrow> bool" where
  "names_root_conversation provider event =
     (if event \<in> {''SubagentStart'', ''SubagentStop'', ''subagentStart'', ''subagentStop''} then False
      else \<not> (provider = Opencode \<and> (prefix ''permission.'' event \<or> prefix ''question.'' event)))"

definition compaction_event :: "agent_kind \<Rightarrow> string option" where
  "compaction_event provider =
     (case provider of
        Claude \<Rightarrow> Some ''PreCompact''
      | Codex \<Rightarrow> Some ''PreCompact''
      | Opencode \<Rightarrow> Some ''session.compacted''
      | _ \<Rightarrow> None)"

definition reports_start_at_launch :: "agent_kind \<Rightarrow> bool" where
  "reports_start_at_launch provider \<longleftrightarrow> provider \<noteq> Zcode"

definition has_event_mapping :: "agent_kind \<Rightarrow> bool" where
  "has_event_mapping provider \<longleftrightarrow> events_for provider \<noteq> []"

section \<open>The tables are unambiguous\<close>

lemmas event_tables = INTERRUPTED_def CLAUDE_EVENTS_def CODEX_EVENTS_def OPENCODE_EVENTS_def ANTIGRAVITY_EVENTS_def ZCODE_EVENTS_def
  CLAUDE_CORRELATION_EVENTS_def CODEX_CORRELATION_EVENTS_def OPENCODE_CORRELATION_EVENTS_def
  ANTIGRAVITY_CORRELATION_EVENTS_def ZCODE_CORRELATION_EVENTS_def

definition correlation_events :: "agent_kind \<Rightarrow> string list" where
  "correlation_events provider =
     (case provider of
        Claude \<Rightarrow> CLAUDE_CORRELATION_EVENTS
      | Codex \<Rightarrow> CODEX_CORRELATION_EVENTS
      | Opencode \<Rightarrow> OPENCODE_CORRELATION_EVENTS
      | Antigravity \<Rightarrow> ANTIGRAVITY_CORRELATION_EVENTS
      | Zcode \<Rightarrow> ZCODE_CORRELATION_EVENTS
      | _ \<Rightarrow> [])"

lemma events_for_distinct: "distinct (map fst (events_for p))"
  by (cases p) (simp_all add: event_tables)

lemma find_fst:
  "distinct (map fst xs) \<Longrightarrow> map_option snd (List.find (\<lambda>(k, _). k = n) xs) = Some e \<longleftrightarrow> (n, e) \<in> set xs"
  by (induction xs) (auto simp: image_iff)

text \<open>Reading a provider's event name is exact: a name maps to an event exactly when the provider's
  table lists that pair, no name is both a status event and a correlation event, every provider
  with a table reports both the start and the end of a turn, and none of its sub-agent events
  reads as the pane's own status.\<close>

theorem provider_events_are_exact:
  "(from_provider p name = Some e \<longleftrightarrow> (name, e) \<in> set (events_for p))
   \<and> set (map fst (events_for p)) \<inter> set (correlation_events p) = {}
   \<and> has_event_mapping p = list_ex (\<lambda>(_, ev). ev = TurnEnded) (events_for p)
   \<and> has_event_mapping p = list_ex (\<lambda>(_, ev). ev = PromptSubmitted) (events_for p)
   \<and> from_provider p ''SubagentStop'' = None"
proof -
  have "(from_provider p name = Some e) = ((name, e) \<in> set (events_for p))"
    unfolding from_provider_def by (rule find_fst [OF events_for_distinct])
  then show ?thesis
    by (cases p) (simp_all add: from_provider_def correlation_events_def has_event_mapping_def event_tables)
qed

end
