(* ===== verification/Delegation.thy ===== *)
theory Delegation
  imports Agent_Events
begin

text \<open>
  Orchestration (\<^verbatim>\<open>core/houston-core/src/orchestrate.rs\<close>): the caps on spawning, which pane tools
  a role is offered, the life cycle of a delegation, how its end is settled, when a turn end
  without a result is reported, and the kinds of inbox message with their stored names.
\<close>

section \<open>Spawning\<close>

datatype spawn_verdict = Go | Refused string

definition children_cap_verdict :: "u32 \<Rightarrow> u32 \<Rightarrow> u32 \<Rightarrow> spawn_verdict" where
  "children_cap_verdict parent live_children cap =
     (if cap \<le> live_children then
        Refused (''spawn refused: pane '' @ dec (unat parent) @ '' already has '' @ dec (unat live_children)
                 @ '' live children (cap '' @ dec (unat cap) @ '')'')
      else Go)"

text \<open>The message holds two characters outside ASCII, written as their UTF-8 bytes.\<close>

definition depth_cap_verdict :: "u32 \<Rightarrow> u32 \<Rightarrow> spawn_verdict" where
  "depth_cap_verdict would_be cap =
     (if cap < would_be then
        Refused (''spawn refused: that child would sit at depth '' @ dec (unat would_be)
          @ '' and the cap is '' @ dec (unat cap) @ ''. Nesting is off by default ''
          @ [CHR 0xE2, CHR 0x80, CHR 0x94]
          @ '' a spawned pane does not itself spawn, because the cost of a tree compounds per generation. ''
          @ ''If a chain is what you meant, the operator raises the cap in Settings ''
          @ [CHR 0xE2, CHR 0x86, CHR 0x92] @ '' Orchestration'')
      else Go)"

section \<open>Pane tools and roles\<close>

record verb_spec =
  vs_cli :: string
  vs_tool :: "string option"
  vs_args :: "string list"

definition PANE_VERBS :: "verb_spec list" where
  "PANE_VERBS =
     [\<lparr>vs_cli = ''spawn'', vs_tool = Some ''pane_spawn'',
       vs_args = [''kind'', ''prompt'', ''model'', ''cwd'', ''auto_approve'', ''profile'', ''role'',
                  ''target_workspace'', ''worktree'', ''branch'', ''reusable'', ''handoff'',
                  ''state_doc'', ''effort'', ''output_format'', ''boundaries'', ''client_request_id'']\<rparr>,
      \<lparr>vs_cli = ''list'', vs_tool = Some ''pane_list'', vs_args = []\<rparr>,
      \<lparr>vs_cli = ''get'', vs_tool = Some ''pane_get'', vs_args = [''session'', ''result_id'']\<rparr>,
      \<lparr>vs_cli = ''prompt'', vs_tool = Some ''pane_prompt'',
       vs_args = [''session'', ''text'', ''client_request_id'', ''mode'']\<rparr>,
      \<lparr>vs_cli = ''keys'', vs_tool = Some ''pane_send_keys'', vs_args = [''session'', ''keys'']\<rparr>,
      \<lparr>vs_cli = ''read'', vs_tool = Some ''pane_read'', vs_args = [''session'', ''lines'', ''source'']\<rparr>,
      \<lparr>vs_cli = ''wait'', vs_tool = Some ''pane_wait'',
       vs_args = [''session'', ''kind'', ''timeout_ms'', ''stall_guard'']\<rparr>,
      \<lparr>vs_cli = ''kill'', vs_tool = Some ''pane_kill'', vs_args = [''session'', ''confirm_children'']\<rparr>,
      \<lparr>vs_cli = ''submit'', vs_tool = Some ''pane_submit'',
       vs_args = [''body'', ''summary'', ''artifacts'', ''request_id'']\<rparr>,
      \<lparr>vs_cli = ''report'', vs_tool = Some ''pane_report'',
       vs_args = [''kind'', ''body'', ''request_id'', ''client_request_id'', ''title'', ''destination'',
                  ''evidence'']\<rparr>,
      \<lparr>vs_cli = ''reply'', vs_tool = Some ''pane_reply'', vs_args = [''message_id'', ''text'', ''client_request_id'']\<rparr>,
      \<lparr>vs_cli = ''message'', vs_tool = Some ''pane_message'', vs_args = [''to'', ''body'', ''client_request_id'']\<rparr>,
      \<lparr>vs_cli = ''deny'', vs_tool = Some ''pane_deny'', vs_args = [''child'', ''episode_id'']\<rparr>,
      \<lparr>vs_cli = ''escalate'', vs_tool = Some ''pane_escalate'', vs_args = [''child'', ''reason'']\<rparr>,
      \<lparr>vs_cli = ''instruction-list'', vs_tool = Some ''pane_instruction_list'', vs_args = [''session'']\<rparr>,
      \<lparr>vs_cli = ''instruction-get'', vs_tool = Some ''pane_instruction_get'', vs_args = [''session'', ''instruction_id'']\<rparr>,
      \<lparr>vs_cli = ''instruction-cancel'', vs_tool = Some ''pane_instruction_cancel'', vs_args = [''session'', ''instruction_id'']\<rparr>,
      \<lparr>vs_cli = ''instruction-resume'', vs_tool = Some ''pane_instruction_resume'', vs_args = [''session'', ''instruction_id'']\<rparr>,
      \<lparr>vs_cli = ''whoami'', vs_tool = None, vs_args = []\<rparr>]"

definition PANE_TOOL_NAMES :: "string list" where
  "PANE_TOOL_NAMES = List.map_filter vs_tool PANE_VERBS"

datatype tool_role_kind = Leaf | Orchestrator (orc_has_parent: bool) (orc_spawnable: bool) | Operator

fun advertises :: "tool_role_kind \<Rightarrow> string \<Rightarrow> bool" where
  "advertises Leaf tool \<longleftrightarrow>
     tool \<in> {''pane_submit'', ''pane_report'', ''pane_reply'', ''pane_message'', ''pane_wait'',
             ''pane_note'', ''workspace_info'', ''night_verdict''}"
| "advertises Operator tool \<longleftrightarrow>
     tool \<in> {''pane_reply'', ''pane_note''} \<or> tool \<notin> set PANE_TOOL_NAMES"
| "advertises (Orchestrator has_parent spawnable) tool \<longleftrightarrow>
     (if tool = ''pane_spawn'' then spawnable
      else if tool \<in> {''pane_submit'', ''pane_report'', ''pane_message''} then has_parent
      else True)"

definition tool_role :: "bool \<Rightarrow> bool \<Rightarrow> bool \<Rightarrow> tool_role_kind" where
  "tool_role has_parent spawnable has_managed_children =
     (if has_parent \<and> \<not> spawnable \<and> \<not> has_managed_children then Leaf
      else if spawnable \<or> has_managed_children then Orchestrator has_parent spawnable
      else Operator)"

section \<open>The life cycle of a delegation\<close>

datatype delegation_state =
  Deleg_Spawning | Deleg_Working | Deleg_AskedOrchestrator | Deleg_NeedsInput | Deleg_Done
  | Deleg_Failed | Deleg_Cancelled | Deleg_Unknown

datatype delegation_event =
  Ev_Spawned | Ev_TurnStarted | Ev_Blocked | Ev_TurnEnded | Ev_ChildExited | Ev_KilledByParent
  | Ev_KilledByOperator | Ev_DaemonRestarted

definition is_closed :: "delegation_state \<Rightarrow> bool" where
  "is_closed s \<longleftrightarrow> s \<in> {Deleg_Done, Deleg_Failed, Deleg_Cancelled, Deleg_Unknown}"

definition is_terminal :: "delegation_state \<Rightarrow> bool" where
  "is_terminal s \<longleftrightarrow> s \<in> {Deleg_Failed, Deleg_Cancelled}"

fun delegation_str :: "delegation_state \<Rightarrow> string" where
  "delegation_str Deleg_Spawning = ''spawning''"
| "delegation_str Deleg_Working = ''working''"
| "delegation_str Deleg_AskedOrchestrator = ''asked_orchestrator''"
| "delegation_str Deleg_NeedsInput = ''needs_input''"
| "delegation_str Deleg_Done = ''done''"
| "delegation_str Deleg_Failed = ''failed''"
| "delegation_str Deleg_Cancelled = ''cancelled''"
| "delegation_str Deleg_Unknown = ''unknown''"

definition delegation_parse :: "string \<Rightarrow> delegation_state option" where
  "delegation_parse s =
     (if s = ''spawning'' then Some Deleg_Spawning
      else if s = ''working'' then Some Deleg_Working
      else if s = ''asked_orchestrator'' then Some Deleg_AskedOrchestrator
      else if s = ''needs_input'' then Some Deleg_NeedsInput
      else if s = ''done'' then Some Deleg_Done
      else if s = ''failed'' then Some Deleg_Failed
      else if s = ''cancelled'' then Some Deleg_Cancelled
      else if s = ''unknown'' then Some Deleg_Unknown
      else None)"

definition delegation_transition ::
  "delegation_state \<Rightarrow> delegation_event \<Rightarrow> bool \<Rightarrow> delegation_state option" where
  "delegation_transition from event has_staged_result =
     (if is_terminal from then None
      else if is_closed from then (if event = Ev_TurnStarted then Some Deleg_Working else None)
      else case event of
        Ev_KilledByParent \<Rightarrow> Some Deleg_Cancelled
      | Ev_KilledByOperator \<Rightarrow> Some Deleg_Cancelled
      | Ev_DaemonRestarted \<Rightarrow> Some Deleg_Unknown
      | Ev_Spawned \<Rightarrow> if from = Deleg_Spawning then Some Deleg_Working else None
      | Ev_TurnStarted \<Rightarrow>
          if from \<in> {Deleg_Spawning, Deleg_NeedsInput, Deleg_AskedOrchestrator} then Some Deleg_Working
          else None
      | Ev_Blocked \<Rightarrow>
          if from \<in> {Deleg_Spawning, Deleg_Working} then Some Deleg_NeedsInput else None
      | Ev_TurnEnded \<Rightarrow> Some (if has_staged_result then Deleg_Done else Deleg_Working)
      | Ev_ChildExited \<Rightarrow> Some (if has_staged_result then Deleg_Done else Deleg_Failed))"

definition prompt_refusal :: "u32 \<Rightarrow> delegation_state \<Rightarrow> string option" where
  "prompt_refusal target state =
     (if is_terminal state then
        Some (''refused: pane '' @ dec (unat target) @ [CHR 39] @ ''s delegation is '' @ delegation_str state
          @ '' '' @ [CHR 0xE2, CHR 0x80, CHR 0x94]
          @ '' its process is gone, so there is nothing left to prompt. Accepted: spawning, working, ''
          @ ''needs_input, done, unknown (a done child is re-promptable, and the new turn reopens its delegation).'')
      else None)"

section \<open>How a turn's end is known and settled\<close>

definition signals_turn_end :: "agent_kind \<Rightarrow> bool" where
  "signals_turn_end kind = list_ex (\<lambda>(_, ev). ev = TurnEnded) (events_for kind)"

definition signals_turn_start :: "agent_kind \<Rightarrow> bool" where
  "signals_turn_start kind = list_ex (\<lambda>(_, ev). ev = PromptSubmitted) (events_for kind)"

datatype turn_end_source_kind = StopHook | AcpTurn | QuietSettle

fun turn_end_label :: "turn_end_source_kind \<Rightarrow> string" where
  "turn_end_label StopHook = ''stop-hook''"
| "turn_end_label AcpTurn = ''acp-turn''"
| "turn_end_label QuietSettle = ''quiet-settle''"

definition is_reported :: "turn_end_source_kind \<Rightarrow> bool" where
  "is_reported s \<longleftrightarrow> s \<noteq> QuietSettle"

definition turn_end_source :: "agent_kind \<Rightarrow> bool \<Rightarrow> bool \<Rightarrow> turn_end_source_kind" where
  "turn_end_source kind acp lifecycle_hook_seen =
     (if acp then AcpTurn
      else if signals_turn_end kind \<and> lifecycle_hook_seen then StopHook
      else QuietSettle)"

definition DELEGATION_SETTLE_QUIET_MS :: nat where "DELEGATION_SETTLE_QUIET_MS = 15000"

datatype settle_action = Wait | FlushStaged | ReportNoHandback

definition delegation_settle_action ::
  "turn_end_source_kind \<Rightarrow> bool \<Rightarrow> bool \<Rightarrow> nat \<Rightarrow> bool \<Rightarrow> settle_action" where
  "delegation_settle_action source has_staged_result busy quiet_ms no_handback_reported =
     (if source \<noteq> QuietSettle \<or> busy \<or> quiet_ms < DELEGATION_SETTLE_QUIET_MS then Wait
      else if has_staged_result then FlushStaged
      else if no_handback_reported then Wait
      else ReportNoHandback)"

definition unsubmitted_turn_end_reaches_parent :: "delegation_state \<Rightarrow> bool \<Rightarrow> bool \<Rightarrow> bool" where
  "unsubmitted_turn_end_reaches_parent state cli_signals_turn_start pane_wrote_a_line \<longleftrightarrow>
     \<not> (state = Deleg_Spawning \<and> cli_signals_turn_start \<and> \<not> pane_wrote_a_line)"

record no_handback_round =
  nr_reported :: bool
  nr_suppressed :: u32

definition no_handback_default :: no_handback_round where
  "no_handback_default = \<lparr>nr_reported = False, nr_suppressed = 0\<rparr>"

definition on_unstaged_turn_end :: "no_handback_round \<Rightarrow> bool \<times> no_handback_round" where
  "on_unstaged_turn_end r =
     (if nr_reported r then (False, r\<lparr>nr_suppressed := nr_suppressed r + 1\<rparr>)
      else (True, r\<lparr>nr_reported := True\<rparr>))"

definition rearm :: "no_handback_round \<Rightarrow> no_handback_round" where
  "rearm r = no_handback_default"

section \<open>Inbox messages\<close>

datatype inbox_kind =
  Inbox_Restored | Inbox_Result | Inbox_NoHandback | Inbox_NeedsInput | Inbox_Exited | Inbox_Stalled
  | Inbox_OperatorNote | Inbox_Mail | Inbox_Progress | Inbox_Question | Inbox_Blocked | Inbox_Reply

definition inbox_urgent :: "inbox_kind \<Rightarrow> bool" where
  "inbox_urgent k \<longleftrightarrow> k \<in> {Inbox_NeedsInput, Inbox_Exited, Inbox_Question, Inbox_Blocked, Inbox_Reply}"

fun inbox_str :: "inbox_kind \<Rightarrow> string" where
  "inbox_str Inbox_Restored = ''restored''"
| "inbox_str Inbox_Result = ''result''"
| "inbox_str Inbox_NoHandback = ''no_handback''"
| "inbox_str Inbox_NeedsInput = ''needs_input''"
| "inbox_str Inbox_Exited = ''exited''"
| "inbox_str Inbox_Stalled = ''stalled''"
| "inbox_str Inbox_OperatorNote = ''operator_note''"
| "inbox_str Inbox_Mail = ''mail''"
| "inbox_str Inbox_Progress = ''progress''"
| "inbox_str Inbox_Question = ''question''"
| "inbox_str Inbox_Blocked = ''blocked''"
| "inbox_str Inbox_Reply = ''reply''"

definition inbox_parse :: "string \<Rightarrow> inbox_kind option" where
  "inbox_parse s =
     (if s = ''restored'' then Some Inbox_Restored
      else if s = ''result'' then Some Inbox_Result
      else if s = ''no_handback'' then Some Inbox_NoHandback
      else if s = ''needs_input'' then Some Inbox_NeedsInput
      else if s = ''exited'' then Some Inbox_Exited
      else if s = ''stalled'' then Some Inbox_Stalled
      else if s = ''operator_note'' then Some Inbox_OperatorNote
      else if s = ''mail'' then Some Inbox_Mail
      else if s = ''progress'' then Some Inbox_Progress
      else if s = ''question'' then Some Inbox_Question
      else if s = ''blocked'' then Some Inbox_Blocked
      else if s = ''reply'' then Some Inbox_Reply
      else None)"

definition INBOX_KIND_VALUES :: "string list" where
  "INBOX_KIND_VALUES =
     [''restored'', ''result'', ''no_handback'', ''needs_input'', ''exited'', ''stalled'',
      ''operator_note'', ''mail'', ''progress'', ''question'', ''blocked'', ''reply'']"

datatype delivered_via = Via_Wait | Via_StopHook | Via_Paste | Via_Operator

fun delivered_str :: "delivered_via \<Rightarrow> string" where
  "delivered_str Via_Wait = ''wait''"
| "delivered_str Via_StopHook = ''stop_hook''"
| "delivered_str Via_Paste = ''paste''"
| "delivered_str Via_Operator = ''operator''"

definition delivered_parse :: "string \<Rightarrow> delivered_via option" where
  "delivered_parse s =
     (if s = ''wait'' then Some Via_Wait
      else if s = ''stop_hook'' then Some Via_StopHook
      else if s = ''paste'' then Some Via_Paste
      else if s = ''operator'' then Some Via_Operator
      else None)"

section \<open>What the roles are offered\<close>

text \<open>A pane is offered the spawn tool exactly when it may spawn, the tools that speak to a
  parent exactly when it has one, and the tools that steer children (kill, prompt, read, deny)
  exactly when it may spawn or has children to manage, for every combination of the three.\<close>

theorem tools_follow_the_role:
  "advertises (tool_role has_parent spawnable managed) ''pane_spawn'' = spawnable
   \<and> advertises (tool_role has_parent spawnable managed) ''pane_submit'' = has_parent
   \<and> advertises (tool_role has_parent spawnable managed) ''pane_report'' = has_parent
   \<and> advertises (tool_role has_parent spawnable managed) ''pane_message'' = has_parent
   \<and> list_all (\<lambda>tool. advertises (tool_role has_parent spawnable managed) tool = (spawnable \<or> managed))
       [''pane_kill'', ''pane_prompt'', ''pane_send_keys'', ''pane_read'', ''pane_deny'', ''pane_escalate'',
        ''pane_list'', ''pane_get'']"
  by (cases has_parent; cases spawnable; cases managed)
    (simp_all add: tool_role_def PANE_TOOL_NAMES_def PANE_VERBS_def List.map_filter_def)

section \<open>Stored names\<close>

text \<open>Stored names read back: every delegation state, inbox kind and delivery door parses from
  its own name, names parse to nothing else, and the database's list of kinds is exactly the
  names in use.\<close>

theorem stored_names_roundtrip:
  "(delegation_parse s = Some d \<longleftrightarrow> s = delegation_str d)
   \<and> (inbox_parse s = Some k \<longleftrightarrow> s = inbox_str k)
   \<and> (delivered_parse s = Some v \<longleftrightarrow> s = delivered_str v)
   \<and> (s \<in> set INBOX_KIND_VALUES \<longleftrightarrow> inbox_parse s \<noteq> None)"
proof -
  have "delegation_parse s = Some d \<longleftrightarrow> s = delegation_str d" by (cases d) (auto simp: delegation_parse_def)
  moreover have "inbox_parse s = Some k \<longleftrightarrow> s = inbox_str k" by (cases k) (auto simp: inbox_parse_def)
  moreover have "delivered_parse s = Some v \<longleftrightarrow> s = delivered_str v" by (cases v) (auto simp: delivered_parse_def)
  moreover have "s \<in> set INBOX_KIND_VALUES \<longleftrightarrow> inbox_parse s \<noteq> None"
    by (auto simp: inbox_parse_def INBOX_KIND_VALUES_def)
  ultimately show ?thesis by blast
qed

section \<open>One report per round\<close>

fun unstaged_ends :: "nat \<Rightarrow> no_handback_round \<Rightarrow> bool list \<times> no_handback_round" where
  "unstaged_ends 0 r = ([], r)"
| "unstaged_ends (Suc n) r =
     (let (delivered, r') = on_unstaged_turn_end r; (rest, r'') = unstaged_ends n r'
      in (delivered # rest, r''))"

lemma unstaged_ends_reported:
  "nr_reported r \<Longrightarrow> unstaged_ends n r = (replicate n False, r\<lparr>nr_suppressed := nr_suppressed r + of_nat n\<rparr>)"
  by (induction n arbitrary: r) (auto simp: on_unstaged_turn_end_def add.assoc)

text \<open>Of the turn ends without a result between two prompts of the parent, exactly the first
  reaches the parent; the rest are counted.\<close>

theorem one_no_handback_report_per_round:
  "unstaged_ends (Suc n) (rearm r) =
     (True # replicate n False, \<lparr>nr_reported = True, nr_suppressed = of_nat n\<rparr>)"
  by (simp add: rearm_def no_handback_default_def on_unstaged_turn_end_def unstaged_ends_reported)

end
