(* ===== verification/Routines.thy ===== *)
theory Routines
  imports Prelude
begin

text \<open>
  Scheduled routines (\<^verbatim>\<open>core/houston-core/src/routines.rs\<close>): which cadences are accepted and when
  a routine runs next. Hours, minutes, seconds and weekdays are the values of the code's \<open>u8\<close>
  fields as naturals, times are signed milliseconds. \<open>localtime_r\<close> and \<open>mktime\<close> belong to the C
  library and are parameters of \<open>next_clock_ms\<close>.
\<close>

definition ROUTINES_TOTAL :: u32 where "ROUTINES_TOTAL = 4096"
definition ROUTINE_MIN_INTERVAL_SECS :: u32 where "ROUTINE_MIN_INTERVAL_SECS = 300"

datatype cadence = Interval (cad_seconds: u32) | Clock (cad_hour: nat) (cad_minute: nat) (cad_weekdays: "nat list option")

text \<open>\<open>existing + 1\<close> wraps at the top of the range, as in a build without overflow checks.\<close>

definition check_total_count :: "u32 \<Rightarrow> (u32 \<times> u32) option" where
  "check_total_count existing =
     (let requested = existing + 1
      in if ROUTINES_TOTAL < requested then Some (ROUTINES_TOTAL, requested) else None)"

datatype cadence_error =
    Interval_Below_Floor u32
  | Hour_Out_Of_Range nat
  | Minute_Out_Of_Range nat
  | Weekdays_Empty
  | Weekday_Out_Of_Range nat

fun validate_cadence :: "cadence \<Rightarrow> cadence_error option" where
  "validate_cadence (Interval seconds) =
     (if seconds < ROUTINE_MIN_INTERVAL_SECS then Some (Interval_Below_Floor seconds) else None)"
| "validate_cadence (Clock hour minute weekdays) =
     (if 23 < hour then Some (Hour_Out_Of_Range hour)
      else if 59 < minute then Some (Minute_Out_Of_Range minute)
      else case weekdays of
        None \<Rightarrow> None
      | Some days \<Rightarrow>
          if days = [] then Some Weekdays_Empty
          else map_option Weekday_Out_Of_Range (List.find (\<lambda>d. \<not> (1 \<le> d \<and> d \<le> 7)) days))"

record clock_now =
  cn_weekday :: nat
  cn_hour :: nat
  cn_minute :: nat
  cn_second :: nat

definition days_until_clock :: "clock_now \<Rightarrow> nat \<Rightarrow> nat \<Rightarrow> nat list option \<Rightarrow> nat" where
  "days_until_clock now hour minute weekdays =
     (let allowed = (\<lambda>wd. case weekdays of Some days \<Rightarrow> if days \<noteq> [] then wd \<in> set days else True
                                          | None \<Rightarrow> True);
          now_secs = cn_hour now * 3600 + cn_minute now * 60 + cn_second now;
          target_secs = hour * 3600 + minute * 60
      in case List.find (\<lambda>days. \<not> (days = 0 \<and> target_secs < now_secs)
                              \<and> allowed ((cn_weekday now - 1 + days) mod 7 + 1)) [0..<8] of
           Some days \<Rightarrow> days | None \<Rightarrow> 7)"

definition next_clock_ms_utc :: "int \<Rightarrow> nat \<Rightarrow> nat \<Rightarrow> nat list option \<Rightarrow> int" where
  "next_clock_ms_utc now_ms hour minute weekdays =
     (let now_secs = now_ms div 1000;
          day_index = now_secs div 86400;
          secs_today = now_secs mod 86400;
          now = \<lparr>cn_weekday = nat ((day_index + 4) mod 7) + 1, cn_hour = nat (secs_today div 3600),
                 cn_minute = nat (secs_today mod 3600 div 60), cn_second = nat (secs_today mod 60)\<rparr>;
          days = int (days_until_clock now hour minute weekdays);
          target_secs = (day_index + days) * 86400 + int hour * 3600 + int minute * 60
      in target_secs * 1000)"

record tm =
  tm_sec :: int
  tm_min :: int
  tm_hour :: int
  tm_mday :: int
  tm_mon :: int
  tm_year :: int
  tm_wday :: int
  tm_yday :: int
  tm_isdst :: int

definition next_clock_ms ::
  "(int \<Rightarrow> tm option) \<Rightarrow> (tm \<Rightarrow> int) \<Rightarrow> int \<Rightarrow> nat \<Rightarrow> nat \<Rightarrow> nat list option \<Rightarrow> int" where
  "next_clock_ms localtime mktime now_ms hour minute weekdays =
     (case localtime (now_ms div 1000) of
        None \<Rightarrow> next_clock_ms_utc now_ms hour minute weekdays
      | Some t \<Rightarrow>
          (let now = \<lparr>cn_weekday = nat (tm_wday t) + 1, cn_hour = nat (tm_hour t),
                      cn_minute = nat (tm_min t), cn_second = nat (tm_sec t)\<rparr>;
               days = days_until_clock now hour minute weekdays;
               target = mktime (t\<lparr>tm_mday := tm_mday t + int days, tm_hour := int hour,
                                  tm_min := int minute, tm_sec := 0, tm_isdst := - 1\<rparr>)
           in if target = - 1 then next_clock_ms_utc now_ms hour minute weekdays else target * 1000))"

text \<open>\<open>clock\<close> is \<open>next_clock_ms\<close> of the platform.\<close>

definition next_run_at_ms :: "(int \<Rightarrow> nat \<Rightarrow> nat \<Rightarrow> nat list option \<Rightarrow> int) \<Rightarrow> cadence \<Rightarrow> int \<Rightarrow> int" where
  "next_run_at_ms clock cadence now_ms =
     (let next_ms = (case cadence of
            Interval seconds \<Rightarrow> min (now_ms + int (unat seconds) * 1000) (2 ^ 63 - 1)
          | Clock hour minute weekdays \<Rightarrow> clock now_ms hour minute weekdays)
      in max next_ms now_ms)"

section \<open>The next run is the first one due\<close>

text \<open>Day \<open>d\<close> counts from 1 January 1970, a Thursday; 1 is Sunday.\<close>

definition clock_slot :: "nat \<Rightarrow> nat \<Rightarrow> int \<Rightarrow> int" where
  "clock_slot hour minute d = (d * 86400 + int hour * 3600 + int minute * 60) * 1000"

definition day_allowed :: "nat list option \<Rightarrow> int \<Rightarrow> bool" where
  "day_allowed weekdays d \<longleftrightarrow>
     (case weekdays of Some days \<Rightarrow> days \<noteq> [] \<longrightarrow> nat ((d + 4) mod 7) + 1 \<in> set days | None \<Rightarrow> True)"

lemma find_upt_Some:
  "List.find P [0..<n] = Some d \<longleftrightarrow> d < n \<and> P d \<and> (\<forall>k < d. \<not> P k)"
  by (auto simp: find_Some_iff)

lemma validate_clock_None:
  assumes "validate_cadence (Clock hour minute weekdays) = None"
  shows "hour \<le> 23" "minute \<le> 59"
    "case weekdays of None \<Rightarrow> True | Some days \<Rightarrow> days \<noteq> [] \<and> (\<forall>d \<in> set days. 1 \<le> d \<and> d \<le> 7)"
  using assms by (auto simp: find_None_iff split: if_splits option.splits)

text \<open>Any weekday comes round within the next seven days.\<close>

lemma weekday_within_week:
  fixes day :: int
  assumes "1 \<le> w" "w \<le> (7::nat)"
  obtains d :: nat where "1 \<le> d" "d \<le> 7" "nat ((day + int d + 4) mod 7) + 1 = w"
proof -
  let ?r = "nat ((int w - 1 - (day + 4)) mod 7)"
  let ?d = "if ?r = 0 then 7 else ?r"
  have "1 \<le> ?d" "?d \<le> 7" by auto
  moreover have "(day + int ?d + 4) mod 7 = (int w - 1) mod 7"
  proof -
    have "0 \<le> (int w - 1 - (day + 4)) mod 7" by (rule pos_mod_sign) simp
    then have "int ?d mod 7 = (int w - 1 - (day + 4)) mod 7" by auto
    then have "(day + 4 + int ?d) mod 7 = (day + 4 + (int w - 1 - (day + 4))) mod 7"
      by (metis mod_add_right_eq)
    then show ?thesis by (simp add: algebra_simps)
  qed
  then have "nat ((day + int ?d + 4) mod 7) + 1 = w" using assms by simp
  ultimately show ?thesis by (rule that)
qed

lemma weekday_shift: "(nat ((day + 4) mod 7) + 1 - 1 + d) mod 7 + 1 = nat ((day + int d + 4) mod 7) + 1"
proof -
  have "int ((nat ((day + 4) mod 7) + d) mod 7) = (day + int d + 4) mod 7"
    by (simp add: zmod_int mod_add_left_eq mod_add_right_eq algebra_simps)
  then show ?thesis by (metis add_diff_cancel_right' nat_int)
qed

lemma seconds_of_day:
  fixes s :: int
  assumes "0 \<le> s"
  shows "nat (s div 3600) * 3600 + nat (s mod 3600 div 60) * 60 + nat (s mod 60) = nat s"
proof -
  have "s mod 3600 mod 60 = s mod 60" by (simp add: mod_mod_cancel)
  then have "s div 3600 * 3600 + (s mod 3600 div 60) * 60 + s mod 60 = s"
    by (metis div_mult_mod_eq add.assoc)
  then have "int (nat (s div 3600) * 3600 + nat (s mod 3600 div 60) * 60 + nat (s mod 60)) = s"
    using assms by (simp add: pos_imp_zdiv_nonneg_iff)
  then show ?thesis by (metis nat_int)
qed

lemma days_until_clock_utc:
  fixes day s :: int
  assumes valid: "validate_cadence (Clock hour minute weekdays) = None" and s: "0 \<le> s" "s < 86400"
  defines "now \<equiv> \<lparr>cn_weekday = nat ((day + 4) mod 7) + 1, cn_hour = nat (s div 3600),
             cn_minute = nat (s mod 3600 div 60), cn_second = nat (s mod 60)\<rparr>"
  defines "d \<equiv> days_until_clock now hour minute weekdays"
  shows "day_allowed weekdays (day + int d)"
    and "d = 0 \<Longrightarrow> s \<le> int (hour * 3600 + minute * 60)"
    and "day_allowed weekdays (day + int k) \<Longrightarrow> k = 0 \<Longrightarrow> s \<le> int (hour * 3600 + minute * 60) \<Longrightarrow> d = 0"
    and "day_allowed weekdays (day + int k) \<Longrightarrow> 0 < k \<Longrightarrow> d \<le> k"
proof -
  let ?target = "hour * 3600 + minute * 60"
  let ?ok = "\<lambda>k. \<not> (k = 0 \<and> ?target < nat s) \<and> day_allowed weekdays (day + int k)"
  have search: "d = (case List.find ?ok [0..<8] of Some k \<Rightarrow> k | None \<Rightarrow> 7)"
    unfolding d_def now_def days_until_clock_def clock_now.simps seconds_of_day [OF s(1)] Let_def
      weekday_shift day_allowed_def
    by (auto intro!: arg_cong [where f = "\<lambda>P. case List.find P _ of Some k \<Rightarrow> k | None \<Rightarrow> 7"] split: option.split)
  have "\<exists>k < 8. 0 < k \<and> day_allowed weekdays (day + int k)"
  proof (cases weekdays)
    case None
    then show ?thesis by (auto simp: day_allowed_def intro: exI [of _ 1])
  next
    case (Some days)
    with validate_clock_None(3) [OF valid] have "hd days \<in> set days" "1 \<le> hd days" "hd days \<le> 7" by auto
    with weekday_within_week [of "hd days" day] obtain k where "1 \<le> k" "k \<le> 7" "nat ((day + int k + 4) mod 7) + 1 = hd days"
      by blast
    with Some \<open>hd days \<in> set days\<close> show ?thesis by (intro exI [of _ k]) (auto simp: day_allowed_def)
  qed
  then have "List.find ?ok [0..<8] \<noteq> None" by (auto simp: find_None_iff)
  with search have found: "List.find ?ok [0..<8] = Some d" by (auto split: option.splits)
  then have d: "d < 8" "?ok d" "\<forall>k < d. \<not> ?ok k" unfolding find_upt_Some by blast+
  show "day_allowed weekdays (day + int d)" using d(2) by simp
  show "d = 0 \<Longrightarrow> s \<le> int ?target" using d(2) s(1) by (auto simp: not_less nat_le_iff)
  show "day_allowed weekdays (day + int k) \<Longrightarrow> k = 0 \<Longrightarrow> s \<le> int ?target \<Longrightarrow> d = 0"
  proof -
    assume k: "day_allowed weekdays (day + int k)" "k = 0" "s \<le> int ?target"
    then have "?ok 0" by (simp add: nat_le_iff not_less)
    with d(3) show "d = 0" by (metis gr0I)
  qed
  show "day_allowed weekdays (day + int k) \<Longrightarrow> 0 < k \<Longrightarrow> d \<le> k"
  proof (rule ccontr)
    assume k: "day_allowed weekdays (day + int k)" "0 < k" "\<not> d \<le> k"
    then have "\<not> ?ok k" using d(3) by (metis not_le)
    with k show False by simp
  qed
qed

text \<open>The day found is the first whose slot is not past, as arithmetic on days and seconds.\<close>

lemma first_slot_of_days:
  fixes day s n target :: int and m k :: nat
  assumes n: "n = day * 86400 + s" "0 \<le> s" "s < 86400" and target: "0 \<le> target" "target < 86400"
    and zero: "m = 0 \<Longrightarrow> s \<le> target"
    and same: "k = 0 \<Longrightarrow> s \<le> target \<Longrightarrow> m = 0" and later: "0 < k \<Longrightarrow> m \<le> k"
  shows "n \<le> (day + int m) * 86400 + target"
    and "n \<le> (day + int k) * 86400 + target \<Longrightarrow> m \<le> k"
proof -
  show "n \<le> (day + int m) * 86400 + target"
  proof (cases "m = 0")
    case True
    then show ?thesis using n target zero by simp
  next
    case False
    then have "1 * 86400 \<le> int m * 86400" by (intro mult_right_mono) simp_all
    then show ?thesis using n target by (simp add: distrib_right)
  qed
  show "m \<le> k" if "n \<le> (day + int k) * 86400 + target"
    using n(1) that same later by (cases "k = 0") auto
qed

lemma slot_not_before_day:
  fixes day s n target e :: int
  assumes "n = day * 86400 + s" "0 \<le> s" "target < 86400" "n \<le> e * 86400 + target"
  obtains k :: nat where "e = day + int k"
proof -
  from assms have "day \<le> e" by linarith
  then show ?thesis using that zle_iff_zadd by blast
qed

lemma slot_ge_iff:
  "n * 1000 \<le> clock_slot hour minute e \<longleftrightarrow> n \<le> e * 86400 + (int hour * 3600 + int minute * 60)"
  unfolding clock_slot_def by (simp del: distrib_right_numeral add: add.assoc)

lemma slot_le_slot: "clock_slot hour minute d \<le> clock_slot hour minute e \<longleftrightarrow> d \<le> e"
  unfolding clock_slot_def by simp

lemmas slot_le_iff = slot_ge_iff slot_le_slot

text \<open>On the UTC clock the result is a slot (its hour and minute, on an allowed weekday), it does not lie
  before the current second, and no other slot from that second on is earlier.\<close>

theorem next_clock_is_the_first_slot:
  assumes "validate_cadence (Clock hour minute weekdays) = None"
  shows "\<exists>d. next_clock_ms_utc now hour minute weekdays = clock_slot hour minute d \<and> day_allowed weekdays d
    \<and> now div 1000 * 1000 \<le> clock_slot hour minute d
    \<and> (\<forall>e. day_allowed weekdays e \<and> now div 1000 * 1000 \<le> clock_slot hour minute e \<longrightarrow>
            clock_slot hour minute d \<le> clock_slot hour minute e)"
proof -
  let ?n = "now div 1000" and ?target = "int hour * 3600 + int minute * 60"
  let ?day = "?n div 86400" and ?s = "?n mod 86400"
  let ?m = "days_until_clock \<lparr>cn_weekday = nat ((?day + 4) mod 7) + 1, cn_hour = nat (?s div 3600),
             cn_minute = nat (?s mod 3600 div 60), cn_second = nat (?s mod 60)\<rparr> hour minute weekdays"
  have n: "?n = ?day * 86400 + ?s" by (rule div_mult_mod_eq [symmetric])
  have s: "0 \<le> ?s" "?s < 86400" by (rule pos_mod_sign, simp) (rule pos_mod_bound, simp)
  have target: "0 \<le> ?target" "?target < 86400" using validate_clock_None(1,2) [OF assms] by simp_all
  note days = days_until_clock_utc [OF assms s, of ?day, unfolded of_nat_add of_nat_mult of_nat_numeral]
  note arith = first_slot_of_days [OF n s target, of ?m]
  have utc: "next_clock_ms_utc now hour minute weekdays = clock_slot hour minute (?day + int ?m)"
    unfolding next_clock_ms_utc_def clock_slot_def Let_def by (rule refl)
  have due: "?n * 1000 \<le> clock_slot hour minute (?day + int ?m)"
    unfolding slot_le_iff by (rule arith(1) [of ?m]) (use days(2) in \<open>assumption | blast\<close>)+
  have first: "clock_slot hour minute (?day + int ?m) \<le> clock_slot hour minute e"
    if e: "day_allowed weekdays e" "?n * 1000 \<le> clock_slot hour minute e" for e
  proof -
    from e(2) obtain k where k: "e = ?day + int k"
      unfolding slot_le_iff by (rule slot_not_before_day [OF n s(1) target(2)]) blast
    have "?m \<le> k"
      by (rule arith(2) [of k]) (use days(2) days(3,4) [OF e(1) [unfolded k]] e(2) [unfolded slot_le_iff k] in blast)+
    then show ?thesis unfolding slot_le_iff k by (rule add_left_mono [OF of_nat_mono])
  qed
  show ?thesis using utc due days(1) first by blast
qed

lemma next_clock_is_the_first_slot_witness:
  "validate_cadence (Clock 9 30 (Some [2])) = None \<and>
   (\<exists>d. next_clock_ms_utc 0 9 30 (Some [2]) = clock_slot 9 30 d \<and> day_allowed (Some [2]) d \<and> 0 \<le> clock_slot 9 30 d)"
proof -
  have valid: "validate_cadence (Clock 9 30 (Some [2])) = None" by simp
  from next_clock_is_the_first_slot [OF this, of 0] show ?thesis
    by (elim exE conjE) (intro conjI exI, rule valid, assumption+, simp)
qed

section \<open>In a time zone\<close>

text \<open>What the C library promises where the local clock keeps its offset from UTC, of \<open>offset\<close> seconds:
  \<open>localtime_r\<close> tells the weekday and the time of day of the shifted seconds, and \<open>mktime\<close> finds the second at
  which that clock reads the given time so many days later.\<close>

definition fixed_zone :: "int \<Rightarrow> (int \<Rightarrow> tm option) \<Rightarrow> (tm \<Rightarrow> int) \<Rightarrow> bool" where
  "fixed_zone offset localtime mktime \<longleftrightarrow> (\<forall>s. \<exists>t. localtime s = Some t
     \<and> (let local = s + offset; day = local div 86400; secs = local mod 86400 in
         tm_wday t = (day + 4) mod 7 \<and> tm_hour t = secs div 3600 \<and> tm_min t = secs mod 3600 div 60
         \<and> tm_sec t = secs mod 60
         \<and> (\<forall>days hour minute. 0 \<le> hour \<longrightarrow> hour < 24 \<longrightarrow> 0 \<le> minute \<longrightarrow> minute < 60 \<longrightarrow>
              mktime (t\<lparr>tm_mday := tm_mday t + int days, tm_hour := hour, tm_min := minute, tm_sec := 0,
                tm_isdst := - 1\<rparr>) = (day + int days) * 86400 + hour * 3600 + minute * 60 - offset)))"

lemma whole_minutes: "60 dvd k \<Longrightarrow> d * 86400 + h * 3600 + m * 60 - k \<noteq> (- 1 :: int)"
proof
  assume "60 dvd k" and eq: "d * 86400 + h * 3600 + m * 60 - k = - 1"
  then obtain j where "k = 60 * j" by (auto elim: dvdE)
  with eq have "60 * (d * 1440 + h * 60 + m - j) = - 1" by (simp add: algebra_simps)
  moreover have "60 * x \<noteq> - 1" for x :: int by presburger
  ultimately show False by blast
qed

lemma next_clock_in_zone:
  assumes "fixed_zone offset localtime mktime" and "60 dvd offset" and "hour < 24" and "minute < 60"
  shows "next_clock_ms localtime mktime now hour minute weekdays
    = next_clock_ms_utc (now + offset * 1000) hour minute weekdays - offset * 1000"
proof -
  let ?local = "now div 1000 + offset"
  let ?day = "?local div 86400" and ?s = "?local mod 86400"
  obtain t where t: "localtime (now div 1000) = Some t" "tm_wday t = (?day + 4) mod 7" "tm_hour t = ?s div 3600"
    "tm_min t = ?s mod 3600 div 60" "tm_sec t = ?s mod 60"
    and mk: "\<And>days h m. 0 \<le> h \<Longrightarrow> h < 24 \<Longrightarrow> 0 \<le> m \<Longrightarrow> m < 60 \<Longrightarrow>
      mktime (t\<lparr>tm_mday := tm_mday t + int days, tm_hour := h, tm_min := m, tm_sec := 0, tm_isdst := - 1\<rparr>)
        = (?day + int days) * 86400 + h * 3600 + m * 60 - offset"
    using assms(1) unfolding fixed_zone_def Let_def by metis
  have local: "(now + offset * 1000) div 1000 = ?local" by simp
  let ?days = "days_until_clock \<lparr>cn_weekday = nat ((?day + 4) mod 7) + 1, cn_hour = nat (?s div 3600),
      cn_minute = nat (?s mod 3600 div 60), cn_second = nat (?s mod 60)\<rparr> hour minute weekdays"
  let ?target = "(?day + int ?days) * 86400 + int hour * 3600 + int minute * 60 - offset"
  have "?target \<noteq> - 1" by (rule whole_minutes [OF assms(2)])
  moreover have "mktime (t\<lparr>tm_mday := tm_mday t + int ?days, tm_hour := int hour, tm_min := int minute, tm_sec := 0,
      tm_isdst := - 1\<rparr>) = ?target" by (rule mk) (use assms(3,4) in auto)
  ultimately have "next_clock_ms localtime mktime now hour minute weekdays = ?target * 1000"
    by (simp only: next_clock_ms_def t option.case Let_def if_False)
  moreover have "next_clock_ms_utc (now + offset * 1000) hour minute weekdays
      = ((?day + int ?days) * 86400 + int hour * 3600 + int minute * 60) * 1000"
    unfolding next_clock_ms_utc_def Let_def local by (rule refl)
  ultimately show ?thesis by (simp only: left_diff_distrib)
qed

text \<open>C40: Every accepted cadence has a next run, and it is the right one, where the local clock keeps a whole
  number of minutes from UTC: an interval runs when its seconds are over; a clock cadence runs at the first of
  its slots in local time (its hour and minute, on an allowed weekday) that is not before the current second,
  or at once when that slot is the current second itself.\<close>

theorem next_run_is_the_first_slot:
  assumes "validate_cadence cadence = None" and "fixed_zone offset localtime mktime" and "60 dvd offset"
    and "now + 2 ^ 32 * 1000 < 2 ^ 63"
  shows "case cadence of
      Interval seconds \<Rightarrow> next_run_at_ms (next_clock_ms localtime mktime) cadence now = now + int (unat seconds) * 1000
    | Clock hour minute weekdays \<Rightarrow>
        (\<exists>d. next_run_at_ms (next_clock_ms localtime mktime) cadence now
               = max (clock_slot hour minute d - offset * 1000) now
           \<and> day_allowed weekdays d \<and> now div 1000 * 1000 \<le> clock_slot hour minute d - offset * 1000
           \<and> (\<forall>e. day_allowed weekdays e \<and> now div 1000 * 1000 \<le> clock_slot hour minute e - offset * 1000 \<longrightarrow>
                  clock_slot hour minute d \<le> clock_slot hour minute e))"
proof (cases cadence)
  case (Interval seconds)
  have "uint seconds < 2 ^ LENGTH(32)" by (rule unsigned_less)
  then have "int (unat seconds) < 2 ^ 32" by simp
  with assms(4) show ?thesis by (simp add: Interval next_run_at_ms_def)
next
  case (Clock hour minute weekdays)
  have v: "validate_cadence (Clock hour minute weekdays) = None" using assms(1) Clock by simp
  have utc: "next_clock_ms localtime mktime now hour minute weekdays
      = next_clock_ms_utc (now + offset * 1000) hour minute weekdays - offset * 1000"
    by (rule next_clock_in_zone [OF assms(2,3)]) (use validate_clock_None(1,2) [OF v] in simp_all)
  have second: "(now + offset * 1000) div 1000 * 1000 = now div 1000 * 1000 + offset * 1000"
    by (simp add: distrib_right)
  from next_clock_is_the_first_slot [OF v, of "now + offset * 1000"] obtain d where
    "next_clock_ms_utc (now + offset * 1000) hour minute weekdays = clock_slot hour minute d" "day_allowed weekdays d"
    "now div 1000 * 1000 + offset * 1000 \<le> clock_slot hour minute d"
    "\<forall>e. day_allowed weekdays e \<and> now div 1000 * 1000 + offset * 1000 \<le> clock_slot hour minute e \<longrightarrow>
       clock_slot hour minute d \<le> clock_slot hour minute e" unfolding second by blast
  then show ?thesis
    by (simp add: Clock next_run_at_ms_def utc) (intro exI [of _ d], simp add: le_diff_eq)
qed

text \<open>A zone two hours ahead of UTC, with days counted instead of months.\<close>

definition sample_localtime :: "int \<Rightarrow> tm option" where
  "sample_localtime s = (let local = s + 7200; secs = local mod 86400 in
     Some \<lparr>tm_sec = secs mod 60, tm_min = secs mod 3600 div 60, tm_hour = secs div 3600,
       tm_mday = local div 86400, tm_mon = 0, tm_year = 70, tm_wday = (local div 86400 + 4) mod 7, tm_yday = 0,
       tm_isdst = 0\<rparr>)"

definition sample_mktime :: "tm \<Rightarrow> int" where
  "sample_mktime t = tm_mday t * 86400 + tm_hour t * 3600 + tm_min t * 60 + tm_sec t - 7200"

lemma sample_zone: "fixed_zone 7200 sample_localtime sample_mktime"
  by (simp add: fixed_zone_def sample_localtime_def sample_mktime_def Let_def)

theorem next_run_is_the_first_slot_witness:
  "\<exists>d. next_run_at_ms (next_clock_ms sample_localtime sample_mktime) (Clock 9 0 (Some [2])) 0
     = max (clock_slot 9 0 d - 7200 * 1000) 0 \<and> day_allowed (Some [2]) d"
  using next_run_is_the_first_slot [of "Clock 9 0 (Some [2])", OF _ sample_zone, of 0] by auto

text \<open>A tick inside the slot's own second finds the routine due at that very moment again: here
  09:00:00.500 on 1 January 1970, for a routine at 09:00 every day.\<close>

lemma clock_routine_due_again:
  "next_run_at_ms next_clock_ms_utc (Clock 9 0 None) 32400500 = 32400500"
  by (simp add: next_run_at_ms_def next_clock_ms_utc_def days_until_clock_def upt_rec Let_def)

end
