(* ===== verification/Osc_Scan.thy ===== *)
theory Osc_Scan
  imports Rust_Std
begin

text \<open>
  The scanners that watch a session's raw output for operating system commands
  (\<^verbatim>\<open>ESC ] ... BEL\<close> or \<^verbatim>\<open>ESC ] ... ESC \\<close>): clipboard writes
  (\<^verbatim>\<open>core/houston-core/src/osc52.rs\<close>), window titles (\<^verbatim>\<open>osc_title.rs\<close>) and, in theory
  Markers, the shell's own marks (\<^verbatim>\<open>markers.rs\<close>). A PTY delivers its output in arbitrary chunks, so each
  scanner carries an unterminated tail over to the next chunk. The three \<open>feed\<close> methods share
  their text but for what they do at an escape; \<open>osc_feed\<close> is that text, with the decision at
  an escape as its argument. Offsets are naturals. The locale \<open>chunk_scanner\<close> states what such a
  decision must promise for the cut into chunks not to matter.
\<close>

section \<open>The shared loop\<close>

text \<open>At an escape: go on behind it; wait for more output; or a sequence of which \<open>k\<close> more bytes
  follow the escape.\<close>

datatype 'a at_esc = Esc_Skip | Esc_Wait | Esc_Found nat 'a

text \<open>The \<open>while let Some(esc_rel) = memchr(0x1b, ..)\<close> loop on \<open>work[pos..]\<close>, \<open>base\<close> being the
  stream offset of its first byte: the hits and the tail to carry (\<open>new_carry\<close>), both with
  their offsets.\<close>

function esc_scan ::
  "(byte list \<Rightarrow> 'a at_esc) \<Rightarrow> nat \<Rightarrow> byte list \<Rightarrow> (nat \<times> 'a) list \<times> (nat \<times> byte list) option" where
  "esc_scan at_esc base [] = ([], None)"
| "esc_scan at_esc base (b # bs) =
     (if b \<noteq> 0x1b then esc_scan at_esc (Suc base) bs
      else case at_esc (b # bs) of
        Esc_Skip \<Rightarrow> esc_scan at_esc (Suc base) bs
      | Esc_Wait \<Rightarrow> ([], Some (base, b # bs))
      | Esc_Found k v \<Rightarrow>
          (let (hits, carry) = esc_scan at_esc (base + Suc k) (drop k bs) in ((base, v) # hits, carry)))"
  by pat_completeness auto
termination by (relation "measure (\<lambda>(_, _, work). length work)") auto

record scanner =
  sc_carry :: "byte list"
  sc_offset :: nat

definition scanner_new :: scanner where
  "scanner_new = \<lparr>sc_carry = [], sc_offset = 0\<rparr>"

definition ends_with_partial :: "byte list \<Rightarrow> bool" where
  "ends_with_partial chunk \<longleftrightarrow> (chunk \<noteq> [] \<and> last chunk = 0x1b) \<or> suffix [0x1b, 0x5d] chunk"

definition osc_feed ::
  "(byte list \<Rightarrow> 'a at_esc) \<Rightarrow> nat \<Rightarrow> byte list \<Rightarrow> nat \<Rightarrow> scanner \<Rightarrow> (nat \<times> 'a) list \<times> scanner" where
  "osc_feed at_esc cap chunk chunk_offset s =
     (if sc_carry s = [] \<and> \<not> contains [0x1b, 0x5d] chunk \<and> \<not> ends_with_partial chunk then ([], s)
      else
        (let (work, base) = (if sc_carry s = [] then (chunk, chunk_offset) else (sc_carry s @ chunk, sc_offset s));
             (hits, new_carry) = esc_scan at_esc base work
         in (hits,
             case new_carry of
               Some (off, tail) \<Rightarrow> if length tail \<le> cap then \<lparr>sc_carry = tail, sc_offset = off\<rparr> else s\<lparr>sc_carry := []\<rparr>
             | None \<Rightarrow> s\<lparr>sc_carry := []\<rparr>)))"

text \<open>\<open>find_terminator\<close> from index \<open>i\<close>, given the bytes from there on: where the sequence ends and
  how long its terminator is.\<close>

fun find_terminator :: "nat \<Rightarrow> byte list \<Rightarrow> (nat \<times> nat) option" where
  "find_terminator i [] = None"
| "find_terminator i (b # bs) =
     (if b = 0x07 then Some (i, 1)
      else if b = 0x1b \<and> bs \<noteq> [] \<and> hd bs = 0x5c then Some (i, 2)
      else find_terminator (Suc i) bs)"

section \<open>Clipboard writes\<close>

definition MAX_DECODED :: nat where "MAX_DECODED = 1024 * 1024"
definition OSC52_CARRY_CAP :: nat where "OSC52_CARRY_CAP = MAX_DECODED div 3 * 4 + 128"
definition OSC52_PREFIX :: "byte list" where "OSC52_PREFIX = [0x1b, 0x5d, 0x35, 0x32, 0x3b]"

text \<open>\<open>b64\<close> is the decoder of the \<open>base64\<close> crate.\<close>

definition osc52_body :: "(byte list \<Rightarrow> byte list option) \<Rightarrow> byte list \<Rightarrow> rstring option" where
  "osc52_body b64 body =
     (case find_index (\<lambda>b. b = 0x3b) body of
        None \<Rightarrow> None
      | Some sep \<Rightarrow>
          (let payload = drop (Suc sep) body
           in if payload = [0x3f] \<or> payload = [] then None
              else case b64 payload of
                None \<Rightarrow> None
              | Some decoded \<Rightarrow> if MAX_DECODED < length decoded then None else Some (from_utf8_lossy decoded)))"

text \<open>The tail agrees with the prefix as far as both go.\<close>

definition looks_like :: "byte list \<Rightarrow> byte list \<Rightarrow> bool" where
  "looks_like p tail = (let n = min (length tail) (length p) in take n tail = take n p)"

definition osc52_at :: "(byte list \<Rightarrow> byte list option) \<Rightarrow> byte list \<Rightarrow> rstring option at_esc" where
  "osc52_at b64 tail =
     (if \<not> looks_like OSC52_PREFIX tail then Esc_Skip
         else if length tail < length OSC52_PREFIX then Esc_Wait
         else case find_terminator (length OSC52_PREFIX) (drop (length OSC52_PREFIX) tail) of
           Some (term, term_len) \<Rightarrow>
             Esc_Found (term + term_len - 1)
               (osc52_body b64 (drop (length OSC52_PREFIX) (take term tail)))
         | None \<Rightarrow> Esc_Wait)"

definition osc52_feed ::
  "(byte list \<Rightarrow> byte list option) \<Rightarrow> byte list \<Rightarrow> byte list \<Rightarrow> rstring list \<times> byte list" where
  "osc52_feed b64 chunk carry =
     (let (hits, s) = osc_feed (osc52_at b64) OSC52_CARRY_CAP chunk 0 \<lparr>sc_carry = carry, sc_offset = 0\<rparr>
      in (List.map_filter snd hits, sc_carry s))"

section \<open>Window titles\<close>

definition MAX_TITLE_BYTES :: nat where "MAX_TITLE_BYTES = 512"
definition TITLE_CARRY_CAP :: nat where "TITLE_CARRY_CAP = MAX_TITLE_BYTES + 8"
definition TITLE_PREFIXES :: "byte list list" where
  "TITLE_PREFIXES = [[0x1b, 0x5d, 0x30, 0x3b], [0x1b, 0x5d, 0x32, 0x3b]]"

fun title_terminator :: "nat \<Rightarrow> byte list \<Rightarrow> (nat \<times> nat) option" where
  "title_terminator i [] = None"
| "title_terminator i (b # bs) =
     (if b = 0x07 then Some (i, 1)
      else if b = 0x1b \<and> bs \<noteq> [] \<and> hd bs = 0x5c then Some (i, 2)
      else if b = 0x1b \<and> bs \<noteq> [] then None
      else title_terminator (Suc i) bs)"

text \<open>\<open>match_prefix\<close>: the length of the prefix the tail starts with, else whether it may still become one.\<close>

fun match_prefix_loop :: "byte list list \<Rightarrow> bool \<Rightarrow> byte list \<Rightarrow> nat option \<times> bool" where
  "match_prefix_loop [] partial tail = (None, partial)"
| "match_prefix_loop (p # ps) partial tail =
     (if length p \<le> length tail then
        if prefix p tail then (Some (length p), False) else match_prefix_loop ps partial tail
      else match_prefix_loop ps (partial \<or> prefix tail p) tail)"

definition match_prefix :: "byte list \<Rightarrow> nat option \<times> bool" where
  "match_prefix tail = match_prefix_loop TITLE_PREFIXES False tail"

definition title_at :: "byte list \<Rightarrow> rstring option at_esc" where
  "title_at tail =
     (case match_prefix tail of
        (None, partial) \<Rightarrow> if partial then Esc_Wait else Esc_Skip
      | (Some body_at, _) \<Rightarrow>
          (case title_terminator body_at (drop body_at tail) of
             Some (term, term_len) \<Rightarrow>
               (let body = drop body_at (take term tail)
                in Esc_Found (term + term_len - 1)
                     (if length body \<le> MAX_TITLE_BYTES then Some (from_utf8_lossy body) else None))
           | None \<Rightarrow> Esc_Wait))"

definition title_feed :: "byte list \<Rightarrow> byte list \<Rightarrow> rstring option \<times> byte list" where
  "title_feed chunk carry =
     (let (hits, s) = osc_feed title_at TITLE_CARRY_CAP chunk 0 \<lparr>sc_carry = carry, sc_offset = 0\<rparr>;
          titles = List.map_filter snd hits
      in (if titles = [] then None else Some (last titles), sc_carry s))"

section \<open>The cut into chunks does not matter\<close>

text \<open>What is still pending at the end of a scan, and the whole stream fed chunk by chunk.\<close>

definition pending :: "(byte list \<Rightarrow> 'a at_esc) \<Rightarrow> byte list \<Rightarrow> byte list" where
  "pending at_esc work = (case snd (esc_scan at_esc 0 work) of Some (_, tail) \<Rightarrow> tail | None \<Rightarrow> [])"

fun osc_run ::
  "(byte list \<Rightarrow> 'a at_esc) \<Rightarrow> nat \<Rightarrow> byte list list \<Rightarrow> nat \<Rightarrow> scanner \<Rightarrow> (nat \<times> 'a) list \<times> scanner" where
  "osc_run at_esc cap [] off s = ([], s)"
| "osc_run at_esc cap (c # cs) off s =
     (let (hits, s') = osc_feed at_esc cap c off s;
          (more_hits, s'') = osc_run at_esc cap cs (off + length c) s'
      in (hits @ more_hits, s''))"

lemma osc_run_append:
  "osc_run at_esc cap (xs @ ys) off s =
     (let (hits, s') = osc_run at_esc cap xs off s;
          (more_hits, s'') = osc_run at_esc cap ys (off + length (concat xs)) s'
      in (hits @ more_hits, s''))"
  by (induction xs arbitrary: off s) (auto simp: Let_def add.assoc split: prod.splits)

text \<open>The carry is the end of the stream so far, and the carried offset says where it begins.\<close>

definition carried :: "nat \<Rightarrow> byte list \<Rightarrow> scanner \<Rightarrow> bool" where
  "carried off stream s \<longleftrightarrow>
     sc_carry s = [] \<or> (\<exists>front. stream = front @ sc_carry s \<and> sc_offset s = off + length front)"

lemma esc_scan_offset:
  "esc_scan at_esc (off + base) work =
     (map (apfst ((+) off)) (fst (esc_scan at_esc base work)),
      map_option (apfst ((+) off)) (snd (esc_scan at_esc base work)))"
proof (induction at_esc base work rule: esc_scan.induct)
  case (2 at_esc base b bs)
  show ?case
  proof (cases "b = 0x1b \<and> at_esc (b # bs) \<noteq> Esc_Skip")
    case False
    then show ?thesis using 2(1,2) by (auto simp del: add_Suc_right simp: add_Suc_right [symmetric])
  next
    case True
    show ?thesis
    proof (cases "at_esc (b # bs)")
      case (Esc_Found k v)
      with True 2(3) [OF _ Esc_Found] show ?thesis
        by (simp add: case_prod_unfold Let_def add.assoc)
    qed (use True in auto)
  qed
qed simp

lemma pending_offset:
  "(case snd (esc_scan at_esc base work) of Some (_, tail) \<Rightarrow> tail | None \<Rightarrow> []) = pending at_esc work"
  using esc_scan_offset [of at_esc base 0 work]
  by (auto simp: pending_def split: option.splits)

text \<open>A tail carried on starts at an escape that still waits.\<close>

lemma esc_scan_carry:
  assumes "snd (esc_scan at_esc base work) = Some (off, tail)"
  shows "base \<le> off \<and> tail = drop (off - base) work \<and> off < base + length work
    \<and> at_esc tail = Esc_Wait \<and> hd tail = 0x1b"
  using assms
proof (induction at_esc base work rule: esc_scan.induct)
  case (2 at_esc base b bs)
  show ?case
  proof (cases "b = 0x1b \<and> at_esc (b # bs) \<noteq> Esc_Skip")
    case False
    then have "snd (esc_scan at_esc (Suc base) bs) = Some (off, tail)" using 2(4) by (auto split: if_splits)
    then have "Suc base \<le> off \<and> tail = drop (off - Suc base) bs \<and> off < Suc base + length bs
        \<and> at_esc tail = Esc_Wait \<and> hd tail = 0x1b"
      using False 2(1,2) by (cases "b = 0x1b") auto
    then show ?thesis by (auto simp: drop_Cons' Suc_diff_Suc)
  next
    case True
    show ?thesis
    proof (cases "at_esc (b # bs)")
      case (Esc_Found k v)
      with True 2(4) have "snd (esc_scan at_esc (base + Suc k) (drop k bs)) = Some (off, tail)"
        by (simp add: case_prod_unfold Let_def)
      with 2(3) [OF _ Esc_Found] True
      have "base + Suc k \<le> off \<and> tail = drop (off - (base + Suc k)) (drop k bs)
          \<and> off < base + Suc k + length (drop k bs) \<and> at_esc tail = Esc_Wait \<and> hd tail = 0x1b" by auto
      moreover from this have "off - (base + Suc k) + k = off - base - 1" "0 < off - base" by auto
      ultimately show ?thesis by (auto simp: drop_Cons')
    qed (use True 2(4) in auto)
  qed
qed simp

text \<open>A hit at an offset is a sequence that starts there.\<close>

lemma esc_scan_hit:
  assumes "(off, v) \<in> set (fst (esc_scan at_esc base work))"
  shows "\<exists>k. base \<le> off \<and> off < base + length work \<and> at_esc (drop (off - base) work) = Esc_Found k v"
  using assms
proof (induction at_esc base work rule: esc_scan.induct)
  case (2 at_esc base b bs)
  have step: ?case if "\<exists>k. base + Suc d \<le> off \<and> off < base + Suc d + length (drop d bs)
      \<and> at_esc (drop (off - (base + Suc d)) (drop d bs)) = Esc_Found k v" for d
  proof -
    from that obtain k where k: "base + Suc d \<le> off" "off < base + Suc d + length (drop d bs)"
      "at_esc (drop (off - (base + Suc d)) (drop d bs)) = Esc_Found k v" by blast
    then have "off - (base + Suc d) + d = off - base - 1" "0 < off - base" by auto
    with k show ?thesis by (auto simp: drop_Cons')
  qed
  show ?case
  proof (cases "b = 0x1b \<and> at_esc (b # bs) \<noteq> Esc_Skip")
    case False
    then have "(off, v) \<in> set (fst (esc_scan at_esc (Suc base) bs))" using 2(4) by (auto split: if_splits)
    then show ?thesis using step [of 0] False 2(1,2) by (cases "b = 0x1b") auto
  next
    case True
    show ?thesis
    proof (cases "at_esc (b # bs)")
      case (Esc_Found k w)
      with True 2(4) consider (here) "off = base" "v = w"
        | (later) "(off, v) \<in> set (fst (esc_scan at_esc (base + Suc k) (drop k bs)))"
        by (auto simp: case_prod_unfold Let_def)
      then show ?thesis
      proof cases
        case here
        then show ?thesis using Esc_Found True by auto
      next
        case later
        then show ?thesis using step [of k] 2(3) [OF _ Esc_Found] True by blast
      qed
    qed (use True 2(4) in auto)
  qed
qed simp

locale chunk_scanner =
  fixes at_esc :: "byte list \<Rightarrow> 'a at_esc"
  assumes found_stable: "at_esc t = Esc_Found k v \<Longrightarrow> at_esc (t @ u) = Esc_Found k v \<and> k < length t"
    and skip_stable: "at_esc t = Esc_Skip \<Longrightarrow> at_esc (t @ u) = Esc_Skip"
    and needs_bracket: "at_esc (0x1b # c # t) \<noteq> Esc_Skip \<Longrightarrow> c = 0x5d"
begin

text \<open>Scanning on behind a scan continues at the tail it left.\<close>

lemma scan_append:
  "esc_scan at_esc base (w @ u) =
     (case snd (esc_scan at_esc base w) of
        None \<Rightarrow> (fst (esc_scan at_esc base w) @ fst (esc_scan at_esc (base + length w) u),
                 snd (esc_scan at_esc (base + length w) u))
      | Some (off, tail) \<Rightarrow> (fst (esc_scan at_esc base w) @ fst (esc_scan at_esc off (tail @ u)),
                            snd (esc_scan at_esc off (tail @ u))))"
proof (induction "length w" arbitrary: w base rule: less_induct)
  case less
  show ?case
  proof (cases w)
    case (Cons b bs)
    show ?thesis
    proof (cases "b = 0x1b \<and> at_esc (b # bs) \<noteq> Esc_Skip")
      case False
      have "at_esc (b # bs) = Esc_Skip \<Longrightarrow> at_esc (b # bs @ u) = Esc_Skip"
        using skip_stable [of "b # bs" u] by simp
      then show ?thesis using False less [of bs "Suc base"] unfolding Cons by (cases "b = 0x1b") (auto split: option.splits)
    next
      case True
      show ?thesis
      proof (cases "at_esc (b # bs)")
        case (Esc_Found k v)
        then have k: "at_esc (b # bs @ u) = Esc_Found k v" "k \<le> length bs"
          using found_stable [of "b # bs" k v u] by auto
        have "base + length w = base + Suc k + length (drop k bs)" using k(2) Cons by simp
        then show ?thesis
          using True Esc_Found k less [of "drop k bs" "base + Suc k"] unfolding Cons
          by (simp add: case_prod_unfold Let_def split: option.splits)
      qed (use True Cons in auto)
    qed
  qed simp
qed

text \<open>The quick exit of \<open>feed\<close> skips nothing.\<close>

lemma quick_exit:
  assumes "\<not> contains [0x1b, 0x5d] chunk" and "\<not> ends_with_partial chunk"
  shows "esc_scan at_esc base chunk = ([], None)"
  using assms
proof (induction chunk arbitrary: base)
  case (Cons b bs)
  have "\<not> contains [0x1b, 0x5d] bs" "\<not> (bs \<noteq> [] \<and> ends_with_partial bs)"
    using Cons.prems by (auto simp: ends_with_partial_def suffix_Cons)
  then have rest: "esc_scan at_esc (Suc base) bs = ([], None)"
    by (cases "bs = []") (auto intro: Cons.IH)
  have "at_esc (b # bs) = Esc_Skip" if "b = 0x1b"
  proof (cases bs)
    case Nil
    then show ?thesis using that Cons.prems(2) by (simp add: ends_with_partial_def)
  next
    case (Cons c cs)
    then have "c \<noteq> 0x5d" using that Cons.prems(1) by auto
    then show ?thesis using needs_bracket [of c cs] that Cons by auto
  qed
  then show ?case using rest by simp
qed simp

text \<open>While no tail outgrows the limit, feeding the chunks finds what one scan of the whole stream
  finds, at the same offsets, and carries its pending tail.\<close>

lemma run_is_scan:
  assumes "\<And>n. length (pending at_esc (concat (take n cs))) \<le> cap" and "sc_carry s = []"
  shows "fst (osc_run at_esc cap cs off s) = fst (esc_scan at_esc off (concat cs))
    \<and> sc_carry (snd (osc_run at_esc cap cs off s)) = pending at_esc (concat cs)
    \<and> (sc_carry (snd (osc_run at_esc cap cs off s)) \<noteq> [] \<longrightarrow>
        snd (esc_scan at_esc off (concat cs)) =
          Some (sc_offset (snd (osc_run at_esc cap cs off s)), sc_carry (snd (osc_run at_esc cap cs off s))))"
  using assms(1)
proof (induction cs rule: rev_induct)
  case Nil
  then show ?case using assms(2) by (simp add: pending_def)
next
  case (snoc c cs)
  let ?r = "osc_run at_esc cap cs off s" and ?w = "concat cs"
  let ?off = "off + length ?w"
  have "length (pending at_esc (concat (take n cs))) \<le> cap" for n
    using snoc.prems [of "min n (length cs)"] by (simp add: min_def split: if_splits)
  from snoc.IH [OF this] have IH: "fst ?r = fst (esc_scan at_esc off ?w)"
    "sc_carry (snd ?r) = pending at_esc ?w"
    "sc_carry (snd ?r) \<noteq> [] \<Longrightarrow> snd (esc_scan at_esc off ?w) = Some (sc_offset (snd ?r), sc_carry (snd ?r))"
    by blast+
  have cap: "length (pending at_esc (concat (cs @ [c]))) \<le> cap"
    using snoc.prems [of "Suc (length cs)"] by simp
  have run: "osc_run at_esc cap (cs @ [c]) off s =
      (fst ?r @ fst (osc_feed at_esc cap c ?off (snd ?r)), snd (osc_feed at_esc cap c ?off (snd ?r)))"
    by (simp add: osc_run_append Let_def case_prod_unfold)
  have step: "fst (osc_feed at_esc cap c ?off (snd ?r)) = fst h \<and>
      sc_carry (snd (osc_feed at_esc cap c ?off (snd ?r))) = (case snd h of None \<Rightarrow> [] | Some (_, t) \<Rightarrow> t) \<and>
      (\<forall>o' t. snd h = Some (o', t) \<longrightarrow> sc_offset (snd (osc_feed at_esc cap c ?off (snd ?r))) = o')"
    if h: "esc_scan at_esc off (?w @ c) = (fst (esc_scan at_esc off ?w) @ fst h, snd h)"
      and eq: "h = (if sc_carry (snd ?r) = [] then esc_scan at_esc ?off c
                    else esc_scan at_esc (sc_offset (snd ?r)) (sc_carry (snd ?r) @ c))" for h
  proof (cases "sc_carry (snd ?r) = [] \<and> \<not> contains [0x1b, 0x5d] c \<and> \<not> ends_with_partial c")
    case True
    then show ?thesis using quick_exit [of c ?off] eq by (simp add: osc_feed_def)
  next
    case False
    have "(case snd h of None \<Rightarrow> [] | Some (_, t) \<Rightarrow> t) = pending at_esc (concat (cs @ [c]))"
      using pending_offset [of at_esc off "?w @ c"] h by (simp add: option.case_eq_if)
    then have "length (case snd h of None \<Rightarrow> [] | Some (_, t) \<Rightarrow> t) \<le> cap" using cap by simp
    with False show ?thesis unfolding osc_feed_def Let_def eq
      by (auto simp: case_prod_unfold split: option.splits)
  qed
  have h: "\<exists>h. esc_scan at_esc off (?w @ c) = (fst (esc_scan at_esc off ?w) @ fst h, snd h)
      \<and> h = (if sc_carry (snd ?r) = [] then esc_scan at_esc ?off c
             else esc_scan at_esc (sc_offset (snd ?r)) (sc_carry (snd ?r) @ c))"
  proof (cases "sc_carry (snd ?r) = []")
    case True
    then have "snd (esc_scan at_esc off ?w) = None"
      using IH(2) pending_offset [of at_esc off ?w] esc_scan_carry [of at_esc off ?w]
      by (auto split: option.splits)
    then show ?thesis using True scan_append [of off ?w c] by simp
  next
    case False
    then show ?thesis using IH(3) scan_append [of off ?w c] by simp
  qed
  then obtain h where "esc_scan at_esc off (?w @ c) = (fst (esc_scan at_esc off ?w) @ fst h, snd h)"
    "h = (if sc_carry (snd ?r) = [] then esc_scan at_esc ?off c
             else esc_scan at_esc (sc_offset (snd ?r)) (sc_carry (snd ?r) @ c))" by blast
  with step [OF this] pending_offset [of at_esc off "?w @ c"] IH(1) show ?case
    by (auto simp: run split: option.splits)
qed

text \<open>Whatever the limit drops: every hit is a sequence of the stream, at its own offset.\<close>

lemma feed_genuine:
  assumes "carried off w s" and f: "f = osc_feed at_esc cap c (off + length w) s"
  shows "carried off (w @ c) (snd f)"
    and "(o', v) \<in> set (fst f) \<Longrightarrow> \<exists>k. off \<le> o' \<and> at_esc (drop (o' - off) (w @ c)) = Esc_Found k v"
proof -
  obtain front work base where work: "w @ c = front @ work" "base = off + length front"
    "(work, base) = (if sc_carry s = [] then (c, off + length w) else (sc_carry s @ c, sc_offset s))"
  proof (cases "sc_carry s = []")
    case True
    then show ?thesis using that [of w c "off + length w"] by simp
  next
    case False
    with assms(1) obtain front where "w = front @ sc_carry s" "sc_offset s = off + length front"
      unfolding carried_def by blast
    with False show ?thesis using that [of front "sc_carry s @ c" "sc_offset s"] by simp
  qed
  let ?quick = "sc_carry s = [] \<and> \<not> contains [0x1b, 0x5d] c \<and> \<not> ends_with_partial c"
  let ?scan = "esc_scan at_esc base work"
  have f: "f = (if ?quick then ([], s) else (fst ?scan,
      case snd ?scan of Some (off, tail) \<Rightarrow> if length tail \<le> cap then \<lparr>sc_carry = tail, sc_offset = off\<rparr> else s\<lparr>sc_carry := []\<rparr>
        | None \<Rightarrow> s\<lparr>sc_carry := []\<rparr>))"
    unfolding f osc_feed_def work(3) [symmetric] by (simp add: case_prod_unfold Let_def)
  show "carried off (w @ c) (snd f)"
  proof (cases "snd ?scan")
    case None
    then show ?thesis by (simp add: f carried_def)
  next
    case (Some t)
    then obtain o' tail where t: "snd ?scan = Some (o', tail)" by (cases t) auto
    from esc_scan_carry [OF t] have o': "base \<le> o'" "tail = drop (o' - base) work" "o' < base + length work" by auto
    then have "w @ c = (front @ take (o' - base) work) @ tail" "o' = off + length (front @ take (o' - base) work)"
      using work(1,2) by auto
    then show ?thesis using t by (auto simp: f carried_def)
  qed
  assume "(o', v) \<in> set (fst f)"
  then have "(o', v) \<in> set (fst ?scan)" by (auto simp: f split: if_splits)
  from esc_scan_hit [OF this] obtain k where k: "base \<le> o'" "at_esc (drop (o' - base) work) = Esc_Found k v" by blast
  then have "drop (o' - off) (w @ c) = drop (o' - base) work" using work(1,2) by simp
  with k work(2) show "\<exists>k. off \<le> o' \<and> at_esc (drop (o' - off) (w @ c)) = Esc_Found k v" by auto
qed

lemma run_genuine:
  assumes "carried off w s" and "(o', v) \<in> set (fst (osc_run at_esc cap cs (off + length w) s))"
  shows "\<exists>k. off \<le> o' \<and> at_esc (drop (o' - off) (w @ concat cs)) = Esc_Found k v"
  using assms
proof (induction cs arbitrary: w s)
  case (Cons c cs)
  let ?f = "osc_feed at_esc cap c (off + length w) s"
  from Cons.prems(2) consider "(o', v) \<in> set (fst ?f)"
    | "(o', v) \<in> set (fst (osc_run at_esc cap cs (off + length (w @ c)) (snd ?f)))"
    by (auto simp: Let_def case_prod_unfold add.assoc)
  then show ?case
  proof cases
    case 1
    then obtain k where k: "off \<le> o'" "at_esc (drop (o' - off) (w @ c)) = Esc_Found k v"
      using feed_genuine(2) [OF Cons.prems(1) refl] by blast
    then have "at_esc (drop (o' - off) (w @ c) @ concat cs) = Esc_Found k v \<and> k < length (drop (o' - off) (w @ c))"
      using found_stable by blast
    moreover from this have "o' - off \<le> length (w @ c)"
      by (metis drop_all list.size(3) nat_le_linear not_less_zero)
    then have "drop (o' - off) (w @ concat (c # cs)) = drop (o' - off) (w @ c) @ concat cs"
      unfolding concat.simps append_assoc [symmetric] by (subst drop_append) simp
    ultimately show ?thesis using k(1) by auto
  next
    case 2
    from Cons.IH [OF feed_genuine(1) [OF Cons.prems(1) refl] this] show ?thesis by simp
  qed
qed simp

lemma run_carry_bounded:
  assumes "length (sc_carry s) \<le> cap"
  shows "length (sc_carry (snd (osc_run at_esc cap cs off s))) \<le> cap"
  using assms
proof (induction cs arbitrary: off s)
  case (Cons c cs)
  have "length (sc_carry (snd (osc_feed at_esc cap c off s))) \<le> cap"
    using Cons.prems by (auto simp: osc_feed_def Let_def case_prod_unfold split: option.splits)
  from Cons.IH [OF this] show ?case by (simp add: Let_def case_prod_unfold)
qed simp

end

section \<open>The clipboard and title scanners keep the contract\<close>

lemma find_terminator_stable:
  "find_terminator i bs = Some (t, n) \<Longrightarrow>
     find_terminator i (bs @ u) = Some (t, n) \<and> i \<le> t \<and> 0 < n \<and> t + n \<le> i + length bs"
proof (induction i bs rule: find_terminator.induct)
  case (2 i b bs)
  then show ?case by (cases bs) (auto split: if_splits)
qed simp

lemma title_terminator_stable:
  "title_terminator i bs = Some (t, n) \<Longrightarrow>
     title_terminator i (bs @ u) = Some (t, n) \<and> i \<le> t \<and> 0 < n \<and> t + n \<le> i + length bs"
proof (induction i bs rule: title_terminator.induct)
  case (2 i b bs)
  then show ?case by (cases bs) (auto split: if_splits)
qed simp

lemma prefix_iff_take: "prefix xs ys \<longleftrightarrow> take (length xs) ys = xs"
  by (metis append_eq_conv_conj prefix_def)

lemma looks_like_iff: "looks_like p t \<longleftrightarrow> prefix t p \<or> prefix p t"
  unfolding looks_like_def Let_def prefix_iff_take
  by (cases "length t \<le> length p") (auto simp: min_def)

lemma looks_like_long: "looks_like p t \<Longrightarrow> \<not> length t < length p \<Longrightarrow> prefix p t"
  unfolding looks_like_iff by (metis le_antisym not_less prefix_length_le prefix_iff_take take_all)

lemma looks_like_append: "looks_like p (t @ u) \<Longrightarrow> looks_like p t"
  unfolding looks_like_iff by (metis append_prefixD prefix_same_cases prefixI)

interpretation osc52: chunk_scanner "osc52_at b64" for b64
proof
  fix t u :: "byte list" and k v
  let ?p = "length OSC52_PREFIX"
  assume found: "osc52_at b64 t = Esc_Found k v"
  then have "looks_like OSC52_PREFIX t" "\<not> length t < ?p"
    by (auto simp: osc52_at_def split: if_splits)
  then have len: "?p \<le> length t" "looks_like OSC52_PREFIX (t @ u)"
    using looks_like_long [of OSC52_PREFIX t] by (auto simp: looks_like_iff)
  with found obtain e n where e: "find_terminator ?p (drop ?p t) = Some (e, n)" "k = e + n - 1"
    "v = osc52_body b64 (drop ?p (take e t))"
    by (auto simp: osc52_at_def Let_def split: option.splits if_splits)
  from find_terminator_stable [OF e(1), of u] len e(2) have "k < length t" "e \<le> length t" by auto
  then show "osc52_at b64 (t @ u) = Esc_Found k v \<and> k < length t"
    using find_terminator_stable [OF e(1), of u] len e(2,3) by (simp add: osc52_at_def Let_def)
next
  fix t u :: "byte list"
  assume "osc52_at b64 t = Esc_Skip"
  then have "\<not> looks_like OSC52_PREFIX t"
    by (auto simp: osc52_at_def looks_like_def Let_def split: if_splits option.splits)
  then have "\<not> looks_like OSC52_PREFIX (t @ u)" using looks_like_append by blast
  then show "osc52_at b64 (t @ u) = Esc_Skip" by (simp add: osc52_at_def looks_like_def Let_def)
next
  fix c :: byte and t
  assume "osc52_at b64 (0x1b # c # t) \<noteq> Esc_Skip"
  then have "looks_like OSC52_PREFIX (0x1b # c # t)" by (auto simp: osc52_at_def split: if_splits)
  then show "c = 0x5d" by (auto simp: looks_like_iff OSC52_PREFIX_def)
qed

lemma match_prefix_eq:
  "match_prefix t =
     (if \<exists>p \<in> set TITLE_PREFIXES. prefix p t then (Some 4, False)
      else (None, \<exists>p \<in> set TITLE_PREFIXES. prefix t p))"
proof -
  have "length q \<le> length t \<Longrightarrow> prefix t q \<Longrightarrow> prefix q t" for q
    using looks_like_long [of q t] by (simp add: looks_like_iff)
  then show ?thesis by (auto simp: match_prefix_def TITLE_PREFIXES_def dest: prefix_length_le)
qed

interpretation title: chunk_scanner title_at
proof
  fix t u :: "byte list" and k v
  assume found: "title_at t = Esc_Found k v"
  then have p: "\<exists>p \<in> set TITLE_PREFIXES. prefix p t"
    by (auto simp: title_at_def match_prefix_eq split: if_splits)
  then have len: "4 \<le> length t" by (auto simp: TITLE_PREFIXES_def dest!: prefix_length_le)
  from p have p': "\<exists>p \<in> set TITLE_PREFIXES. prefix p (t @ u)" using prefix_prefix by blast
  from found p obtain e n where e: "title_terminator 4 (drop 4 t) = Some (e, n)" "k = e + n - 1"
    "v = (let body = drop 4 (take e t) in if length body \<le> MAX_TITLE_BYTES then Some (from_utf8_lossy body) else None)"
    by (auto simp: title_at_def match_prefix_eq Let_def split: option.splits)
  from title_terminator_stable [OF e(1), of u] len e(2) have "k < length t" "e \<le> length t" by auto
  then show "title_at (t @ u) = Esc_Found k v \<and> k < length t"
    using title_terminator_stable [OF e(1), of u] len e(2,3) p' by (simp add: title_at_def match_prefix_eq Let_def)
next
  fix t u :: "byte list"
  assume "title_at t = Esc_Skip"
  then have "\<not> (\<exists>p \<in> set TITLE_PREFIXES. prefix p t \<or> prefix t p)"
    by (auto simp: title_at_def match_prefix_eq Let_def split: if_splits option.splits)
  then have "\<not> (\<exists>p \<in> set TITLE_PREFIXES. prefix p (t @ u) \<or> prefix (t @ u) p)"
    using looks_like_append unfolding looks_like_iff by blast
  then show "title_at (t @ u) = Esc_Skip" by (auto simp: title_at_def match_prefix_eq)
next
  fix c :: byte and t
  assume "title_at (0x1b # c # t) \<noteq> Esc_Skip"
  then show "c = 0x5d" by (auto simp: title_at_def match_prefix_eq TITLE_PREFIXES_def split: if_splits)
qed

text \<open>A title that another escape sequence aborts still waits for its end, so the next title in
  the same output is not reported.\<close>

lemma aborted_title_hides_the_next:
  "title_feed ([0x1b, 0x5d, 0x30, 0x3b, 97, 0x1b, 0x5b, 109] @ [0x1b, 0x5d, 0x30, 0x3b, 98, 0x07]) [] =
     (None, [0x1b, 0x5d, 0x30, 0x3b, 97, 0x1b, 0x5b, 109, 0x1b, 0x5d, 0x30, 0x3b, 98, 0x07])
   \<and> fst (title_feed [0x1b, 0x5d, 0x30, 0x3b, 98, 0x07] []) = Some [98]"
  by (simp add: title_feed_def osc_feed_def title_at_def match_prefix_def TITLE_PREFIXES_def Let_def
      TITLE_CARRY_CAP_def MAX_TITLE_BYTES_def utf8_step_def utf8_char_width_def List.map_filter_def)

end
