(* ===== verification/Markers.thy ===== *)
theory Markers
  imports Osc_Scan
begin

text \<open>
  The shell's marks in a session's output (\<^verbatim>\<open>core/houston-core/src/markers.rs\<close>): prompt, input,
  command start and end (OSC 133) and the working directory (OSC 9;9), each with the session's
  secret token. Strings are their UTF-8 bytes; \<open>b64\<close> is the decoder of the \<open>base64\<close> crate.
\<close>

definition MARKER_CARRY_CAP :: nat where "MARKER_CARRY_CAP = 16 * 1024"

datatype marker =
    Prompt_Start
  | Input_Start
  | Command_Start (mk_cmd: rstring)
  | Command_End (mk_exit: "int option")
  | Cwd (mk_path: rstring)

definition OSC_133 :: "byte list" where "OSC_133 = [0x1b, 0x5d, 0x31, 0x33, 0x33, 0x3b]"
definition OSC_9_9 :: "byte list" where "OSC_9_9 = [0x1b, 0x5d, 0x39, 0x3b, 0x39, 0x3b]"

definition token_payload :: "byte list \<Rightarrow> byte list \<Rightarrow> byte list option" where
  "token_payload rest token =
     (case find_index (\<lambda>b. b = 0x3b) rest of
        None \<Rightarrow> None
      | Some separator \<Rightarrow> if take separator rest = token then Some (drop (Suc separator) rest) else None)"

text \<open>The letters \<open>A\<close> to \<open>D\<close> are 0x41 to 0x44.\<close>

definition marker_body :: "(byte list \<Rightarrow> byte list option) \<Rightarrow> byte list \<Rightarrow> byte list \<Rightarrow> marker option" where
  "marker_body b64 token body =
     (case strip_prefix (drop 1 OSC_133) body of
        Some rest \<Rightarrow>
          (case rest of
             [] \<Rightarrow> None
           | letter # _ \<Rightarrow>
               if letter = 0x41 then
                 Option.bind (strip_prefix [0x41, 0x3b] rest) (\<lambda>t. if t = token then Some Prompt_Start else None)
               else if letter = 0x42 then
                 Option.bind (strip_prefix [0x42, 0x3b] rest) (\<lambda>t. if t = token then Some Input_Start else None)
               else if letter = 0x43 then
                 Option.bind (strip_prefix [0x43, 0x3b] rest) (\<lambda>r.
                 Option.bind (token_payload r token) (\<lambda>payload.
                   Some (Command_Start (case b64 payload of None \<Rightarrow> [] | Some b \<Rightarrow> from_utf8_lossy b))))
               else if letter = 0x44 then
                 Option.bind (strip_prefix [0x44, 0x3b] rest) (\<lambda>r.
                 Option.bind (token_payload r token) (\<lambda>payload.
                   Some (Command_End (if valid_utf8 payload then parse_i32 (trim payload) else None))))
               else None)
      | None \<Rightarrow>
          (case strip_prefix (drop 1 OSC_9_9) body of
             Some rest \<Rightarrow>
               Option.bind (token_payload rest token) (\<lambda>p.
                 let path = from_utf8_lossy p in if path = [] then None else Some (Cwd path))
           | None \<Rightarrow> None))"

definition marker_at :: "(byte list \<Rightarrow> byte list option) \<Rightarrow> byte list \<Rightarrow> byte list \<Rightarrow> marker option at_esc" where
  "marker_at b64 token tail =
     (if \<not> (looks_like OSC_133 tail \<or> looks_like OSC_9_9 tail) then Esc_Skip
      else if length tail < length OSC_133 then Esc_Wait
      else case find_terminator 2 (drop 2 tail) of
        Some (term, term_len) \<Rightarrow>
          Esc_Found (term + term_len - 1) (marker_body b64 token (drop 1 (take term tail)))
      | None \<Rightarrow> Esc_Wait)"

record hit =
  ht_marker :: marker
  ht_offset :: nat

definition hits_of :: "(nat \<times> marker option) list \<Rightarrow> hit list" where
  "hits_of found = List.map_filter (\<lambda>(off, m). map_option (\<lambda>m'. \<lparr>ht_marker = m', ht_offset = off\<rparr>) m) found"

definition marker_feed ::
  "(byte list \<Rightarrow> byte list option) \<Rightarrow> byte list \<Rightarrow> byte list \<Rightarrow> nat \<Rightarrow> scanner \<Rightarrow> hit list \<times> scanner" where
  "marker_feed b64 token chunk chunk_offset s =
     (let (found, s') = osc_feed (marker_at b64 token) MARKER_CARRY_CAP chunk chunk_offset s
      in (hits_of found, s'))"

section \<open>Markers keep the contract of a chunked scanner\<close>

lemma marker_lengths: "length OSC_133 = 6" "length OSC_9_9 = 6"
  by (simp_all add: OSC_133_def OSC_9_9_def)

interpretation markers: chunk_scanner "marker_at b64 token" for b64 token
proof
  fix t u :: "byte list" and k v
  assume found: "marker_at b64 token t = Esc_Found k v"
  then have like: "looks_like OSC_133 t \<or> looks_like OSC_9_9 t" and len: "6 \<le> length t"
    by (auto simp: marker_at_def marker_lengths split: if_splits)
  then have "prefix OSC_133 t \<or> prefix OSC_9_9 t"
    using looks_like_long [of OSC_133 t] looks_like_long [of OSC_9_9 t] by (auto simp: marker_lengths)
  then have like': "looks_like OSC_133 (t @ u) \<or> looks_like OSC_9_9 (t @ u)"
    unfolding looks_like_iff using prefix_prefix by blast
  from found len like obtain e n where e: "find_terminator 2 (drop 2 t) = Some (e, n)" "k = e + n - 1"
    "v = marker_body b64 token (drop 1 (take e t))"
    by (simp add: marker_at_def marker_lengths split: option.splits prod.splits)
  from find_terminator_stable [OF e(1), of u] len e(2) have "k < length t" "e \<le> length t" by auto
  then show "marker_at b64 token (t @ u) = Esc_Found k v \<and> k < length t"
    using find_terminator_stable [OF e(1), of u] len like' e(2,3) by (simp add: marker_at_def marker_lengths)
next
  fix t u :: "byte list"
  assume "marker_at b64 token t = Esc_Skip"
  then have "\<not> looks_like OSC_133 t" "\<not> looks_like OSC_9_9 t"
    by (auto simp: marker_at_def split: if_splits option.splits)
  then have "\<not> looks_like OSC_133 (t @ u)" "\<not> looks_like OSC_9_9 (t @ u)" using looks_like_append by blast+
  then show "marker_at b64 token (t @ u) = Esc_Skip" by (simp add: marker_at_def)
next
  fix c :: byte and t
  assume "marker_at b64 token (0x1b # c # t) \<noteq> Esc_Skip"
  then have "looks_like OSC_133 (0x1b # c # t) \<or> looks_like OSC_9_9 (0x1b # c # t)"
    by (auto simp: marker_at_def split: if_splits)
  then show "c = 0x5d" by (auto simp: looks_like_iff OSC_133_def OSC_9_9_def)
qed

text \<open>A session's output delivered chunk by chunk.\<close>

fun marker_run ::
  "(byte list \<Rightarrow> byte list option) \<Rightarrow> byte list \<Rightarrow> byte list list \<Rightarrow> nat \<Rightarrow> scanner \<Rightarrow> hit list \<times> scanner" where
  "marker_run b64 token [] off s = ([], s)"
| "marker_run b64 token (c # cs) off s =
     (let (hits, s') = marker_feed b64 token c off s;
          (more_hits, s'') = marker_run b64 token cs (off + length c) s'
      in (hits @ more_hits, s''))"

lemma hits_of_append: "hits_of (xs @ ys) = hits_of xs @ hits_of ys"
  by (simp add: hits_of_def List.map_filter_def)

lemma marker_run_osc_run:
  "marker_run b64 token cs off s =
     (hits_of (fst (osc_run (marker_at b64 token) MARKER_CARRY_CAP cs off s)),
      snd (osc_run (marker_at b64 token) MARKER_CARRY_CAP cs off s))"
  by (induction cs arbitrary: off s)
    (simp_all add: marker_feed_def Let_def case_prod_unfold hits_of_append, simp add: hits_of_def List.map_filter_def)

lemma hits_of_member: "h \<in> set (hits_of found) \<longleftrightarrow> (ht_offset h, Some (ht_marker h)) \<in> set found"
  by (cases h) (force simp: hits_of_def map_filter_def image_iff)

section \<open>What the scanner finds\<close>

text \<open>The reference: every marker of the stream, scanned in one piece.\<close>

definition stream_markers :: "(byte list \<Rightarrow> byte list option) \<Rightarrow> byte list \<Rightarrow> nat \<Rightarrow> byte list \<Rightarrow> hit list" where
  "stream_markers b64 token off stream = hits_of (fst (esc_scan (marker_at b64 token) off stream))"

text \<open>C30: How the PTY cuts the output into chunks does not matter: as long as no unterminated mark
  outgrows the carry, the scanner reports exactly the markers one scan of the whole output finds,
  in order and at the same stream offsets.\<close>

theorem markers_ignore_chunking:
  assumes "\<And>n. length (pending (marker_at b64 token) (concat (take n chunks))) \<le> MARKER_CARRY_CAP"
  shows "fst (marker_run b64 token chunks off scanner_new) = stream_markers b64 token off (concat chunks)"
  using markers.run_is_scan [OF assms, of scanner_new off]
  by (simp add: marker_run_osc_run stream_markers_def scanner_new_def)

lemma markers_ignore_chunking_witness:
  "fst (marker_run Some [0x74] [[0x1b, 0x5d, 0x31], [0x33, 0x33, 0x3b, 0x41, 0x3b, 0x74], [0x07]] 0 scanner_new) =
     [\<lparr>ht_marker = Prompt_Start, ht_offset = 0\<rparr>]"
proof -
  let ?chunks = "[[0x1b, 0x5d, 0x31], [0x33, 0x33, 0x3b, 0x41, 0x3b, 0x74], [0x07]] :: byte list list"
  have scan: "length (pending at_esc w) \<le> length w" for at_esc :: "byte list \<Rightarrow> marker option at_esc" and w
    using esc_scan_carry [of at_esc 0 w] by (auto simp: pending_def split: option.splits)
  have "length (concat (take n ?chunks)) \<le> MARKER_CARRY_CAP" for n :: nat
    by (simp add: MARKER_CARRY_CAP_def take_Cons')
  then have "length (pending (marker_at Some [0x74]) (concat (take n ?chunks))) \<le> MARKER_CARRY_CAP" for n
    using scan [of "marker_at Some [0x74]" "concat (take n ?chunks)"] le_trans by blast
  from markers_ignore_chunking [OF this, of 0] show ?thesis
    by (simp add: stream_markers_def hits_of_def marker_at_def looks_like_def OSC_133_def OSC_9_9_def Let_def
        marker_body_def strip_prefix_def List.map_filter_def)
qed

text \<open>A mark without the token is no mark.\<close>

lemma token_payload_contains: "token_payload rest token = Some p \<Longrightarrow> sublist token rest"
  by (auto simp: token_payload_def split: option.splits if_splits)

lemma sublist_behind: "sublist t r \<Longrightarrow> sublist t (a @ r)" "sublist t r \<Longrightarrow> sublist t (a @ x # y # r)"
  by (metis append_assoc sublist_def) (metis append_assoc append_Cons append_Nil sublist_def)

lemma marker_body_contains: "marker_body b64 token body = Some m \<Longrightarrow> sublist token body"
  by (auto simp: marker_body_def strip_prefix_Some_iff Let_def bind_eq_Some_conv
      intro!: sublist_behind dest: token_payload_contains split: option.splits list.splits if_splits)

lemma marker_at_found:
  assumes "marker_at b64 token t = Esc_Found k (Some m)"
  shows "\<exists>body rest. t = 0x1b # body @ rest \<and> marker_body b64 token body = Some m \<and> sublist token body"
proof -
  from assms have "looks_like OSC_133 t \<or> looks_like OSC_9_9 t" "\<not> length t < 6"
    by (auto simp: marker_at_def marker_lengths split: if_splits)
  then have "prefix OSC_133 t \<or> prefix OSC_9_9 t"
    using looks_like_long [of OSC_133 t] looks_like_long [of OSC_9_9 t] by (auto simp: marker_lengths)
  then obtain r where t: "t = 0x1b # r" by (auto simp: prefix_def OSC_133_def OSC_9_9_def)
  from assms obtain e n where e: "find_terminator 2 (drop 2 t) = Some (e, n)"
    "marker_body b64 token (drop 1 (take e t)) = Some m"
    by (auto simp: marker_at_def split: option.splits if_splits)
  then have "2 \<le> e" using find_terminator_stable by blast
  then have "t = 0x1b # drop 1 (take e t) @ drop e t"
    unfolding t by (cases e) auto
  with e(2) marker_body_contains [OF e(2)] show ?thesis by blast
qed

text \<open>C31: Every reported marker is genuine, whatever the chunks and however much the carry drops: at
  its offset the stream holds a mark that reads as this marker and carries the session's token, so a
  program that does not know the token cannot forge a command block.\<close>

theorem markers_are_genuine:
  assumes "h \<in> set (fst (marker_run b64 token chunks off scanner_new))"
  shows "off \<le> ht_offset h
    \<and> (\<exists>body rest. drop (ht_offset h - off) (concat chunks) = 0x1b # body @ rest
         \<and> marker_body b64 token body = Some (ht_marker h) \<and> sublist token body)"
proof -
  from assms have "(ht_offset h, Some (ht_marker h))
      \<in> set (fst (osc_run (marker_at b64 token) MARKER_CARRY_CAP chunks (off + length []) scanner_new))"
    by (simp add: marker_run_osc_run hits_of_member)
  from markers.run_genuine [OF _ this] obtain k where "off \<le> ht_offset h"
    "marker_at b64 token (drop (ht_offset h - off) (concat chunks)) = Esc_Found k (Some (ht_marker h))"
    by (auto simp: carried_def scanner_new_def)
  with marker_at_found show ?thesis by blast
qed

lemma markers_are_genuine_witness:
  "\<exists>(h::hit) body rest. drop (ht_offset h) [0x1b, 0x5d, 0x31, 0x33, 0x33, 0x3b, 0x41, 0x3b, 0x74, 0x07] = 0x1b # body @ rest
     \<and> marker_body Some [0x74] body = Some (ht_marker h)"
proof -
  let ?c = "[0x1b, 0x5d, 0x31, 0x33, 0x33, 0x3b, 0x41, 0x3b, 0x74, 0x07]"
  have "\<lparr>ht_marker = Prompt_Start, ht_offset = 0\<rparr> \<in> set (fst (marker_run Some [0x74] [?c] 0 scanner_new))"
    by (simp add: marker_feed_def osc_feed_def scanner_new_def hits_of_def marker_at_def looks_like_def OSC_133_def
        OSC_9_9_def Let_def marker_body_def strip_prefix_def List.map_filter_def)
  from markers_are_genuine [OF this] obtain body rest where
    "drop 0 ?c = 0x1b # body @ rest" "marker_body Some [0x74] body = Some Prompt_Start" by auto
  then show ?thesis by (intro exI [of _ "\<lparr>ht_marker = Prompt_Start, ht_offset = 0\<rparr>"] exI [of _ body] exI [of _ rest]) simp
qed

end
