(* ===== verification/Blocks.thy ===== *)
theory Blocks
  imports Markers Bounded_Log
begin

text \<open>
  The ring of finished command blocks of a session (\<^verbatim>\<open>core/houston-core/src/blocks.rs\<close>), built from the
  markers of its output. Strings are UTF-8 bytes; the readings of the system clock (one per marker
  that takes one) are an argument.
\<close>

definition MAX_BLOCKS :: nat where "MAX_BLOCKS = 200"
definition MAX_RING_CMD_BYTES :: nat where "MAX_RING_CMD_BYTES = 256 * 1024"
definition MAX_CMD_LEN :: nat where "MAX_CMD_LEN = 8 * 1024"

record command_block =
  cb_cmd :: rstring
  cb_cwd :: rstring
  cb_exit :: "int option"
  cb_start_offset :: nat
  cb_end_offset :: nat
  cb_started_at :: nat
  cb_ended_at :: nat

record pending_block =
  pb_cmd :: rstring
  pb_cwd :: rstring
  pb_start_offset :: nat
  pb_started_at :: nat

record feed_outcome =
  fo_completed :: "command_block list"
  fo_cwd :: "rstring option"

record block_tracker =
  bt_token :: "byte list"
  bt_scanner :: scanner
  bt_ring :: "command_block list"
  bt_ring_cmd_bytes :: nat
  bt_current :: "pending_block option"
  bt_last_cwd :: "rstring option"

definition truncate_cmd :: "rstring \<Rightarrow> rstring" where
  "truncate_cmd cmd =
     (if MAX_CMD_LEN < length cmd then take (floor_boundary cmd MAX_CMD_LEN) cmd else cmd)"

definition block_tracker_new :: "byte list \<Rightarrow> block_tracker" where
  "block_tracker_new token =
     \<lparr>bt_token = token, bt_scanner = scanner_new, bt_ring = [], bt_ring_cmd_bytes = 0,
      bt_current = None, bt_last_cwd = None\<rparr>"

definition begin_unannounced_command :: "rstring \<Rightarrow> nat \<Rightarrow> block_tracker \<Rightarrow> block_tracker" where
  "begin_unannounced_command cmd now t =
     t\<lparr>bt_current := Some \<lparr>pb_cmd = truncate_cmd cmd, pb_cwd = [], pb_start_offset = 0, pb_started_at = now\<rparr>\<rparr>"

text \<open>The loop of \<open>push\<close> that drops the oldest blocks.\<close>

fun evict :: "command_block list \<Rightarrow> nat \<Rightarrow> command_block list \<times> nat" where
  "evict [] bytes = ([], bytes)"
| "evict (b # ring) bytes =
     (if MAX_BLOCKS < length (b # ring) \<or> MAX_RING_CMD_BYTES < bytes
      then evict ring (bytes - length (cb_cmd b)) else (b # ring, bytes))"

definition ring_push :: "command_block list \<times> nat \<Rightarrow> command_block \<Rightarrow> command_block list \<times> nat" where
  "ring_push r block = evict (fst r @ [block]) (snd r + length (cb_cmd block))"

definition block_push :: "block_tracker \<Rightarrow> command_block \<Rightarrow> block_tracker" where
  "block_push t block =
     (let (ring, bytes) = ring_push (bt_ring t, bt_ring_cmd_bytes t) block
      in t\<lparr>bt_ring := ring, bt_ring_cmd_bytes := bytes\<rparr>)"

text \<open>One marker of \<open>feed\<close>'s loop, with the clock's reading.\<close>

fun block_step :: "nat \<Rightarrow> hit \<Rightarrow> feed_outcome \<times> block_tracker \<Rightarrow> feed_outcome \<times> block_tracker" where
  "block_step now h (out, t) =
     (case ht_marker h of
        Cwd path \<Rightarrow> (out\<lparr>fo_cwd := Some path\<rparr>, t\<lparr>bt_last_cwd := Some path\<rparr>)
      | Command_Start cmd \<Rightarrow>
          (out, t\<lparr>bt_current := Some
             \<lparr>pb_cmd = truncate_cmd cmd,
              pb_cwd = (case bt_last_cwd t of Some d \<Rightarrow> d | None \<Rightarrow> []),
              pb_start_offset = ht_offset h, pb_started_at = now\<rparr>\<rparr>)
      | Command_End exit \<Rightarrow>
          (case bt_current t of
             None \<Rightarrow> (out, t)
           | Some p \<Rightarrow>
               (let block = \<lparr>cb_cmd = pb_cmd p, cb_cwd = pb_cwd p, cb_exit = exit,
                             cb_start_offset = pb_start_offset p, cb_end_offset = ht_offset h,
                             cb_started_at = pb_started_at p, cb_ended_at = now\<rparr>
                in (out\<lparr>fo_completed := fo_completed out @ [block]\<rparr>,
                    block_push (t\<lparr>bt_current := None\<rparr>) block)))
      | Prompt_Start \<Rightarrow> (out, t)
      | Input_Start \<Rightarrow> (out, t))"

fun block_steps :: "(nat \<Rightarrow> nat) \<Rightarrow> hit list \<Rightarrow> feed_outcome \<times> block_tracker \<Rightarrow> feed_outcome \<times> block_tracker" where
  "block_steps clock [] s = s"
| "block_steps clock (h # hs) s = block_steps (clock \<circ> Suc) hs (block_step (clock 0) h s)"

definition block_feed ::
  "(byte list \<Rightarrow> byte list option) \<Rightarrow> (nat \<Rightarrow> nat) \<Rightarrow> byte list \<Rightarrow> nat \<Rightarrow> block_tracker
     \<Rightarrow> feed_outcome \<times> block_tracker" where
  "block_feed b64 clock chunk chunk_offset t =
     (let (hits, scanner) = marker_feed b64 (bt_token t) chunk chunk_offset (bt_scanner t)
      in block_steps clock hits (\<lparr>fo_completed = [], fo_cwd = None\<rparr>, t\<lparr>bt_scanner := scanner\<rparr>))"

definition command_running :: "block_tracker \<Rightarrow> bool" where
  "command_running t \<longleftrightarrow> bt_current t \<noteq> None"

definition blocks :: "block_tracker \<Rightarrow> command_block list" where
  "blocks t = bt_ring t"

section \<open>The ring is a bounded log of the completed blocks\<close>

definition ring_bytes :: "command_block list \<Rightarrow> nat" where
  "ring_bytes bs = sum_list (map (length \<circ> cb_cmd) bs)"

definition ring_ok :: "command_block list \<times> nat \<Rightarrow> bool" where
  "ring_ok r \<longleftrightarrow> snd r = ring_bytes (fst r) \<and> length (fst r) \<le> MAX_BLOCKS \<and> ring_bytes (fst r) \<le> MAX_RING_CMD_BYTES"

lemma evict_spec:
  assumes "bytes = ring_bytes ring"
  shows "suffix (fst (evict ring bytes)) ring \<and> ring_ok (evict ring bytes)"
  using assms
proof (induction ring bytes rule: evict.induct)
  case (2 b ring bytes)
  then show ?case
    by (auto simp: ring_bytes_def ring_ok_def suffix_Cons split: if_splits)
qed (auto simp: ring_bytes_def ring_ok_def MAX_BLOCKS_def)

lemma ring_push_spec:
  assumes "ring_ok r"
  shows "suffix (fst (ring_push r b)) (fst r @ [b])" and "ring_ok (ring_push r b)"
proof -
  have "snd r + length (cb_cmd b) = ring_bytes (fst r @ [b])"
    using assms by (simp add: ring_ok_def ring_bytes_def)
  from evict_spec [OF this] show "suffix (fst (ring_push r b)) (fst r @ [b])" "ring_ok (ring_push r b)"
    by (simp_all add: ring_push_def)
qed

lemma ring_pushes:
  assumes "ring_ok r"
  shows "suffix (fst (foldl ring_push r bs)) (fst r @ bs) \<and> ring_ok (foldl ring_push r bs)"
  using assms
proof (induction bs arbitrary: r)
  case (Cons b bs)
  have "suffix (fst (foldl ring_push (ring_push r b) bs)) (fst (ring_push r b) @ bs)"
    "ring_ok (foldl ring_push (ring_push r b) bs)"
    using Cons.IH ring_push_spec(2) [OF Cons.prems] by blast+
  moreover have "suffix (fst (ring_push r b) @ bs) ((fst r @ [b]) @ bs)"
    using ring_push_spec(1) [OF Cons.prems, of b] by (auto simp: suffix_def)
  ultimately show ?case by (auto intro: suffix_order.order_trans)
qed simp

interpretation block_count: bounded_log "foldl ring_push" fst ring_ok length MAX_BLOCKS
  using ring_pushes by unfold_locales (auto simp: ring_ok_def)

interpretation block_bytes: bounded_log "foldl ring_push" fst ring_ok ring_bytes MAX_RING_CMD_BYTES
  using ring_pushes by unfold_locales (auto simp: ring_ok_def)

text \<open>A block that fits is never evicted by its own push.\<close>

lemma evict_keeps_last:
  assumes "bytes = ring_bytes (ring @ [b])" and "length (cb_cmd b) \<le> MAX_CMD_LEN"
  shows "fst (evict (ring @ [b]) bytes) \<noteq> []"
  using assms
proof (induction ring arbitrary: bytes)
  case Nil
  then show ?case by (simp add: ring_bytes_def MAX_BLOCKS_def MAX_CMD_LEN_def MAX_RING_CMD_BYTES_def)
next
  case (Cons c ring)
  then have "bytes - length (cb_cmd c) = ring_bytes (ring @ [b])" by (simp add: ring_bytes_def)
  from Cons.IH [OF this Cons.prems(2)] show ?case by simp
qed

lemma ring_nonempty:
  assumes "ring_ok r" and "\<forall>b \<in> set bs. length (cb_cmd b) \<le> MAX_CMD_LEN" and "bs \<noteq> []"
  shows "fst (foldl ring_push r bs) \<noteq> []"
proof -
  obtain front b where bs: "bs = front @ [b]" using assms(3) by (metis rev_exhaust)
  let ?r = "foldl ring_push r front"
  have "ring_ok ?r" using ring_pushes assms(1) by blast
  then have "snd ?r + length (cb_cmd b) = ring_bytes (fst ?r @ [b])" by (simp add: ring_ok_def ring_bytes_def)
  from evict_keeps_last [OF this] assms(2) show ?thesis by (simp add: bs ring_push_def)
qed

section \<open>A session's blocks\<close>

definition current_ok :: "block_tracker \<Rightarrow> bool" where
  "current_ok t \<longleftrightarrow> (case bt_current t of None \<Rightarrow> True | Some p \<Rightarrow> length (pb_cmd p) \<le> MAX_CMD_LEN)"

lemma truncate_cmd_bound: "length (truncate_cmd cmd) \<le> MAX_CMD_LEN"
  using floor_boundary_le [of cmd MAX_CMD_LEN] by (auto simp: truncate_cmd_def)

abbreviation ring_of :: "block_tracker \<Rightarrow> command_block list \<times> nat" where
  "ring_of t \<equiv> (bt_ring t, bt_ring_cmd_bytes t)"

lemma block_push_ring: "ring_of (block_push t b) = ring_push (ring_of t) b" "bt_current (block_push t b) = bt_current t"
  by (simp_all add: block_push_def case_prod_unfold Let_def)

text \<open>The completed blocks of a feed are what it pushed on the ring, each within the length bound.\<close>

lemma block_step_spec:
  assumes "current_ok t"
  shows "\<exists>bs. fo_completed (fst (block_step now h (out, t))) = fo_completed out @ bs
    \<and> ring_of (snd (block_step now h (out, t))) = foldl ring_push (ring_of t) bs
    \<and> current_ok (snd (block_step now h (out, t))) \<and> (\<forall>b \<in> set bs. length (cb_cmd b) \<le> MAX_CMD_LEN)"
proof (cases "ht_marker h")
  case (Command_End exit)
  show ?thesis
  proof (cases "bt_current t")
    case (Some p)
    let ?b = "\<lparr>cb_cmd = pb_cmd p, cb_cwd = pb_cwd p, cb_exit = exit, cb_start_offset = pb_start_offset p,
      cb_end_offset = ht_offset h, cb_started_at = pb_started_at p, cb_ended_at = now\<rparr>"
    have "ring_of (block_push (t\<lparr>bt_current := None\<rparr>) ?b) = ring_push (ring_of t) ?b"
      unfolding block_push_ring(1) by simp
    then show ?thesis using Command_End Some assms
      by (intro exI [of _ "[?b]"]) (simp add: current_ok_def block_push_ring(2) Let_def)
  qed (use Command_End assms in simp)
qed (use assms truncate_cmd_bound in \<open>simp_all add: current_ok_def\<close>)

lemma block_steps_spec:
  assumes "current_ok (snd s)"
  shows "\<exists>bs. fo_completed (fst (block_steps clock hs s)) = fo_completed (fst s) @ bs
    \<and> ring_of (snd (block_steps clock hs s)) = foldl ring_push (ring_of (snd s)) bs
    \<and> current_ok (snd (block_steps clock hs s)) \<and> (\<forall>b \<in> set bs. length (cb_cmd b) \<le> MAX_CMD_LEN)"
  using assms
proof (induction clock hs s rule: block_steps.induct)
  case (2 clock h hs s)
  let ?s = "block_step (clock 0) h s"
  obtain bs where bs: "fo_completed (fst ?s) = fo_completed (fst s) @ bs"
    "ring_of (snd ?s) = foldl ring_push (ring_of (snd s)) bs" "current_ok (snd ?s)"
    "\<forall>b \<in> set bs. length (cb_cmd b) \<le> MAX_CMD_LEN"
    using block_step_spec [of "snd s" "clock 0" h "fst s"] 2(2) by auto
  from 2(1) [OF bs(3)] obtain more where
    "fo_completed (fst (block_steps (clock \<circ> Suc) hs ?s)) = fo_completed (fst ?s) @ more"
    "ring_of (snd (block_steps (clock \<circ> Suc) hs ?s)) = foldl ring_push (ring_of (snd ?s)) more"
    "current_ok (snd (block_steps (clock \<circ> Suc) hs ?s))" "\<forall>b \<in> set more. length (cb_cmd b) \<le> MAX_CMD_LEN"
    by blast
  with bs show ?case by (intro exI [of _ "bs @ more"]) auto
qed simp

fun block_run ::
  "(byte list \<Rightarrow> byte list option) \<Rightarrow> ((nat \<Rightarrow> nat) \<times> byte list) list \<Rightarrow> nat \<Rightarrow> block_tracker
     \<Rightarrow> feed_outcome list \<times> block_tracker" where
  "block_run b64 [] off t = ([], t)"
| "block_run b64 ((clock, chunk) # cs) off t =
     (let (out, t') = block_feed b64 clock chunk off t;
          (outs, t'') = block_run b64 cs (off + length chunk) t'
      in (out # outs, t''))"

lemma block_run_spec:
  assumes "current_ok t"
  shows "ring_of (snd (block_run b64 cs off t))
      = foldl (foldl ring_push) (ring_of t) (map fo_completed (fst (block_run b64 cs off t)))
    \<and> (\<forall>out \<in> set (fst (block_run b64 cs off t)). \<forall>b \<in> set (fo_completed out). length (cb_cmd b) \<le> MAX_CMD_LEN)"
  using assms
proof (induction cs arbitrary: off t)
  case (Cons c cs)
  obtain clock chunk where c: "c = (clock, chunk)" by (cases c)
  let ?f = "block_feed b64 clock chunk off t"
  obtain hits sc where m: "marker_feed b64 (bt_token t) chunk off (bt_scanner t) = (hits, sc)" by fastforce
  have "current_ok (snd (\<lparr>fo_completed = [], fo_cwd = None\<rparr>, t\<lparr>bt_scanner := sc\<rparr>))"
    using Cons.prems by (simp add: current_ok_def)
  from block_steps_spec [OF this, of clock hits]
  have f: "ring_of (snd ?f) = foldl ring_push (ring_of t) (fo_completed (fst ?f))" "current_ok (snd ?f)"
    "\<forall>b \<in> set (fo_completed (fst ?f)). length (cb_cmd b) \<le> MAX_CMD_LEN"
    by (auto simp: block_feed_def m)
  from Cons.IH [OF f(2), of "off + length chunk"] f show ?case
    by (simp add: c case_prod_unfold Let_def)
qed simp

text \<open>C29: Whatever a session prints, in whatever chunks, its block ring is the most recent part of the
  history of completed commands: a tail of it, within 200 blocks and 256 KiB of command text, not
  empty once a command has completed (so the newest block is never the one evicted), and no command
  is longer than 8 KiB.\<close>

theorem block_ring_is_the_recent_history:
  "let (outs, t) = block_run b64 feeds off (block_tracker_new token); history = concat (map fo_completed outs)
   in suffix (blocks t) history \<and> (blocks t = [] \<longleftrightarrow> history = [])
      \<and> length (blocks t) \<le> MAX_BLOCKS \<and> ring_bytes (blocks t) \<le> MAX_RING_CMD_BYTES
      \<and> list_all (\<lambda>b. length (cb_cmd b) \<le> MAX_CMD_LEN) history"
proof -
  let ?t0 = "block_tracker_new token"
  obtain outs t where run: "block_run b64 feeds off ?t0 = (outs, t)" by fastforce
  let ?xss = "map fo_completed outs"
  have start: "ring_ok (ring_of ?t0)" "current_ok ?t0" "bt_ring ?t0 = []"
    by (simp_all add: block_tracker_new_def ring_ok_def ring_bytes_def MAX_BLOCKS_def current_ok_def)
  from block_run_spec [OF start(2), of b64 feeds off] run
  have ring: "ring_of t = foldl (foldl ring_push) (ring_of ?t0) ?xss"
    and fits: "\<forall>b \<in> set (concat ?xss). length (cb_cmd b) \<le> MAX_CMD_LEN" by auto
  then have blocks: "blocks t = fst (foldl (foldl ring_push) (ring_of ?t0) ?xss)"
    by (metis blocks_def fst_conv)
  have flat: "foldl (foldl ring_push) r yss = foldl ring_push r (concat yss)" for r yss
    by (induction yss arbitrary: r) simp_all
  have "suffix (blocks t) (concat ?xss)"
    using block_count.held_suffix [OF start(1), of ?xss] by (simp add: blocks start(3))
  moreover have "length (blocks t) \<le> MAX_BLOCKS" "ring_bytes (blocks t) \<le> MAX_RING_CMD_BYTES"
    using block_count.held_limit [OF start(1), of ?xss] block_bytes.held_limit [OF start(1), of ?xss]
    by (simp_all add: blocks start(3) ring_bytes_def)
  moreover have "concat ?xss \<noteq> [] \<Longrightarrow> blocks t \<noteq> []"
    unfolding blocks flat by (rule ring_nonempty [OF start(1) fits])
  with calculation(1) have "blocks t = [] \<longleftrightarrow> concat ?xss = []" by (metis suffix_bot.extremum_unique)
  ultimately show ?thesis using fits unfolding run Let_def prod.case list_all_iff by blast
qed

end
