(* ===== verification/Pr_Watch.thy ===== *)
theory Pr_Watch
  imports Pull_Request Rust_Std
begin

text \<open>
  The watch a pane keeps on a pull request (\<^verbatim>\<open>core/houston-core/src/pull_requests/watch.rs\<close>): one evaluation
  per read, the state between reads, and the message a wake carries. The reading of the system
  clock (\<open>now_unix_ms\<close>) is an argument; times of the watch are signed milliseconds.
\<close>

definition PR_WATCH_READ_FAILURE_LIMIT :: u32 where "PR_WATCH_READ_FAILURE_LIMIT = 15"
definition PR_WATCH_COMMENT_WAKE_LIMIT :: u32 where "PR_WATCH_COMMENT_WAKE_LIMIT = 10"
definition PR_WATCH_NO_CHECKS_AFTER_MS :: int where "PR_WATCH_NO_CHECKS_AFTER_MS = 15 * 60000"
definition PR_WATCH_LIST_CAP :: nat where "PR_WATCH_LIST_CAP = 10"
definition PR_WATCH_SNIPPET_MAX :: nat where "PR_WATCH_SNIPPET_MAX = 200"

record watch_state =
  ws_started_at :: u64
  ws_last_checked_at_ms :: "int option"
  ws_head_sha :: string
  ws_failed_checks :: "string set"
  ws_passed :: bool
  ws_checks_awaited_since_ms :: "int option"
  ws_no_checks_woken :: bool
  ws_comments_through :: u64
  ws_comment_ids :: "string set"
  ws_conflicting :: bool
  ws_comment_only_wakes :: u32
  ws_read_failures :: u32
  ws_own_login :: "string option"

record watch_comment =
  wc_login :: string
  wc_path :: "string option"
  wc_body :: string
  wc_created_at :: u64
  wc_id :: "string option"

datatype watch_change =
    Failed_Check (fc_sha: string) (fc_name: string) (fc_status: string)
  | Checks_Passed string nat
  | No_Checks_Reported string nat
  | New_Comment watch_comment
  | Conflict string
  | Stop_Read_Failures
  | Stop_Comment_Wake_Limit
  | Stop_Closed
  | Stop_Merged

record evaluation =
  ev_state :: "watch_state option"
  ev_changes :: "watch_change list"

definition saturating_inc :: "u32 \<Rightarrow> u32" where
  "saturating_inc n = (if n = - 1 then n else n + 1)"

definition ascii_lower :: "char \<Rightarrow> char" where
  "ascii_lower c = (let n = of_char c :: nat in if 65 \<le> n \<and> n \<le> 90 then char_of (n + 32) else c)"

definition eq_ignore_ascii_case :: "string \<Rightarrow> string \<Rightarrow> bool" where
  "eq_ignore_ascii_case a b \<longleftrightarrow> map ascii_lower a = map ascii_lower b"

text \<open>A read that found the pull request: the head is compared first.\<close>

definition watch_read :: "int \<Rightarrow> pr_detail \<Rightarrow> watch_state \<Rightarrow> watch_state" where
  "watch_read now detail s =
     (let s1 = s\<lparr>ws_last_checked_at_ms := Some now, ws_read_failures := 0\<rparr>
      in if pd_head_sha detail \<noteq> ws_head_sha s1
         then s1\<lparr>ws_head_sha := pd_head_sha detail, ws_failed_checks := {}, ws_passed := False,
                 ws_no_checks_woken := False, ws_checks_awaited_since_ms := Some now, ws_conflicting := False\<rparr>
         else s1)"

text \<open>The two loops over the checks.\<close>

fun report_failures :: "pr_check list \<Rightarrow> watch_state \<Rightarrow> watch_change list \<times> watch_state" where
  "report_failures [] s = ([], s)"
| "report_failures (c # cs) s =
     (if ck_state c = Check_Failing \<and> ck_name c \<notin> ws_failed_checks s
      then (let (changes, s') = report_failures cs (s\<lparr>ws_failed_checks := insert (ck_name c) (ws_failed_checks s)\<rparr>)
            in (Failed_Check (ws_head_sha s) (ck_name c) ''failure'' # changes, s'))
      else report_failures cs s)"

fun forget_recovered :: "pr_check list \<Rightarrow> watch_state \<Rightarrow> watch_state" where
  "forget_recovered [] s = s"
| "forget_recovered (c # cs) s =
     forget_recovered cs
       (if ck_state c \<noteq> Check_Failing then s\<lparr>ws_failed_checks := ws_failed_checks s - {ck_name c}\<rparr> else s)"

definition report_passed :: "pr_detail \<Rightarrow> watch_state \<Rightarrow> watch_change list \<times> watch_state" where
  "report_passed detail s =
     (let checks_passed = (pd_checks detail \<noteq> []
            \<and> list_all (\<lambda>c. ck_state c = Check_Passing \<or> ck_state c = Check_Skipped) (pd_checks detail))
      in if checks_passed \<and> \<not> ws_passed s
         then ([Checks_Passed (ws_head_sha s) (length (pd_checks detail))], s\<lparr>ws_passed := True\<rparr>)
         else ([], s))"

text \<open>\<open>saturating_mul\<close> on \<open>u64\<close>, then the cast to \<open>i64\<close>.\<close>

definition legacy_since :: "watch_state \<Rightarrow> int" where
  "legacy_since s = sint (word_of_nat (min (unat (ws_started_at s) * 1000) (2 ^ 64 - 1)) :: u64)"

definition report_no_checks :: "int \<Rightarrow> pr_detail \<Rightarrow> watch_state \<Rightarrow> watch_change list \<times> watch_state" where
  "report_no_checks now detail s =
     (if pd_checks detail = [] \<and> \<not> ws_no_checks_woken s then
        (let since = (case ws_checks_awaited_since_ms s of Some t \<Rightarrow> t | None \<Rightarrow> legacy_since s);
             s1 = s\<lparr>ws_checks_awaited_since_ms := Some since\<rparr>;
             elapsed_ms = max (now - since) 0
         in if PR_WATCH_NO_CHECKS_AFTER_MS \<le> elapsed_ms
            then ([No_Checks_Reported (ws_head_sha s) (nat (elapsed_ms div 60000))], s1\<lparr>ws_no_checks_woken := True\<rparr>)
            else ([], s1))
      else if pd_checks detail \<noteq> []
        then ([], s\<lparr>ws_no_checks_woken := True, ws_checks_awaited_since_ms := None\<rparr>)
      else ([], s))"

definition watch_comments :: "pr_detail \<Rightarrow> watch_comment list" where
  "watch_comments detail =
     map (\<lambda>c. \<lparr>wc_login = pc_author c, wc_path = None, wc_body = pc_body c, wc_created_at = pc_created_at c,
               wc_id = pc_id c\<rparr>) (pd_comments detail)
     @ map (\<lambda>r. \<lparr>wc_login = pv_author r, wc_path = None, wc_body = pv_body r, wc_created_at = pv_submitted_at r,
                 wc_id = pv_id r\<rparr>) (pd_reviews detail)
     @ concat (map (\<lambda>t. map (\<lambda>c. \<lparr>wc_login = tc_author c, wc_path = th_path t, wc_body = tc_body c,
                                   wc_created_at = tc_created_at c, wc_id = Some (tc_id c)\<rparr>) (th_comments t))
                   (pd_threads detail))"

text \<open>The conditions under which a comment is passed over.\<close>

definition old_news :: "string option \<Rightarrow> string option \<Rightarrow> watch_state \<Rightarrow> watch_comment \<Rightarrow> bool" where
  "old_news author own_login s c \<longleftrightarrow>
     wc_created_at c < ws_started_at s \<or> wc_created_at c < ws_comments_through s
     \<or> (case author of Some v \<Rightarrow> eq_ignore_ascii_case v (wc_login c) | None \<Rightarrow> False)
     \<or> (case own_login of Some v \<Rightarrow> eq_ignore_ascii_case v (wc_login c) | None \<Rightarrow> False)
     \<or> (case wc_id c of Some i \<Rightarrow> i \<in> ws_comment_ids s | None \<Rightarrow> False)"

fun report_comments ::
  "string option \<Rightarrow> string option \<Rightarrow> watch_comment list \<Rightarrow> watch_state \<Rightarrow> watch_change list \<times> watch_state" where
  "report_comments author own_login [] s = ([], s)"
| "report_comments author own_login (c # cs) s =
     (if old_news author own_login s c then report_comments author own_login cs s
      else (let s1 = (case wc_id c of Some i \<Rightarrow> s\<lparr>ws_comment_ids := insert i (ws_comment_ids s)\<rparr> | None \<Rightarrow> s);
                (changes, s2) = report_comments author own_login cs s1
            in (New_Comment c # changes, s2)))"

definition advance_through :: "pr_detail \<Rightarrow> watch_state \<Rightarrow> watch_state" where
  "advance_through detail s =
     s\<lparr>ws_comments_through :=
         fold max (map pc_created_at (pd_comments detail) @ map pv_submitted_at (pd_reviews detail))
           (ws_comments_through s)\<rparr>"

definition report_conflict :: "pr_detail \<Rightarrow> watch_state \<Rightarrow> watch_change list \<times> watch_state" where
  "report_conflict detail s =
     (case pd_mergeable detail of
        Conflicting \<Rightarrow>
          if \<not> ws_conflicting s
          then ([Conflict (case pd_base_ref detail of Some b \<Rightarrow> b | None \<Rightarrow> ''the base branch'')],
                s\<lparr>ws_conflicting := True\<rparr>)
          else ([], s)
      | Mergeable \<Rightarrow> ([], s\<lparr>ws_conflicting := False\<rparr>)
      | Mergeable_Unknown \<Rightarrow> ([], s))"

definition is_comment :: "watch_change \<Rightarrow> bool" where
  "is_comment c \<longleftrightarrow> (case c of New_Comment _ \<Rightarrow> True | _ \<Rightarrow> False)"

definition count_wakes :: "watch_change list \<Rightarrow> watch_state \<Rightarrow> watch_state" where
  "count_wakes changes s =
     (if changes \<noteq> [] \<and> list_all is_comment changes
      then s\<lparr>ws_comment_only_wakes := saturating_inc (ws_comment_only_wakes s)\<rparr>
      else if changes \<noteq> [] then s\<lparr>ws_comment_only_wakes := 0\<rparr>
      else s)"

text \<open>What an open pull request's read changes, before the wake limit.\<close>

definition watch_news ::
  "int \<Rightarrow> pr_detail \<Rightarrow> string option \<Rightarrow> string option \<Rightarrow> watch_state \<Rightarrow> watch_change list \<times> watch_state" where
  "watch_news now detail author own_login s =
     (let (failures, s1) = report_failures (pd_checks detail) (watch_read now detail s);
          s2 = forget_recovered (pd_checks detail) s1;
          (passed, s3) = report_passed detail s2;
          (silent, s4) = report_no_checks now detail s3;
          (comments, s5) = report_comments author own_login (watch_comments detail) s4;
          s6 = advance_through detail s5;
          (conflict, s7) = report_conflict detail s6
      in (failures @ passed @ silent @ comments @ conflict, s7))"

definition watch_evaluate ::
  "int \<Rightarrow> watch_state \<Rightarrow> pull_request_link \<Rightarrow> pr_detail \<Rightarrow> string option \<Rightarrow> string option \<Rightarrow> evaluation" where
  "watch_evaluate now s link detail author own_login =
     (case pl_state link of
        Pr_Merged \<Rightarrow> \<lparr>ev_state = None, ev_changes = [Stop_Merged]\<rparr>
      | Pr_Closed \<Rightarrow> \<lparr>ev_state = None, ev_changes = [Stop_Closed]\<rparr>
      | Pr_Open \<Rightarrow>
          (let (changes, s1) = watch_news now detail author own_login s;
               s2 = count_wakes changes s1
           in if PR_WATCH_COMMENT_WAKE_LIMIT \<le> ws_comment_only_wakes s2
              then \<lparr>ev_state = None, ev_changes = changes @ [Stop_Comment_Wake_Limit]\<rparr>
              else \<lparr>ev_state = Some s2, ev_changes = changes\<rparr>))"

definition failed_read :: "int \<Rightarrow> watch_state \<Rightarrow> evaluation" where
  "failed_read now s =
     (let s1 = s\<lparr>ws_last_checked_at_ms := Some now, ws_read_failures := saturating_inc (ws_read_failures s)\<rparr>
      in if PR_WATCH_READ_FAILURE_LIMIT \<le> ws_read_failures s1
         then \<lparr>ev_state = None, ev_changes = [Stop_Read_Failures]\<rparr>
         else \<lparr>ev_state = Some s1, ev_changes = []\<rparr>)"

section \<open>The message of a wake\<close>

definition ellipsis :: string where "ellipsis = [CHR 0xE2, CHR 0x80, CHR 0xA6]"
definition newline :: char where "newline = CHR 0x0A"

definition snippet :: "string \<Rightarrow> string" where
  "snippet body =
     (let end_at = floor_boundary (bytes_of body) (min (length body) PR_WATCH_SNIPPET_MAX);
          value = map (\<lambda>c. if c = newline \<or> c = CHR 0x0D then CHR '' '' else c) (take end_at body)
      in if end_at < length body then value @ ellipsis else value)"

fun change_item :: "watch_change \<Rightarrow> string option" where
  "change_item (Failed_Check sha name status) =
     Some (''checks failed on '' @ sha @ '': '' @ name @ '' ('' @ status @ '')'')"
| "change_item (Checks_Passed sha count) =
     Some (''all '' @ dec count @ '' required checks passed on '' @ sha)"
| "change_item (No_Checks_Reported sha minutes) =
     Some (''no checks have reported on '' @ sha @ '' after '' @ dec minutes
           @ '' minutes; none may be configured to run on this change'')"
| "change_item (New_Comment _) = None"
| "change_item (Conflict base) = Some (''the branch now conflicts with '' @ base)"
| "change_item Stop_Read_Failures =
     Some (''the watch stopped after '' @ dec (unat PR_WATCH_READ_FAILURE_LIMIT) @ '' failed reads'')"
| "change_item Stop_Comment_Wake_Limit =
     Some (''the watch stopped after '' @ dec (unat PR_WATCH_COMMENT_WAKE_LIMIT) @ '' comment-only wakes'')"
| "change_item Stop_Closed = Some ''the pull request closed; the watch ended''"
| "change_item Stop_Merged = Some ''the pull request merged; the watch ended''"

fun change_comment :: "watch_change \<Rightarrow> watch_comment option" where
  "change_comment (New_Comment c) = Some c"
| "change_comment _ = None"

definition comment_item :: "watch_comment \<Rightarrow> string" where
  "comment_item c =
     wc_login c @ '' on '' @ (case wc_path c of Some p \<Rightarrow> p | None \<Rightarrow> ''the pull request'') @ '': '' @ [CHR 0x22]
     @ map (\<lambda>ch. if ch = CHR 0x22 then CHR 0x27 else ch) (snippet (wc_body c)) @ [CHR 0x22]"

definition message_items :: "watch_change list \<Rightarrow> string list" where
  "message_items changes =
     List.map_filter change_item changes
     @ map comment_item (take PR_WATCH_LIST_CAP (List.map_filter change_comment changes))"

definition message_hidden :: "watch_change list \<Rightarrow> nat" where
  "message_hidden changes =
     (length (message_items changes) - PR_WATCH_LIST_CAP)
     + (length (List.map_filter change_comment changes) - PR_WATCH_LIST_CAP)"

definition watch_message :: "u32 \<Rightarrow> watch_change list \<Rightarrow> string" where
  "watch_message number changes =
     join_with [newline]
       ([''Update on pull request #'' @ dec (unat number) @ '', which Houston is watching for you:'']
        @ map (\<lambda>item. ''- '' @ item) (take PR_WATCH_LIST_CAP (message_items changes))
        @ (if 0 < message_hidden changes then [''- and '' @ dec (message_hidden changes) @ '' more''] else [])
        @ [''Act on each item, then end your turn. Call pane_pr_unwatch when you no longer need updates.'']
        @ (if Stop_Read_Failures \<in> set changes
           then [''Houston stopped watching after '' @ dec (unat PR_WATCH_READ_FAILURE_LIMIT)
                 @ '' consecutive read failures.''] else [])
        @ (if Stop_Comment_Wake_Limit \<in> set changes
           then [''Houston stopped watching after '' @ dec (unat PR_WATCH_COMMENT_WAKE_LIMIT)
                 @ '' comment-only wakes in a row.''] else [])
        @ (if Stop_Merged \<in> set changes
           then [''Houston stopped watching because the pull request was merged.''] else [])
        @ (if Stop_Closed \<in> set changes
           then [''Houston stopped watching because the pull request was closed.''] else []))"

section \<open>News is told once\<close>

definition failing_names :: "pr_check list \<Rightarrow> string set" where
  "failing_names cs = ck_name ` {c \<in> set cs. ck_state c = Check_Failing}"

definition other_names :: "pr_check list \<Rightarrow> string set" where
  "other_names cs = ck_name ` {c \<in> set cs. ck_state c \<noteq> Check_Failing}"

lemma report_failures_state:
  "snd (report_failures cs s) = s\<lparr>ws_failed_checks := ws_failed_checks s \<union> failing_names cs\<rparr>"
proof (induction cs s rule: report_failures.induct)
  case (2 c cs s)
  have "failing_names (c # cs) = (if ck_state c = Check_Failing then insert (ck_name c) (failing_names cs) else failing_names cs)"
    by (auto simp: failing_names_def)
  with 2 show ?case
    by (cases "ck_state c = Check_Failing"; cases "ck_name c \<in> ws_failed_checks s")
      (simp_all add: case_prod_unfold Let_def insert_absorb)
qed (simp add: failing_names_def)

lemma report_failures_quiet: "failing_names cs \<subseteq> ws_failed_checks s \<Longrightarrow> fst (report_failures cs s) = []"
  by (induction cs s rule: report_failures.induct) (auto simp: failing_names_def)

lemma forget_recovered_state:
  "forget_recovered cs s = s\<lparr>ws_failed_checks := ws_failed_checks s - other_names cs\<rparr>"
proof (induction cs s rule: forget_recovered.induct)
  case (2 c cs s)
  have "other_names (c # cs) = (if ck_state c \<noteq> Check_Failing then insert (ck_name c) (other_names cs) else other_names cs)"
    by (auto simp: other_names_def)
  moreover have "F - {n} - O' = F - insert n O'" for F O' :: "string set" and n by blast
  ultimately show ?case using 2 by (cases "ck_state c = Check_Failing") simp_all
qed (simp add: other_names_def)

lemma old_news_mono:
  "\<lbrakk>old_news a l s c; ws_started_at s' = ws_started_at s; ws_comments_through s \<le> ws_comments_through s';
    ws_comment_ids s \<subseteq> ws_comment_ids s'\<rbrakk> \<Longrightarrow> old_news a l s' c"
  by (auto simp: old_news_def split: option.splits)

text \<open>The ids seen grow by some set; every comment with an id is old news afterwards.\<close>

lemma report_comments_spec:
  "\<exists>ids. snd (report_comments a l cs s) = s\<lparr>ws_comment_ids := ws_comment_ids s \<union> ids\<rparr>
    \<and> (\<forall>c \<in> set cs. wc_id c \<noteq> None \<longrightarrow> old_news a l (s\<lparr>ws_comment_ids := ws_comment_ids s \<union> ids\<rparr>) c)"
proof (induction a l cs s rule: report_comments.induct)
  case (2 a l c cs s)
  show ?case
  proof (cases "old_news a l s c")
    case True
    with 2(1) obtain ids where ids: "snd (report_comments a l cs s) = s\<lparr>ws_comment_ids := ws_comment_ids s \<union> ids\<rparr>"
      "\<forall>c \<in> set cs. wc_id c \<noteq> None \<longrightarrow> old_news a l (s\<lparr>ws_comment_ids := ws_comment_ids s \<union> ids\<rparr>) c" by blast
    have "old_news a l (s\<lparr>ws_comment_ids := ws_comment_ids s \<union> ids\<rparr>) c" by (rule old_news_mono [OF True]) simp_all
    with ids True show ?thesis by (intro exI [of _ ids]) simp
  next
    case False
    let ?new = "case wc_id c of Some i \<Rightarrow> {i} | None \<Rightarrow> {}"
    let ?s1 = "case wc_id c of Some i \<Rightarrow> s\<lparr>ws_comment_ids := insert i (ws_comment_ids s)\<rparr> | None \<Rightarrow> s"
    have s1: "?s1 = s\<lparr>ws_comment_ids := ws_comment_ids s \<union> ?new\<rparr>" by (auto split: option.split)
    from 2(2) [OF False refl] obtain ids where
      ids: "snd (report_comments a l cs ?s1) = ?s1\<lparr>ws_comment_ids := ws_comment_ids ?s1 \<union> ids\<rparr>"
      "\<forall>c \<in> set cs. wc_id c \<noteq> None \<longrightarrow> old_news a l (?s1\<lparr>ws_comment_ids := ws_comment_ids ?s1 \<union> ids\<rparr>) c" by blast
    have "wc_id c \<noteq> None \<longrightarrow> old_news a l (s\<lparr>ws_comment_ids := ws_comment_ids s \<union> (?new \<union> ids)\<rparr>) c"
      by (auto simp: old_news_def)
    moreover have "snd (report_comments a l (c # cs) s) = snd (report_comments a l cs ?s1)"
      using False by (simp add: case_prod_unfold Let_def)
    ultimately show ?thesis using ids unfolding s1
      by (intro exI [of _ "?new \<union> ids"]) (simp add: Un_assoc)
  qed
next
  case (1 a l s)
  show ?case by (intro exI [of _ "{}"]) (cases s; simp)
qed

lemma report_comments_quiet: "\<forall>c \<in> set cs. old_news a l s c \<Longrightarrow> report_comments a l cs s = ([], s)"
  by (induction cs) auto

definition all_green :: "pr_detail \<Rightarrow> bool" where
  "all_green d \<longleftrightarrow> pd_checks d \<noteq> []
     \<and> list_all (\<lambda>c. ck_state c = Check_Passing \<or> ck_state c = Check_Skipped) (pd_checks d)"

text \<open>A state that has nothing left to tell about a detail.\<close>

definition told :: "pr_detail \<Rightarrow> string option \<Rightarrow> string option \<Rightarrow> watch_state \<Rightarrow> bool" where
  "told d a l s \<longleftrightarrow>
     ws_head_sha s = pd_head_sha d \<and> failing_names (pd_checks d) \<subseteq> ws_failed_checks s
     \<and> (all_green d \<longrightarrow> ws_passed s)
     \<and> (\<forall>c \<in> set (watch_comments d). old_news a l s c)
     \<and> (pd_mergeable d = Conflicting \<longrightarrow> ws_conflicting s)"

lemma report_passed_state: "snd (report_passed d s) = s\<lparr>ws_passed := ws_passed s \<or> all_green d\<rparr>"
  by (cases "all_green d"; cases "ws_passed s"; cases s)
    (simp_all add: report_passed_def all_green_def [symmetric] Let_def)

lemma report_no_checks_state:
  "ws_head_sha (snd (report_no_checks now d s)) = ws_head_sha s"
  "ws_failed_checks (snd (report_no_checks now d s)) = ws_failed_checks s"
  "ws_passed (snd (report_no_checks now d s)) = ws_passed s"
  "ws_conflicting (snd (report_no_checks now d s)) = ws_conflicting s"
  "ws_started_at (snd (report_no_checks now d s)) = ws_started_at s"
  "ws_comments_through (snd (report_no_checks now d s)) = ws_comments_through s"
  "ws_comment_ids (snd (report_no_checks now d s)) = ws_comment_ids s"
  "ws_comment_only_wakes (snd (report_no_checks now d s)) = ws_comment_only_wakes s"
  by (simp_all add: report_no_checks_def Let_def)

lemma report_conflict_state:
  "snd (report_conflict d s) = s\<lparr>ws_conflicting := (case pd_mergeable d of Conflicting \<Rightarrow> True
     | Mergeable \<Rightarrow> False | Mergeable_Unknown \<Rightarrow> ws_conflicting s)\<rparr>"
  by (cases s) (simp add: report_conflict_def split: pr_mergeable.split)

lemma fold_max_ge: "(x :: u64) \<le> fold max ys x"
  by (induction ys arbitrary: x) (auto intro: order_trans [OF max.cobounded2])

lemma watch_read_head: "ws_head_sha (watch_read now d s) = pd_head_sha d"
  by (simp add: watch_read_def Let_def)

lemma told_after_news:
  assumes consistent: "failing_names (pd_checks d) \<inter> other_names (pd_checks d) = {}"
    and ids: "\<forall>c \<in> set (watch_comments d). wc_id c \<noteq> None"
  shows "told d a l (snd (watch_news now d a l s))"
proof -
  let ?s1 = "snd (report_failures (pd_checks d) (watch_read now d s))"
  let ?s4 = "snd (report_no_checks now d (snd (report_passed d (forget_recovered (pd_checks d) ?s1))))"
  obtain ids where c: "snd (report_comments a l (watch_comments d) ?s4) = ?s4\<lparr>ws_comment_ids := ws_comment_ids ?s4 \<union> ids\<rparr>"
    "\<forall>c \<in> set (watch_comments d). wc_id c \<noteq> None \<longrightarrow> old_news a l (?s4\<lparr>ws_comment_ids := ws_comment_ids ?s4 \<union> ids\<rparr>) c"
    using report_comments_spec by blast
  let ?s5 = "?s4\<lparr>ws_comment_ids := ws_comment_ids ?s4 \<union> ids\<rparr>"
  have news: "snd (watch_news now d a l s) = snd (report_conflict d (advance_through d ?s5))"
    by (simp add: watch_news_def case_prod_unfold Let_def c(1))
  have "old_news a l (snd (watch_news now d a l s)) c" if "c \<in> set (watch_comments d)" for c
  proof (rule old_news_mono)
    show "old_news a l ?s5 c" using c(2) ids that by blast
    show "ws_comments_through ?s5 \<le> ws_comments_through (snd (watch_news now d a l s))"
      unfolding news report_conflict_state
      by (simp add: advance_through_def) (meson fold_max_ge order_trans)
  qed (simp_all add: news report_conflict_state advance_through_def)
  moreover have "failing_names (pd_checks d) \<subseteq> ws_failed_checks (snd (watch_news now d a l s))"
    using consistent unfolding news report_conflict_state
    by (auto simp: advance_through_def report_no_checks_state report_passed_state forget_recovered_state report_failures_state)
  ultimately show ?thesis
    unfolding told_def news report_conflict_state
    by (simp add: advance_through_def report_no_checks_state report_passed_state forget_recovered_state
        report_failures_state watch_read_head)
qed

definition is_silent :: "watch_change \<Rightarrow> bool" where
  "is_silent c \<longleftrightarrow> (case c of No_Checks_Reported _ _ \<Rightarrow> True | _ \<Rightarrow> False)"

lemma told_keeps_quiet:
  assumes "told d a l s"
  shows "list_all is_silent (fst (watch_news now d a l s))"
proof -
  note t = assms [unfolded told_def]
  let ?s0 = "watch_read now d s"
  let ?s1 = "snd (report_failures (pd_checks d) ?s0)"
  let ?s2 = "forget_recovered (pd_checks d) ?s1"
  let ?s4 = "snd (report_no_checks now d (snd (report_passed d ?s2)))"
  have s0: "?s0 = s\<lparr>ws_last_checked_at_ms := Some now, ws_read_failures := 0\<rparr>"
    using t by (simp add: watch_read_def Let_def)
  have "fst (report_failures (pd_checks d) ?s0) = []"
    using t by (intro report_failures_quiet) (simp add: s0)
  moreover have "fst (report_passed d ?s2) = []"
    using t by (auto simp: report_passed_def all_green_def Let_def forget_recovered_state report_failures_state s0)
  moreover have "list_all is_silent (fst (report_no_checks now d s'))" for s'
    by (simp add: report_no_checks_def is_silent_def Let_def)
  moreover have "report_comments a l (watch_comments d) ?s4 = ([], ?s4)"
  proof (rule report_comments_quiet, rule ballI)
    fix c assume "c \<in> set (watch_comments d)"
    then have "old_news a l s c" using t by blast
    then show "old_news a l ?s4 c"
      by (rule old_news_mono)
        (simp_all add: report_no_checks_state report_passed_state forget_recovered_state report_failures_state s0)
  qed
  moreover have "fst (report_conflict d (advance_through d ?s4)) = []"
    using t by (auto simp: report_conflict_def advance_through_def report_no_checks_state report_passed_state
        forget_recovered_state report_failures_state s0 split: pr_mergeable.split)
  ultimately show ?thesis by (simp add: watch_news_def case_prod_unfold Let_def)
qed

lemma told_count_wakes:
  assumes "told d a l s"
  shows "told d a l (count_wakes cs s)"
proof -
  have "old_news a l (count_wakes cs s) c" if "old_news a l s c" for c
    by (rule old_news_mono [OF that]) (simp_all add: count_wakes_def)
  with assms show ?thesis by (simp add: told_def) (simp add: count_wakes_def)
qed

lemma watch_news_wakes: "ws_comment_only_wakes (snd (watch_news now d a l s)) = ws_comment_only_wakes s"
proof -
  obtain f s1 where 1: "report_failures (pd_checks d) (watch_read now d s) = (f, s1)" by fastforce
  let ?s4 = "snd (report_no_checks now d (snd (report_passed d (forget_recovered (pd_checks d) s1))))"
  obtain ids where "snd (report_comments a l (watch_comments d) ?s4) = ?s4\<lparr>ws_comment_ids := ws_comment_ids ?s4 \<union> ids\<rparr>"
    using report_comments_spec by blast
  moreover have "ws_comment_only_wakes s1 = ws_comment_only_wakes s"
    using report_failures_state [of "pd_checks d" "watch_read now d s"] 1 by (simp add: watch_read_def Let_def)
  ultimately show ?thesis
    by (simp add: watch_news_def case_prod_unfold Let_def 1 advance_through_def report_conflict_state
        report_no_checks_state report_passed_state forget_recovered_state)
qed

lemma silent_is_no_comment: "is_silent c \<Longrightarrow> \<not> is_comment c"
  by (cases c) (simp_all add: is_silent_def is_comment_def)

text \<open>C32: A change wakes the pane once: when a read finds the pull request exactly as the read before
  it did, the only news it can bring is that no check has reported for a quarter of an hour. It
  takes for granted that no name is shared by a failing check and one that is not, and that every
  comment carries its id.\<close>

theorem watch_tells_each_change_once:
  assumes "failing_names (pd_checks d) \<inter> other_names (pd_checks d) = {}"
    and "\<forall>c \<in> set (watch_comments d). wc_id c \<noteq> None"
    and "ev_state (watch_evaluate now s link d author own) = Some s'"
  shows "list_all is_silent (ev_changes (watch_evaluate now' s' link d author own))"
proof -
  have opened: "pl_state link = Pr_Open"
    using assms(3) by (cases "pl_state link") (simp_all add: watch_evaluate_def)
  obtain changes s1 where news: "watch_news now d author own s = (changes, s1)" by fastforce
  with assms(3) opened have s': "s' = count_wakes changes s1" "ws_comment_only_wakes s' < PR_WATCH_COMMENT_WAKE_LIMIT"
    by (auto simp: watch_evaluate_def Let_def not_le split: if_splits)
  have "told d author own s'"
    using told_count_wakes [OF told_after_news [OF assms(1,2), of author own now s]] news by (simp add: s'(1))
  from told_keeps_quiet [OF this, of now'] obtain changes' s2 where
    quiet: "watch_news now' d author own s' = (changes', s2)" "list_all is_silent changes'" by (metis fst_conv surj_pair)
  have "ws_comment_only_wakes s2 = ws_comment_only_wakes s'"
    using watch_news_wakes [of now' d author own s'] quiet(1) by simp
  moreover have "changes' \<noteq> [] \<Longrightarrow> \<not> list_all is_comment changes'"
    using quiet(2) silent_is_no_comment by (cases changes') auto
  ultimately have "ws_comment_only_wakes (count_wakes changes' s2) < PR_WATCH_COMMENT_WAKE_LIMIT"
    using s'(2) by (auto simp: count_wakes_def PR_WATCH_COMMENT_WAKE_LIMIT_def)
  then show ?thesis using opened quiet by (simp add: watch_evaluate_def Let_def not_le [symmetric])
qed

definition sample_watch :: watch_state where
  "sample_watch = \<lparr>ws_started_at = 0, ws_last_checked_at_ms = None, ws_head_sha = ''abc'', ws_failed_checks = {},
     ws_passed = False, ws_checks_awaited_since_ms = None, ws_no_checks_woken = False, ws_comments_through = 0,
     ws_comment_ids = {}, ws_conflicting = False, ws_comment_only_wakes = 0, ws_read_failures = 0,
     ws_own_login = None\<rparr>"

definition sample_check :: "string \<Rightarrow> pr_check_state \<Rightarrow> pr_check" where
  "sample_check name st = \<lparr>ck_name = name, ck_state = st, ck_url = None, ck_duration_ms = None, ck_run_id = None\<rparr>"

lemmas watch_defs = watch_evaluate_def watch_news_def watch_read_def report_passed_def report_no_checks_def
  watch_comments_def advance_through_def report_conflict_def count_wakes_def is_comment_def
  PR_WATCH_COMMENT_WAKE_LIMIT_def sample_watch_def sample_link_def sample_detail_def sample_check_def

lemma watch_tells_each_change_once_witness:
  "list_all is_silent (ev_changes (watch_evaluate 60000
     (the (ev_state (watch_evaluate 0 sample_watch sample_link (sample_detail\<lparr>pd_checks := [sample_check ''build'' Check_Failing]\<rparr>) None None)))
     sample_link (sample_detail\<lparr>pd_checks := [sample_check ''build'' Check_Failing]\<rparr>) None None))"
  (is "list_all is_silent (ev_changes (watch_evaluate _ (the (ev_state ?first)) _ ?d _ _))")
proof (rule watch_tells_each_change_once)
  show "failing_names (pd_checks ?d) \<inter> other_names (pd_checks ?d) = {}"
    by (auto simp: failing_names_def other_names_def sample_check_def)
  show "\<forall>c \<in> set (watch_comments ?d). wc_id c \<noteq> None"
    by (simp add: watch_comments_def sample_detail_def)
  have "ev_state ?first \<noteq> None" by (simp add: watch_defs Let_def)
  then show "ev_state ?first = Some (the (ev_state ?first))" by simp
qed

text \<open>GitHub may list two checks of one name. When one of them fails and the other does not, every
  read of the pull request takes the name back out of the failed set, so the same failure wakes the pane
  again at each read.\<close>

theorem same_named_checks_wake_forever:
  "let d = sample_detail\<lparr>pd_checks := [sample_check ''build'' Check_Failing, sample_check ''build'' Check_Passing]\<rparr>;
       first = watch_evaluate 0 sample_watch sample_link d None None;
       again = watch_evaluate 60000 (the (ev_state first)) sample_link d None None;
       third = watch_evaluate 120000 (the (ev_state again)) sample_link d None None
   in ev_changes first = [Failed_Check ''abc'' ''build'' ''failure'']
      \<and> ev_changes again = [Failed_Check ''abc'' ''build'' ''failure'']
      \<and> ev_changes third = [Failed_Check ''abc'' ''build'' ''failure'']"
  by (simp add: watch_defs Let_def)

section \<open>A watch that cannot read ends; a wake says how much there is\<close>

fun failed_reads :: "int list \<Rightarrow> watch_state \<Rightarrow> watch_state option" where
  "failed_reads [] s = Some s"
| "failed_reads (t # ts) s = Option.bind (ev_state (failed_read t s)) (failed_reads ts)"

lemma failed_reads_count:
  "unat (ws_read_failures s) < 15 \<Longrightarrow>
     failed_reads ts s = None \<longleftrightarrow> 15 \<le> unat (ws_read_failures s) + length ts"
proof (induction ts arbitrary: s)
  case (Cons t ts)
  let ?n = "ws_read_failures s"
  have inc: "unat (saturating_inc ?n) = Suc (unat ?n)"
  proof -
    have "?n < 15" using Cons.prems by (simp add: word_less_nat_alt)
    then have "?n \<noteq> - 1" by auto
    then show ?thesis using Cons.prems by (simp add: saturating_inc_def unat_word_ariths)
  qed
  have limit: "PR_WATCH_READ_FAILURE_LIMIT \<le> m \<longleftrightarrow> 15 \<le> unat m" for m
    by (simp add: PR_WATCH_READ_FAILURE_LIMIT_def word_le_nat_alt)
  show ?case
  proof (cases "15 \<le> Suc (unat ?n)")
    case True
    then show ?thesis using inc by (simp add: failed_read_def Let_def limit)
  next
    case False
    then show ?thesis using Cons.IH inc by (simp add: failed_read_def Let_def limit)
  qed
qed simp

text \<open>C34: A watch never polls an unreadable pull request for ever: after a successful read it survives
  fourteen failed reads in a row and ends at the fifteenth.\<close>

theorem unreadable_watch_ends:
  "failed_reads at_times (watch_read now detail s) = None \<longleftrightarrow> 15 \<le> length at_times"
  using failed_reads_count [of "watch_read now detail s" at_times] by (simp add: watch_read_def Let_def)

lemma split_changes:
  "length (List.map_filter change_item cs) + length (List.map_filter change_comment cs) = length cs"
proof (induction cs)
  case (Cons c cs)
  then show ?case by (cases c) (simp_all add: List.map_filter_simps)
qed (simp add: List.map_filter_simps)

lemma snippet_length: "length (snippet body) \<le> PR_WATCH_SNIPPET_MAX + 3"
  using floor_boundary_le [of "bytes_of body" "min (length body) PR_WATCH_SNIPPET_MAX"]
  by (auto simp: snippet_def Let_def ellipsis_def)

text \<open>A wake's message lists at most ten items and accounts for all the news: the items listed and
  the number it gives as left out add up to the number of changes, although comments are capped twice.\<close>

theorem wake_message_accounts_for_all:
  "length (take PR_WATCH_LIST_CAP (message_items changes)) + message_hidden changes = length changes"
proof -
  have "length (message_items changes) = length (List.map_filter change_item changes)
      + min (length (List.map_filter change_comment changes)) PR_WATCH_LIST_CAP"
    by (simp add: message_items_def)
  then show ?thesis
    using split_changes [of changes] by (simp add: message_hidden_def PR_WATCH_LIST_CAP_def min_def)
qed

end
