(* ===== verification/Night_Setup.thy ===== *)
theory Night_Setup
  imports Agent_Events
begin

text \<open>
  A Night shift's settings (\<^verbatim>\<open>core/houston-protocol/src/night_shift.rs\<close>), their defaults and the checks an
  update must pass (\<^verbatim>\<open>core/houston-core/src/night_shift/settings.rs\<close>), with the limit channels of the
  providers (\<^verbatim>\<open>core/houston-core/src/limits.rs\<close>). Text fields are UTF-8 bytes. Every refusal is a
  constructor of \<open>settings_error\<close>; the sentences they are printed with are left out.
\<close>

definition NIGHT_SHIFT_SETTINGS_VERSION :: u32 where "NIGHT_SHIFT_SETTINGS_VERSION = 2"
definition NIGHT_SHIFT_WINDOW_MAX_MINUTES :: nat where "NIGHT_SHIFT_WINDOW_MAX_MINUTES = 16 * 60"
definition NIGHT_SHIFT_WRAP_UP_LEAD_MINUTES :: nat where "NIGHT_SHIFT_WRAP_UP_LEAD_MINUTES = 45"

definition LIVE_WORKERS_MAX :: u32 where "LIVE_WORKERS_MAX = 12"
definition MAX_CHANGES_PER_PR_MIN :: u32 where "MAX_CHANGES_PER_PR_MIN = 2"
definition MAX_CHANGES_PER_PR_MAX :: u32 where "MAX_CHANGES_PER_PR_MAX = 20"
definition CHECKS_MAX :: nat where "CHECKS_MAX = 20"
definition SOURCE_MAX :: nat where "SOURCE_MAX = 120"
definition COMPETITORS_MAX :: nat where "COMPETITORS_MAX = 10"
definition SMOKE_FLOWS_MAX :: nat where "SMOKE_FLOWS_MAX = 20"
definition WORKERS_MAX :: nat where "WORKERS_MAX = 4"
definition TEXT_FIELD_MAX :: nat where "TEXT_FIELD_MAX = 2000"
definition MODEL_MAX :: nat where "MODEL_MAX = 100"
definition TEXT_TOTAL_MAX :: nat where "TEXT_TOTAL_MAX = 24000"

section \<open>The document\<close>

record night_clock =
  nc_hour :: nat
  nc_minute :: nat

record night_window =
  nw_start :: night_clock
  nw_wrap_up :: night_clock
  nw_hard_stop :: night_clock
  nw_nights :: "nat list"

datatype night_focus_level = Focus_Off | Focus_Low | Focus_Normal | Focus_High

record night_focus =
  nf_reliability :: night_focus_level
  nf_performance :: night_focus_level
  nf_ui_polish :: night_focus_level
  nf_competitor_gaps :: night_focus_level
  nf_docs_accuracy :: night_focus_level
  nf_test_gaps :: night_focus_level

record night_agent =
  na_provider :: agent_kind
  na_model :: "rstring option"

datatype night_output = Output_Prs | Output_MergeQueue

record night_app_qa =
  qa_enabled :: bool
  qa_start_command :: rstring
  qa_source :: rstring
  qa_address :: rstring
  qa_smoke_flows :: "rstring list"

datatype night_competitor = Competitor_Repo rstring | Competitor_App rstring rstring rstring

record night_check =
  nk_command :: rstring
  nk_source :: rstring

datatype night_verification = Verify_Light | Verify_Standard

datatype night_pr_size = Size_One | Size_Related u32

datatype night_questions = Questions_Park

record night_settings =
  ns_v :: u32
  ns_enabled :: bool
  ns_window :: night_window
  ns_focus :: night_focus
  ns_direction :: rstring
  ns_competitors :: "night_competitor list"
  ns_orchestrator :: night_agent
  ns_workers :: "night_agent list"
  ns_live_workers :: u32
  ns_reviewer :: "night_agent option"
  ns_output :: night_output
  ns_pr_size :: night_pr_size
  ns_screenshots :: bool
  ns_app_qa :: night_app_qa
  ns_hold_for_qa :: bool
  ns_checks :: "night_check list"
  ns_verification :: night_verification
  ns_questions :: night_questions

definition night_app_qa_default :: night_app_qa where
  "night_app_qa_default = \<lparr>qa_enabled = False, qa_start_command = [], qa_source = [], qa_address = [], qa_smoke_flows = []\<rparr>"

definition night_defaults :: night_settings where
  "night_defaults = \<lparr>
     ns_v = NIGHT_SHIFT_SETTINGS_VERSION,
     ns_enabled = False,
     ns_window = \<lparr>nw_start = \<lparr>nc_hour = 23, nc_minute = 30\<rparr>, nw_wrap_up = \<lparr>nc_hour = 6, nc_minute = 45\<rparr>,
                  nw_hard_stop = \<lparr>nc_hour = 7, nc_minute = 30\<rparr>, nw_nights = []\<rparr>,
     ns_focus = \<lparr>nf_reliability = Focus_Normal, nf_performance = Focus_Normal, nf_ui_polish = Focus_Off,
                 nf_competitor_gaps = Focus_Off, nf_docs_accuracy = Focus_Off, nf_test_gaps = Focus_Off\<rparr>,
     ns_direction = [],
     ns_competitors = [],
     ns_orchestrator = \<lparr>na_provider = Claude, na_model = Some (bytes_of ''opus'')\<rparr>,
     ns_workers = [\<lparr>na_provider = Zcode, na_model = Some (bytes_of ''GLM-5.3-Flash'')\<rparr>,
                   \<lparr>na_provider = Claude, na_model = Some (bytes_of ''opus'')\<rparr>],
     ns_live_workers = 4,
     ns_reviewer = None,
     ns_output = Output_Prs,
     ns_pr_size = Size_Related 5,
     ns_screenshots = True,
     ns_app_qa = night_app_qa_default,
     ns_hold_for_qa = True,
     ns_checks = [],
     ns_verification = Verify_Light,
     ns_questions = Questions_Park\<rparr>"

text \<open>What a workspace offers a new setup.\<close>

record night_installed_app =
  ia_name :: rstring
  ia_version :: rstring
  ia_path :: rstring

record night_detected =
  nd_checks :: "night_check list"
  nd_start_command :: "night_check option"
  nd_apps :: "night_installed_app list"
  nd_apps_note :: "rstring option"

definition night_seed :: "night_settings \<Rightarrow> night_detected \<Rightarrow> night_settings" where
  "night_seed s detected =
     (let s1 = (if ns_checks s = [] then s\<lparr>ns_checks := nd_checks detected\<rparr> else s)
      in case nd_start_command detected of
           Some start \<Rightarrow>
             if trim (qa_start_command (ns_app_qa s1)) = []
             then s1\<lparr>ns_app_qa := (ns_app_qa s1)\<lparr>qa_start_command := nk_command start, qa_source := nk_source start\<rparr>\<rparr>
             else s1
         | None \<Rightarrow> s1)"

section \<open>Limit channels\<close>

datatype limit_signal = Limit_Hook | Limit_AppServer | Limit_StallProbe | Limit_NoSignal

definition signal_for :: "agent_kind \<Rightarrow> bool \<Rightarrow> limit_signal" where
  "signal_for provider windows =
     (case provider of
        Claude \<Rightarrow> Limit_Hook
      | Opencode \<Rightarrow> Limit_Hook
      | Codex \<Rightarrow> if windows then Limit_StallProbe else Limit_AppServer
      | Zcode \<Rightarrow> Limit_StallProbe
      | _ \<Rightarrow> Limit_NoSignal)"

definition reports_no_limit :: "agent_kind \<Rightarrow> bool \<Rightarrow> bool" where
  "reports_no_limit provider windows \<longleftrightarrow> signal_for provider windows = Limit_NoSignal"

definition ends_limit :: "agent_kind \<Rightarrow> bool \<Rightarrow> string \<Rightarrow> string option \<Rightarrow> bool" where
  "ends_limit provider windows event notification_type \<longleftrightarrow>
     \<not> reports_no_limit provider windows
     \<and> (from_provider provider event = Some PromptSubmitted
        \<or> (provider = Claude \<and> event = ''Notification'' \<and> notification_type = Some ''quota_auto_resume_fired''))"

section \<open>The checks of an update\<close>

text \<open>\<open>str::chars().count()\<close> of a valid string.\<close>

definition char_count :: "rstring \<Rightarrow> nat" where
  "char_count s = length (filter (\<lambda>b. \<not> is_cont b) s)"

text \<open>Minutes are \<open>u32\<close> in the code; the subtraction stays in range for clock times.\<close>

definition minute_of_day :: "night_clock \<Rightarrow> nat" where
  "minute_of_day c = nc_hour c * 60 + nc_minute c"

definition minutes_between :: "night_clock \<Rightarrow> night_clock \<Rightarrow> nat" where
  "minutes_between from to' =
     (let d = (minute_of_day to' + 1440 - minute_of_day from) mod 1440 in if d = 0 then 1440 else d)"

datatype settings_error =
    Unsupported_Version u32
  | Not_A_Clock_Time string night_clock
  | Night_Out_Of_Range nat
  | Window_Too_Long nat
  | Wrap_Up_Not_Before_Stop
  | No_Night_Selected
  | No_Worker
  | Too_Many_Workers nat
  | Worker_Reports_No_Limit agent_kind
  | Not_A_Worker agent_kind
  | Zcode_Cannot_Orchestrate
  | Not_An_Orchestrator agent_kind
  | Not_A_Reviewer agent_kind
  | Live_Workers_Out_Of_Range u32
  | Pr_Size_Out_Of_Range u32
  | Too_Many string nat nat
  | Text_Too_Long string nat
  | Text_Total_Too_Long nat
  | Bad_Check night_check
  | Model_Too_Long nat
  | Polish_Without_Screenshots
  | Not_A_Repository nat rstring
  | App_Incomplete nat
  | No_Competitor
  | Merge_Queue_Needs bool bool

definition refuse_if :: "bool \<Rightarrow> settings_error \<Rightarrow> settings_error option" where
  "refuse_if b e = (if b then Some e else None)"

text \<open>Checks in sequence: the first refusal ends them.\<close>

abbreviation first_refusal :: "settings_error option list \<Rightarrow> settings_error option" where
  "first_refusal \<equiv> find_map (\<lambda>e. e)"

definition validate_window :: "night_window \<Rightarrow> settings_error option" where
  "validate_window w =
     (let total = minutes_between (nw_start w) (nw_hard_stop w);
          wrap = minutes_between (nw_start w) (nw_wrap_up w)
      in first_refusal
        [find_map (\<lambda>(name, c). refuse_if (23 < nc_hour c \<or> 59 < nc_minute c) (Not_A_Clock_Time name c))
           [(''start'', nw_start w), (''wrap-up'', nw_wrap_up w), (''hard stop'', nw_hard_stop w)],
         map_option Night_Out_Of_Range (List.find (\<lambda>d. \<not> (1 \<le> d \<and> d \<le> 7)) (nw_nights w)),
         refuse_if (NIGHT_SHIFT_WINDOW_MAX_MINUTES < total) (Window_Too_Long total),
         refuse_if (total \<le> wrap) Wrap_Up_Not_Before_Stop])"

definition is_worker_provider :: "agent_kind \<Rightarrow> bool" where
  "is_worker_provider p \<longleftrightarrow> p = Claude \<or> p = Codex \<or> p = Opencode \<or> p = Zcode"

definition is_orchestrator_provider :: "agent_kind \<Rightarrow> bool" where
  "is_orchestrator_provider p \<longleftrightarrow> p = Claude \<or> p = Codex \<or> p = Opencode"

section \<open>Repository names\<close>

definition is_ascii_alphanumeric :: "byte \<Rightarrow> bool" where
  "is_ascii_alphanumeric b \<longleftrightarrow> (48 \<le> b \<and> b \<le> 57) \<or> (65 \<le> b \<and> b \<le> 90) \<or> (97 \<le> b \<and> b \<le> 122)"

text \<open>\<open>strip_prefix(p).unwrap_or(t)\<close>, \<open>strip_suffix(p).unwrap_or(t)\<close>, \<open>trim_end_matches(c)\<close>.\<close>

definition without_prefix :: "rstring \<Rightarrow> rstring \<Rightarrow> rstring" where
  "without_prefix p t = (case strip_prefix p t of Some r \<Rightarrow> r | None \<Rightarrow> t)"

definition without_suffix :: "rstring \<Rightarrow> rstring \<Rightarrow> rstring" where
  "without_suffix p t = (case strip_prefix (rev p) (rev t) of Some r \<Rightarrow> rev r | None \<Rightarrow> t)"

definition trim_end_byte :: "byte \<Rightarrow> rstring \<Rightarrow> rstring" where
  "trim_end_byte c t = rev (dropWhile (\<lambda>b. b = c) (rev t))"

definition owner_ok :: "rstring \<Rightarrow> bool" where
  "owner_ok owner \<longleftrightarrow> owner \<noteq> [] \<and> length owner \<le> 39 \<and> list_all (\<lambda>b. is_ascii_alphanumeric b \<or> b = 0x2d) owner"

definition repo_ok :: "rstring \<Rightarrow> bool" where
  "repo_ok repo \<longleftrightarrow> repo \<noteq> [] \<and> length repo \<le> 100 \<and> repo \<noteq> [0x2e] \<and> repo \<noteq> [0x2e, 0x2e]
     \<and> list_all (\<lambda>b. is_ascii_alphanumeric b \<or> b = 0x2d \<or> b = 0x5f \<or> b = 0x2e) repo"

definition github_repo :: "rstring \<Rightarrow> rstring option" where
  "github_repo text =
     (let t = trim_end_byte 0x2f (trim text);
          t = (case strip_prefix (bytes_of ''https://'') t of
                 Some r \<Rightarrow> r
               | None \<Rightarrow> without_prefix (bytes_of ''http://'') t);
          t = without_prefix (bytes_of ''www.'') t;
          t = without_prefix (bytes_of ''github.com/'') t;
          t = without_suffix (bytes_of ''.git'') t
      in case find_index (\<lambda>b. b = 0x2f) t of
           None \<Rightarrow> None
         | Some slash \<Rightarrow>
             (let owner = take slash t; repo = drop (Suc slash) t
              in if owner_ok owner \<and> repo_ok repo then Some (owner @ [0x2f] @ repo) else None))"

section \<open>The whole document\<close>

definition app_qa_on :: "night_settings \<Rightarrow> bool" where
  "app_qa_on s \<longleftrightarrow> qa_enabled (ns_app_qa s) \<and> trim (qa_start_command (ns_app_qa s)) \<noteq> []"

fun competitor_texts :: "night_competitor \<Rightarrow> (string \<times> rstring) list" where
  "competitor_texts (Competitor_Repo repo) = [(''competitor'', repo)]"
| "competitor_texts (Competitor_App name version path) =
     [(''competitor'', name), (''competitor version'', version), (''competitor path'', path)]"

definition settings_texts :: "night_settings \<Rightarrow> (string \<times> rstring) list" where
  "settings_texts s =
     [(''direction'', ns_direction s), (''App start command'', qa_start_command (ns_app_qa s)),
      (''App address'', qa_address (ns_app_qa s))]
     @ map (\<lambda>c. (''check'', nk_command c)) (ns_checks s)
     @ concat (map competitor_texts (ns_competitors s))
     @ map (\<lambda>c. (''smoke flow'', c)) (qa_smoke_flows (ns_app_qa s))"

definition worker_refusal :: "bool \<Rightarrow> night_agent \<Rightarrow> settings_error option" where
  "worker_refusal windows w =
     first_refusal
       [refuse_if (reports_no_limit (na_provider w) windows) (Worker_Reports_No_Limit (na_provider w)),
        refuse_if (\<not> is_worker_provider (na_provider w)) (Not_A_Worker (na_provider w))]"

definition reviewer_refusal :: "bool \<Rightarrow> night_agent option \<Rightarrow> settings_error option" where
  "reviewer_refusal windows reviewer =
     (case reviewer of
        None \<Rightarrow> None
      | Some r \<Rightarrow> refuse_if (\<not> is_worker_provider (na_provider r) \<or> reports_no_limit (na_provider r) windows)
                    (Not_A_Reviewer (na_provider r)))"

definition texts_refusal :: "night_settings \<Rightarrow> settings_error option" where
  "texts_refusal s =
     (let total = sum_list (map (char_count \<circ> snd) (settings_texts s))
      in first_refusal
        [find_map (\<lambda>(name, text). refuse_if (TEXT_FIELD_MAX < char_count text) (Text_Too_Long name (char_count text)))
           (settings_texts s),
         refuse_if (TEXT_TOTAL_MAX < total) (Text_Total_Too_Long total)])"

definition models_refusal :: "night_settings \<Rightarrow> settings_error option" where
  "models_refusal s =
     find_map (\<lambda>model. refuse_if (MODEL_MAX < char_count model) (Model_Too_Long (char_count model)))
       (List.map_filter na_model
          ([ns_orchestrator s] @ ns_workers s @ (case ns_reviewer s of Some r \<Rightarrow> [r] | None \<Rightarrow> [])))"

definition competitor_refusal :: "nat \<times> night_competitor \<Rightarrow> settings_error option" where
  "competitor_refusal c =
     (case c of (i, Competitor_Repo repo) \<Rightarrow> refuse_if (github_repo repo \<noteq> Some repo) (Not_A_Repository (i + 1) repo)
      | (i, Competitor_App name version path) \<Rightarrow> refuse_if (trim name = [] \<or> trim path = []) (App_Incomplete (i + 1)))"

definition validate_settings :: "bool \<Rightarrow> night_settings \<Rightarrow> bool \<Rightarrow> settings_error option" where
  "validate_settings windows s merge_verify_command =
     first_refusal
       [refuse_if (ns_v s \<noteq> NIGHT_SHIFT_SETTINGS_VERSION) (Unsupported_Version (ns_v s)),
        validate_window (ns_window s),
        refuse_if (ns_enabled s \<and> nw_nights (ns_window s) = []) No_Night_Selected,
        refuse_if (ns_workers s = []) No_Worker,
        refuse_if (WORKERS_MAX < length (ns_workers s)) (Too_Many_Workers (length (ns_workers s))),
        find_map (worker_refusal windows) (ns_workers s),
        refuse_if (na_provider (ns_orchestrator s) = Zcode) Zcode_Cannot_Orchestrate,
        refuse_if (\<not> is_orchestrator_provider (na_provider (ns_orchestrator s)))
          (Not_An_Orchestrator (na_provider (ns_orchestrator s))),
        reviewer_refusal windows (ns_reviewer s),
        refuse_if (ns_live_workers s = 0 \<or> LIVE_WORKERS_MAX < ns_live_workers s)
          (Live_Workers_Out_Of_Range (ns_live_workers s)),
        (case ns_pr_size s of
           Size_Related max_changes \<Rightarrow>
             refuse_if (\<not> (MAX_CHANGES_PER_PR_MIN \<le> max_changes \<and> max_changes \<le> MAX_CHANGES_PER_PR_MAX))
               (Pr_Size_Out_Of_Range max_changes)
         | Size_One \<Rightarrow> None),
        find_map (\<lambda>(name, count, limit). refuse_if (limit < count) (Too_Many name count limit))
          [(''checks before hand-back'', length (ns_checks s), CHECKS_MAX),
           (''competitors'', length (ns_competitors s), COMPETITORS_MAX),
           (''smoke flows'', length (qa_smoke_flows (ns_app_qa s)), SMOKE_FLOWS_MAX)],
        texts_refusal s,
        map_option Bad_Check
          (List.find (\<lambda>c. SOURCE_MAX < char_count (nk_source c) \<or> trim (nk_command c) = []) (ns_checks s)),
        models_refusal s,
        refuse_if (nf_ui_polish (ns_focus s) \<noteq> Focus_Off \<and> \<not> ns_screenshots s) Polish_Without_Screenshots,
        find_map competitor_refusal (zip [0..<length (ns_competitors s)] (ns_competitors s)),
        refuse_if (nf_competitor_gaps (ns_focus s) \<noteq> Focus_Off \<and> ns_competitors s = []) No_Competitor,
        refuse_if (ns_output s = Output_MergeQueue \<and> (\<not> merge_verify_command \<or> \<not> app_qa_on s))
          (Merge_Queue_Needs (\<not> merge_verify_command) (\<not> app_qa_on s))]"

section \<open>Refusals\<close>

lemma refuse_if_None [simp]: "refuse_if b e = None \<longleftrightarrow> \<not> b"
  by (simp add: refuse_if_def)

lemma find_map_Cons_None [simp]: "find_map f (x # xs) = None \<longleftrightarrow> f x = None \<and> find_map f xs = None"
  by (simp split: option.splits)

declare find_map.simps(2) [simp del]

lemma first_refusal_None: "first_refusal xs = None \<longleftrightarrow> (\<forall>e \<in> set xs. e = None)"
  by (simp add: find_map_None_iff)

lemma validate_window_None:
  assumes "validate_window w = None"
  shows "list_all (\<lambda>c. nc_hour c \<le> 23 \<and> nc_minute c \<le> 59) [nw_start w, nw_wrap_up w, nw_hard_stop w]"
    "list_all (\<lambda>d. 1 \<le> d \<and> d \<le> 7) (nw_nights w)"
    "minutes_between (nw_start w) (nw_hard_stop w) \<le> NIGHT_SHIFT_WINDOW_MAX_MINUTES"
    "minutes_between (nw_start w) (nw_wrap_up w) < minutes_between (nw_start w) (nw_hard_stop w)"
  using assms
  by (auto simp: validate_window_def Let_def find_map_None_iff find_None_iff list_all_iff not_less not_le)

lemma minutes_between_range: "0 < minutes_between a b \<and> minutes_between a b \<le> 1440"
  by (simp add: minutes_between_def Let_def)

lemma worker_refusal_None:
  "worker_refusal windows w = None
     \<longleftrightarrow> \<not> reports_no_limit (na_provider w) windows \<and> is_worker_provider (na_provider w)"
  by (auto simp: worker_refusal_def find_map_None_iff)

lemma find_competitor_None:
  assumes "find_map competitor_refusal (zip [0..<length cs] cs) = None" "Competitor_Repo repo \<in> set cs"
  shows "github_repo repo = Some repo"
proof -
  obtain i where "i < length cs" "cs ! i = Competitor_Repo repo"
    using assms(2) by (auto simp: in_set_conv_nth)
  then have "(i, Competitor_Repo repo) \<in> set (zip [0..<length cs] cs)"
    by (auto simp: in_set_zip intro!: exI [of _ i])
  with assms(1) have "competitor_refusal (i, Competitor_Repo repo) = None"
    by (auto simp: find_map_None_iff)
  then show ?thesis by (simp add: competitor_refusal_def)
qed

text \<open>What an accepted Night shift setup guarantees: a window of at most sixteen hours of valid clock
  times whose wrap-up comes before its hard stop, a selected weekday when it is on, one to four workers
  whose usage limit Houston is told about, an orchestrator a pull request watch can wake, at most twelve
  panes, texts of at most 24000 characters together, competitors written in the form \<open>github_repo\<close> keeps,
  and a merge queue output only with a verification command and App QA.\<close>

theorem accepted_setup_is_runnable:
  assumes "validate_settings windows s merge_verify_command = None"
  shows "validate_window (ns_window s) = None
      \<and> minutes_between (nw_start (ns_window s)) (nw_wrap_up (ns_window s))
          < minutes_between (nw_start (ns_window s)) (nw_hard_stop (ns_window s))
      \<and> minutes_between (nw_start (ns_window s)) (nw_hard_stop (ns_window s)) \<le> 960
      \<and> (ns_enabled s \<longrightarrow> (\<exists>d \<in> set (nw_nights (ns_window s)). 1 \<le> d \<and> d \<le> 7))
      \<and> 1 \<le> length (ns_workers s) \<and> length (ns_workers s) \<le> 4
      \<and> (\<forall>w \<in> set (ns_workers s). signal_for (na_provider w) windows \<noteq> Limit_NoSignal)
      \<and> na_provider (ns_orchestrator s) \<in> {Claude, Codex, Opencode}
      \<and> 1 \<le> ns_live_workers s \<and> ns_live_workers s \<le> 12
      \<and> sum_list (map (char_count \<circ> snd) (settings_texts s)) \<le> 24000
      \<and> (\<forall>repo. Competitor_Repo repo \<in> set (ns_competitors s) \<longrightarrow> github_repo repo = Some repo)
      \<and> (ns_output s = Output_MergeQueue \<longrightarrow> merge_verify_command \<and> app_qa_on s)"
proof -
  have window: "validate_window (ns_window s) = None"
    and nights: "\<not> (ns_enabled s \<and> nw_nights (ns_window s) = [])"
    and workers: "ns_workers s \<noteq> []" "\<not> WORKERS_MAX < length (ns_workers s)"
      "find_map (worker_refusal windows) (ns_workers s) = None"
    and orchestrator: "is_orchestrator_provider (na_provider (ns_orchestrator s))"
    and live: "\<not> (ns_live_workers s = 0 \<or> LIVE_WORKERS_MAX < ns_live_workers s)"
    and texts: "texts_refusal s = None"
    and competitors: "find_map competitor_refusal (zip [0..<length (ns_competitors s)] (ns_competitors s)) = None"
    and merge_queue: "\<not> (ns_output s = Output_MergeQueue \<and> (\<not> merge_verify_command \<or> \<not> app_qa_on s))"
    using assms by (simp_all add: validate_settings_def first_refusal_None)
  note w = validate_window_None [OF window]
  have "ns_enabled s \<longrightarrow> (\<exists>d \<in> set (nw_nights (ns_window s)). 1 \<le> d \<and> d \<le> 7)"
    using nights w(2) by (cases "nw_nights (ns_window s)") auto
  moreover have "\<forall>v \<in> set (ns_workers s). signal_for (na_provider v) windows \<noteq> Limit_NoSignal"
    using workers(3) by (simp add: find_map_None_iff worker_refusal_None reports_no_limit_def)
  moreover have "sum_list (map (char_count \<circ> snd) (settings_texts s)) \<le> 24000"
    using texts by (simp add: texts_refusal_def Let_def find_map_None_iff TEXT_TOTAL_MAX_def)
  moreover have "1 \<le> ns_live_workers s"
    using live by (simp add: word_le_nat_alt unat_gt_0 Suc_le_eq)
  ultimately show ?thesis
    using window w nights workers orchestrator live merge_queue find_competitor_None [OF competitors]
    by (auto simp: NIGHT_SHIFT_WINDOW_MAX_MINUTES_def WORKERS_MAX_def LIVE_WORKERS_MAX_def
        is_orchestrator_provider_def Suc_le_eq not_less)
qed

lemma defaults_are_accepted: "validate_settings windows night_defaults merge_verify_command = None"
  by (simp add: validate_settings_def night_defaults_def night_app_qa_default_def validate_window_def
      minutes_between_def minute_of_day_def settings_texts_def texts_refusal_def models_refusal_def
      worker_refusal_def reviewer_refusal_def refuse_if_def reports_no_limit_def signal_for_def
      is_worker_provider_def is_orchestrator_provider_def char_count_def bytes_of_def is_cont_def
      List.map_filter_def Let_def
      NIGHT_SHIFT_SETTINGS_VERSION_def NIGHT_SHIFT_WINDOW_MAX_MINUTES_def LIVE_WORKERS_MAX_def
      MAX_CHANGES_PER_PR_MIN_def MAX_CHANGES_PER_PR_MAX_def CHECKS_MAX_def COMPETITORS_MAX_def
      SMOKE_FLOWS_MAX_def WORKERS_MAX_def TEXT_FIELD_MAX_def MODEL_MAX_def TEXT_TOTAL_MAX_def)

lemma accepted_setup_is_runnable_witness:
  "minutes_between (nw_start (ns_window night_defaults)) (nw_hard_stop (ns_window night_defaults)) \<le> 960
   \<and> na_provider (ns_orchestrator night_defaults) \<in> {Claude, Codex, Opencode}"
  using accepted_setup_is_runnable [OF defaults_are_accepted [of False False]] by blast

section \<open>Repository names read in every spelling\<close>

lemma ws_len_graphic: "list_all (\<lambda>b. 33 \<le> b \<and> b \<le> 126) s \<Longrightarrow> ws_len s = 0"
  by (cases s; cases "tl s"; cases "tl (tl s)") (auto simp: word_le_nat_alt word_less_nat_alt)

lemma list_all_drop: "list_all P s \<Longrightarrow> list_all P (drop n s)"
  by (auto simp: list_all_iff dest: in_set_dropD)

lemma trim_graphic: "list_all (\<lambda>b. 33 \<le> b \<and> b \<le> 126) s \<Longrightarrow> trim s = s"
  by (simp add: trim_def trim_start.simps trim_end.simps ws_len_end_def ws_len_graphic list_all_drop)

lemma owner_ok_bytes: "owner_ok owner \<Longrightarrow> b \<in> set owner \<Longrightarrow> 33 \<le> b \<and> b \<le> 126 \<and> b \<noteq> 0x2e \<and> b \<noteq> 0x2f \<and> b \<noteq> 0x3a"
  by (auto simp: owner_ok_def is_ascii_alphanumeric_def list_all_iff word_le_nat_alt)

lemma repo_ok_bytes: "repo_ok repo \<Longrightarrow> b \<in> set repo \<Longrightarrow> 33 \<le> b \<and> b \<le> 126 \<and> b \<noteq> 0x2f \<and> b \<noteq> 0x3a"
  by (auto simp: repo_ok_def is_ascii_alphanumeric_def list_all_iff word_le_nat_alt)

text \<open>A prefix whose dot comes before any slash is no prefix of \<open>owner/...\<close>.\<close>

lemma dotted_prefix:
  assumes "owner_ok owner" "p = a @ 0x2e # b" "0x2f \<notin> set a"
  shows "strip_prefix p (owner @ 0x2f # rest) = None"
proof -
  have "\<not> prefix p (owner @ 0x2f # rest)"
  proof
    assume "prefix p (owner @ 0x2f # rest)"
    then obtain z where z: "owner @ 0x2f # rest = a @ 0x2e # b @ z" using assms(2) by (auto simp: prefix_def)
    show False
    proof (cases "length a < length owner")
      case True
      then have "(owner @ 0x2f # rest) ! length a \<in> set owner" by (simp add: nth_append)
      moreover have "(owner @ 0x2f # rest) ! length a = 0x2e" by (simp add: z)
      ultimately show False using owner_ok_bytes [OF assms(1)] by auto
    next
      case False
      then show False
        using z assms(3) by (cases "length a = length owner") (auto simp: append_eq_append_conv2 append_eq_Cons_conv Cons_eq_append_conv)
    qed
  qed
  then show ?thesis by (simp add: strip_prefix_def)
qed

lemma without_prefix_same [simp]: "without_prefix p (p @ t) = t"
  by (simp add: without_prefix_def strip_prefix_def)

lemma without_suffix_same [simp]: "without_suffix p (t @ p) = t"
  by (simp add: without_suffix_def strip_prefix_def)

lemma without_suffix_none: "\<not> suffix p t \<Longrightarrow> without_suffix p t = t"
  by (simp add: without_suffix_def strip_prefix_def suffix_to_prefix)

lemma trim_end_byte_run: "t \<noteq> [] \<Longrightarrow> last t \<noteq> c \<Longrightarrow> trim_end_byte c (t @ replicate n c) = t"
  by (cases t rule: rev_cases) (simp_all add: trim_end_byte_def dropWhile_append)

lemma colon_prefix:
  assumes "0x3a \<in> set p" "0x3a \<notin> set t" shows "\<not> prefix p t"
  using assms by (auto simp: prefix_def)

lemma git_suffix:
  assumes "\<not> suffix (bytes_of ''.git'') repo"
  shows "\<not> suffix (bytes_of ''.git'') (owner @ 0x2f # repo)"
  using assms by (auto simp: suffix_append suffix_Cons bytes_of_def Cons_eq_append_conv)

lemma slash_index: "0x2f \<notin> set owner \<Longrightarrow> find_index (\<lambda>b. b = 0x2f) (owner @ 0x2f # rest) = Some (length owner)"
  by (induction owner) auto

text \<open>A GitHub repository is read from every spelling people use: a valid owner and name come back as
  \<open>owner/repo\<close> whether or not they are written with a scheme, \<open>www.\<close>, the host, a final \<open>.git\<close> and any
  number of final slashes.\<close>

theorem github_repo_reads_every_spelling:
  assumes "owner_ok owner" "repo_ok repo" "\<not> suffix (bytes_of ''.git'') repo"
  shows "github_repo
      ((if https then bytes_of ''https://'' else if http then bytes_of ''http://'' else [])
       @ (if www then bytes_of ''www.'' else []) @ (if host then bytes_of ''github.com/'' else [])
       @ owner @ [0x2f] @ repo @ (if git then bytes_of ''.git'' else []) @ replicate slashes 0x2f)
    = Some (owner @ [0x2f] @ repo)"
proof -
  obtain name where name_def: "name = owner @ 0x2f # repo @ (if git then bytes_of ''.git'' else [])" by simp
  obtain hosted where hosted_def: "hosted = (if host then bytes_of ''github.com/'' else []) @ name" by simp
  obtain full where full_def: "full = (if www then bytes_of ''www.'' else []) @ hosted" by simp
  obtain whole where whole_def: "whole = (if https then bytes_of ''https://'' else if http then bytes_of ''http://'' else []) @ full" by simp
  note o = owner_ok_bytes [OF assms(1)] and r = repo_ok_bytes [OF assms(2)]
  have repo: "repo \<noteq> []" using assms(2) by (simp add: repo_ok_def)
  have graphic: "list_all (\<lambda>b. 33 \<le> b \<and> b \<le> 126) (whole @ replicate slashes 0x2f)"
    using o r by (auto simp: whole_def full_def hosted_def name_def list_all_iff bytes_of_def)
  have last: "whole \<noteq> [] \<and> last whole \<noteq> 0x2f"
    using r [OF last_in_set [OF repo]] repo by (simp add: whole_def full_def hosted_def name_def bytes_of_def)
  have colon: "0x3a \<notin> set full"
    using o r by (auto simp: full_def hosted_def name_def bytes_of_def)
  have scheme: "(case strip_prefix (bytes_of ''https://'') whole of Some x \<Rightarrow> x
      | None \<Rightarrow> without_prefix (bytes_of ''http://'') whole) = full"
    using colon_prefix [OF _ colon, where p = "bytes_of ''https://''"] colon_prefix [OF _ colon, where p = "bytes_of ''http://''"]
    by (simp add: whole_def strip_prefix_def without_prefix_def bytes_of_def)
  have "strip_prefix (bytes_of ''www.'') name = None"
    unfolding name_def by (rule dotted_prefix [OF assms(1), where a = "bytes_of ''www''" and b = "[]"]) (auto simp: bytes_of_def)
  then have "without_prefix (bytes_of ''www.'') full = hosted"
    by (auto simp: full_def hosted_def without_prefix_def strip_prefix_def bytes_of_def)
  moreover have "strip_prefix (bytes_of ''github.com/'') name = None"
    unfolding name_def
    by (rule dotted_prefix [OF assms(1), where a = "bytes_of ''github''" and b = "bytes_of ''com/''"]) (auto simp: bytes_of_def)
  then have "without_prefix (bytes_of ''github.com/'') hosted = name"
    by (auto simp: hosted_def without_prefix_def strip_prefix_def)
  moreover have "without_suffix (bytes_of ''.git'') name = owner @ 0x2f # repo"
    using git_suffix [OF assms(3), of owner] without_suffix_same [of "bytes_of ''.git''" "owner @ 0x2f # repo"]
    by (simp add: name_def without_suffix_none)
  moreover have "find_index (\<lambda>b. b = 0x2f) (owner @ 0x2f # repo) = Some (length owner)"
    using o by (intro slash_index) auto
  ultimately have "github_repo (whole @ replicate slashes 0x2f) = Some (owner @ 0x2f # repo)"
    using trim_end_byte_run [of whole "0x2f" slashes] last scheme assms(1,2)
    by (simp add: github_repo_def trim_graphic [OF graphic] Let_def)
  then show ?thesis
    by (simp only: whole_def full_def hosted_def name_def append_assoc append_Cons append_Nil)
qed

lemma github_repo_reads_every_spelling_witness:
  "github_repo (bytes_of ''https://www.github.com/theogmiguel/houston.git//'') = Some (bytes_of ''theogmiguel/houston'')"
proof -
  have "owner_ok (bytes_of ''theogmiguel'')" "repo_ok (bytes_of ''houston'')"
    "\<not> suffix (bytes_of ''.git'') (bytes_of ''houston'')"
    by (simp_all add: owner_ok_def repo_ok_def is_ascii_alphanumeric_def bytes_of_def suffix_to_prefix)
  from github_repo_reads_every_spelling [OF this, of True False True True True 2]
  show ?thesis by (simp add: bytes_of_def numeral_2_eq_2)
qed

text \<open>The name it returns is not always one it keeps: of two final \<open>.git\<close> it drops one at a time, so a
  competitor taken over from an older document can be refused by \<open>validate_settings\<close>.\<close>

lemma github_repo_not_idempotent:
  "github_repo (bytes_of ''a/b.git.git'') = Some (bytes_of ''a/b.git'')"
  "competitor_refusal (0, Competitor_Repo (bytes_of ''a/b.git'')) = Some (Not_A_Repository 1 (bytes_of ''a/b.git''))"
  by (simp_all add: competitor_refusal_def refuse_if_def github_repo_def trim_graphic trim_end_byte_def
      without_prefix_def without_suffix_def strip_prefix_def owner_ok_def repo_ok_def
      is_ascii_alphanumeric_def bytes_of_def)

end
