(* ===== verification/Night_Window.thy ===== *)
theory Night_Window
  imports Night_Setup "HOL-Library.Signed_Division"
begin

text \<open>
  When a Night shift run wraps up and stops (\<^verbatim>\<open>core/houston-core/src/night_shift/window.rs\<close>), and how a
  start picks its window and the next one (\<open>night_shift_fire\<close> of \<^verbatim>\<open>daemon/night_shift.rs\<close>). Times are signed
  milliseconds; \<open>local_offset_ms\<close>, which asks the C library, is the parameter \<open>off\<close>.
\<close>

definition MINUTE_MS :: int where "MINUTE_MS = 60000"
definition DAY_MS :: int where "DAY_MS = 86400000"

record run_window =
  rw_wrap_up_at_ms :: int
  rw_hard_stop_at_ms :: int

datatype run_now_error = Run_Too_Short int int | Run_Too_Long int

definition run_now :: "int \<Rightarrow> int \<Rightarrow> run_now_error + run_window" where
  "run_now now_ms until_ms =
     (let span = until_ms - now_ms; max_span = int NIGHT_SHIFT_WINDOW_MAX_MINUTES * MINUTE_MS
      in if span < MINUTE_MS then Inl (Run_Too_Short until_ms (span sdiv 1000))
      else if max_span < span then Inl (Run_Too_Long (span sdiv MINUTE_MS))
      else Inr \<lparr>rw_wrap_up_at_ms =
                  (if span < 60 * MINUTE_MS then now_ms + span * 3 sdiv 4
                   else until_ms - int NIGHT_SHIFT_WRAP_UP_LEAD_MINUTES * MINUTE_MS),
                rw_hard_stop_at_ms = until_ms\<rparr>)"

definition clock_of :: "(int \<Rightarrow> int) \<Rightarrow> int \<Rightarrow> night_clock" where
  "clock_of off ms =
     (let minute = (ms + off ms) mod DAY_MS div MINUTE_MS
      in \<lparr>nc_hour = nat (minute div 60), nc_minute = nat (minute mod 60)\<rparr>)"

definition clock_window :: "int \<Rightarrow> run_window \<Rightarrow> (int \<Rightarrow> int) \<Rightarrow> night_window" where
  "clock_window start_ms run off =
     \<lparr>nw_start = clock_of off start_ms, nw_wrap_up = clock_of off (rw_wrap_up_at_ms run),
      nw_hard_stop = clock_of off (rw_hard_stop_at_ms run), nw_nights = []\<rparr>"

definition clock_ms :: "night_clock \<Rightarrow> int" where
  "clock_ms c = int (nc_hour c) * 3600000 + int (nc_minute c) * MINUTE_MS"

definition next_local :: "int \<Rightarrow> night_clock \<Rightarrow> int \<Rightarrow> int" where
  "next_local after_ms c offset_ms =
     (let local = after_ms + offset_ms;
          at = local div DAY_MS * DAY_MS + clock_ms c
      in (if at < local then at + DAY_MS else at) - offset_ms)"

definition scheduled :: "(int \<Rightarrow> int) \<Rightarrow> int \<Rightarrow> night_window \<Rightarrow> run_window" where
  "scheduled off due_ms w =
     \<lparr>rw_wrap_up_at_ms = next_local due_ms (nw_wrap_up w) (off due_ms),
      rw_hard_stop_at_ms = next_local due_ms (nw_hard_stop w) (off due_ms)\<rparr>"

text \<open>The weekday at an instant, 1 for Sunday, and the \<open>for _ in 0..8\<close> loop of \<open>next_start\<close>.\<close>

definition night_of :: "int \<Rightarrow> int \<Rightarrow> nat" where
  "night_of offset at = nat (((at + offset) div DAY_MS + 4) mod 7) + 1"

fun next_start_loop :: "nat \<Rightarrow> nat list \<Rightarrow> int \<Rightarrow> int \<Rightarrow> int option" where
  "next_start_loop 0 nights offset at = None"
| "next_start_loop (Suc n) nights offset at =
     (if night_of offset at \<in> set nights then Some at
      else next_start_loop n nights offset (at + DAY_MS))"

definition next_start :: "(int \<Rightarrow> int) \<Rightarrow> int \<Rightarrow> night_window \<Rightarrow> int option" where
  "next_start off now_ms w =
     (if nw_nights w = [] then None
      else next_start_loop 8 (nw_nights w) (off now_ms) (next_local now_ms (nw_start w) (off now_ms)))"

lemma next_start_loop_numeral [simp]:
  "next_start_loop (numeral n) nights offset at =
     (if night_of offset at \<in> set nights then Some at
      else next_start_loop (pred_numeral n) nights offset (at + DAY_MS))"
  by (simp add: numeral_eq_Suc)

section \<open>A start\<close>

definition NIGHT_NO_START_MS :: int where "NIGHT_NO_START_MS = 365 * 24 * 60 * MINUTE_MS"

datatype routine_trigger = Trigger_Schedule | Trigger_Manual

definition fire_window ::
  "(int \<Rightarrow> int) \<Rightarrow> routine_trigger \<Rightarrow> int \<Rightarrow> int \<Rightarrow> int option \<Rightarrow> night_window \<Rightarrow> run_now_error + run_window" where
  "fire_window off trigger next_run_at_ms now until_ms w =
     (case until_ms of
        Some until \<Rightarrow> run_now now until
      | None \<Rightarrow> Inr (scheduled off (if trigger = Trigger_Schedule then min next_run_at_ms now else now) w))"

definition fire_next :: "(int \<Rightarrow> int) \<Rightarrow> int \<Rightarrow> run_window \<Rightarrow> night_window \<Rightarrow> int" where
  "fire_next off now win w =
     (case next_start off (max (rw_hard_stop_at_ms win) now) w of Some t \<Rightarrow> t | None \<Rightarrow> now + NIGHT_NO_START_MS)"

text \<open>How many minutes late a missed start is.\<close>

definition fire_missed :: "int \<Rightarrow> run_window \<Rightarrow> int option" where
  "fire_missed now win =
     (if rw_wrap_up_at_ms win \<le> now then Some ((now - rw_wrap_up_at_ms win) div MINUTE_MS) else None)"

section \<open>Clock arithmetic\<close>

text \<open>The same time of day under a constant offset \<open>o\<close>.\<close>

definition reads :: "int \<Rightarrow> night_clock \<Rightarrow> int \<Rightarrow> bool" where
  "reads o' c t \<longleftrightarrow> (t + o') mod DAY_MS = clock_ms c"

definition clock_ok :: "night_clock \<Rightarrow> bool" where
  "clock_ok c \<longleftrightarrow> nc_hour c \<le> 23 \<and> nc_minute c \<le> 59"

lemma clock_ms_range: "clock_ok c \<Longrightarrow> 0 \<le> clock_ms c \<and> clock_ms c < DAY_MS"
  by (simp add: clock_ok_def clock_ms_def MINUTE_MS_def DAY_MS_def)

lemma day_step:
  fixes d l c :: int
  assumes "0 < d" "0 \<le> c" "c < d"
  shows "(if l div d * d + c < l then l div d * d + c + d else l div d * d + c) mod d = c"
    and "l \<le> (if l div d * d + c < l then l div d * d + c + d else l div d * d + c)"
    and "(if l div d * d + c < l then l div d * d + c + d else l div d * d + c) < l + d"
proof -
  obtain q where q: "q = l div d" by simp
  have "l = q * d + l mod d" "0 \<le> l mod d" "l mod d < d" using assms by (simp_all add: q)
  then have "l < q * d + d" "q * d \<le> l" by linarith+
  moreover have "(q * d + c + d) mod d = c" "(q * d + c) mod d = c"
    using assms by (simp_all add: mod_add_eq [symmetric])
  ultimately show "(if l div d * d + c < l then l div d * d + c + d else l div d * d + c) mod d = c"
    "l \<le> (if l div d * d + c < l then l div d * d + c + d else l div d * d + c)"
    "(if l div d * d + c < l then l div d * d + c + d else l div d * d + c) < l + d"
    using assms by (simp_all add: q [symmetric])
qed

lemma DAY_MS_pos: "0 < DAY_MS" by (simp add: DAY_MS_def)

lemma next_local_spec:
  assumes "clock_ok c"
  shows "reads o' c (next_local t c o')" "t \<le> next_local t c o'" "next_local t c o' < t + DAY_MS"
  using day_step [OF DAY_MS_pos, of "clock_ms c" "t + o'"] clock_ms_range [OF assms]
  by (simp_all add: reads_def next_local_def Let_def split del: if_split)

text \<open>Two instants that read the same clock are whole days apart.\<close>

lemma reads_apart:
  assumes "reads o' c s" "reads o' c t" "s \<le> t"
  obtains k where "t = s + int k * DAY_MS"
proof -
  have "(s + o') mod DAY_MS = (t + o') mod DAY_MS" using assms(1,2) by (simp add: reads_def)
  then obtain z where z: "t + o' = s + o' + DAY_MS * z" by (rule mod_eqE)
  with assms(3) DAY_MS_pos have "0 \<le> z" by (simp add: zero_le_mult_iff)
  with z show thesis by (intro that [of "nat z"]) simp
qed

lemma night_of_day: "night_of o' (t + int k * DAY_MS) = nat ((((t + o') div DAY_MS + 4) + int k) mod 7) + 1"
proof -
  have "(t + int k * DAY_MS + o') div DAY_MS = (t + o') div DAY_MS + int k"
    using div_mult_self1 [of DAY_MS "t + o'" "int k"] DAY_MS_pos by (simp add: algebra_simps)
  then show ?thesis by (simp add: night_of_def algebra_simps)
qed

lemma weekday_ahead:
  fixes w :: int
  assumes "1 \<le> d" "d \<le> 7"
  shows "nat ((w + int (nat ((int d - 1 - w) mod 7))) mod 7) + 1 = d"
proof -
  have "(w + (int d - 1 - w) mod 7) mod 7 = (int d - 1) mod 7" by (simp add: mod_add_right_eq)
  also have "\<dots> = int d - 1" using assms by simp
  finally show ?thesis using assms by simp
qed

lemma every_night_within_a_week:
  assumes "1 \<le> d" "d \<le> 7" obtains k where "k < 7" "night_of o' (t + int k * DAY_MS) = d"
proof (rule that)
  show "nat ((int d - 1 - ((t + o') div DAY_MS + 4)) mod 7) < 7"
    using pos_mod_bound [of 7 "int d - 1 - ((t + o') div DAY_MS + 4)"] by linarith
  show "night_of o' (t + int (nat ((int d - 1 - ((t + o') div DAY_MS + 4)) mod 7)) * DAY_MS) = d"
    unfolding night_of_day by (rule weekday_ahead [OF assms])
qed

lemma next_start_loop_spec:
  assumes "k < n" "night_of o' (a + int k * DAY_MS) \<in> set nights"
  obtains j where "j \<le> k" "next_start_loop n nights o' a = Some (a + int j * DAY_MS)"
    "night_of o' (a + int j * DAY_MS) \<in> set nights"
    "\<forall>i < j. night_of o' (a + int i * DAY_MS) \<notin> set nights"
  using assms
proof (induction n arbitrary: a k thesis)
  case 0
  then show ?case by simp
next
  case (Suc n)
  show ?case
  proof (cases "night_of o' a \<in> set nights")
    case True
    then show ?thesis by (intro Suc.prems(1) [of 0]) simp_all
  next
    case False
    with Suc.prems(3) obtain k' where k: "k = Suc k'" by (cases k) auto
    with Suc.prems(2,3) have "k' < n" "night_of o' (a + DAY_MS + int k' * DAY_MS) \<in> set nights"
      by (simp_all add: algebra_simps)
    then obtain j where j: "j \<le> k'" "next_start_loop n nights o' (a + DAY_MS) = Some (a + DAY_MS + int j * DAY_MS)"
      "night_of o' (a + DAY_MS + int j * DAY_MS) \<in> set nights"
      "\<forall>i < j. night_of o' (a + DAY_MS + int i * DAY_MS) \<notin> set nights"
      using Suc.IH by blast
    have "\<forall>i < Suc j. night_of o' (a + int i * DAY_MS) \<notin> set nights"
      using False j(4) by (auto simp: less_Suc_eq_0_disj algebra_simps)
    with j False show ?thesis
      by (intro Suc.prems(1) [of "Suc j"]) (simp_all add: k algebra_simps)
  qed
qed

definition starts :: "int \<Rightarrow> night_window \<Rightarrow> int \<Rightarrow> bool" where
  "starts o' w t \<longleftrightarrow> reads o' (nw_start w) t \<and> night_of o' t \<in> set (nw_nights w)"

lemma valid_clocks:
  assumes "validate_window w = None"
  shows "clock_ok (nw_start w)" "clock_ok (nw_wrap_up w)" "clock_ok (nw_hard_stop w)"
  using validate_window_None(1) [OF assms] by (simp_all add: clock_ok_def)

lemma next_start_spec:
  assumes "validate_window w = None" "nw_nights w \<noteq> []"
  obtains t where "next_start (\<lambda>_. o') now w = Some t" "now \<le> t" "t < now + 7 * DAY_MS" "starts o' w t"
    "\<forall>u. now \<le> u \<and> u < t \<longrightarrow> \<not> starts o' w u"
proof -
  obtain a where a: "a = next_local now (nw_start w) o'" by simp
  note local = next_local_spec [OF valid_clocks(1) [OF assms(1)], where o' = o' and t = now, folded a]
  obtain d where d: "d \<in> set (nw_nights w)" using assms(2) by (cases "nw_nights w") auto
  with validate_window_None(2) [OF assms(1)] have "1 \<le> d" "d \<le> 7" by (auto simp: list_all_iff)
  then obtain k where "k < 7" "night_of o' (a + int k * DAY_MS) = d" by (rule every_night_within_a_week)
  with d have "k < 8" "night_of o' (a + int k * DAY_MS) \<in> set (nw_nights w)" by simp_all
  then obtain j where j: "j \<le> k" "next_start_loop 8 (nw_nights w) o' a = Some (a + int j * DAY_MS)"
    "night_of o' (a + int j * DAY_MS) \<in> set (nw_nights w)"
    "\<forall>i < j. night_of o' (a + int i * DAY_MS) \<notin> set (nw_nights w)" by (rule next_start_loop_spec)
  have same: "reads o' (nw_start w) (a + int i * DAY_MS)" for i
    using local(1) mod_mult_self1 [of "a + o'" "int i" DAY_MS] by (simp add: reads_def algebra_simps)
  have "int j * DAY_MS \<le> 6 * DAY_MS"
    using j(1) \<open>k < 7\<close> DAY_MS_pos by (intro mult_right_mono) linarith+
  moreover have "0 \<le> int j * DAY_MS" using DAY_MS_pos by simp
  ultimately have "now \<le> a + int j * DAY_MS" "a + int j * DAY_MS < now + 7 * DAY_MS"
    using local(2,3) by linarith+
  moreover have "\<not> starts o' w u" if u: "now \<le> u" "u < a + int j * DAY_MS" for u
  proof
    assume s: "starts o' w u"
    then have r: "reads o' (nw_start w) u" by (simp add: starts_def)
    have "a \<le> u"
    proof (rule ccontr)
      assume "\<not> a \<le> u"
      then obtain i where i: "a = u + int i * DAY_MS" using reads_apart [OF r local(1)] by (metis linear)
      with \<open>\<not> a \<le> u\<close> DAY_MS_pos have "1 * DAY_MS \<le> int i * DAY_MS"
        by (intro mult_right_mono) (cases i; simp)+
      with i local(3) u(1) show False by linarith
    qed
    then obtain i where i: "u = a + int i * DAY_MS" using reads_apart [OF local(1) r] by metis
    with u(2) DAY_MS_pos have "i < j" by simp
    with j(4) s i show False by (simp add: starts_def)
  qed
  ultimately show thesis
    using j(2,3) local same [of j] assms(2)
    by (intro that [of "a + int j * DAY_MS"]) (auto simp: next_start_def a starts_def)
qed

section \<open>A scheduled night\<close>

lemma next_local_from:
  assumes "clock_ok s" "clock_ok c" "reads o' s t"
  shows "next_local t c o' = t + (clock_ms c - clock_ms s) mod DAY_MS"
proof -
  note local = next_local_spec [OF assms(2), where o' = o' and t = t]
  have "(next_local t c o' - t) mod DAY_MS = ((next_local t c o' + o') mod DAY_MS - (t + o') mod DAY_MS) mod DAY_MS"
    by (simp add: mod_diff_eq)
  then have "(next_local t c o' - t) mod DAY_MS = (clock_ms c - clock_ms s) mod DAY_MS"
    using local(1) assms(3) by (simp add: reads_def)
  moreover have "(next_local t c o' - t) mod DAY_MS = next_local t c o' - t"
    using local(2,3) by simp
  ultimately show ?thesis by linarith
qed

lemma minutes_between_ms:
  assumes "clock_ok s" "clock_ok c" "minutes_between s c < 1440"
  shows "(clock_ms c - clock_ms s) mod DAY_MS = int (minutes_between s c) * MINUTE_MS"
proof -
  obtain a b :: nat where ab: "a = minute_of_day s" "b = minute_of_day c" by simp
  have "a \<le> b + 1440" using assms(1) by (simp add: ab clock_ok_def minute_of_day_def)
  have "minutes_between s c = (b + 1440 - a) mod 1440"
    using assms(3) by (simp add: minutes_between_def Let_def ab split: if_splits)
  then have "int (minutes_between s c) = (int b + 1440 - int a) mod 1440"
    using \<open>a \<le> b + 1440\<close> by (simp add: of_nat_mod of_nat_diff)
  also have "\<dots> = (int b - int a) mod 1440"
    using mod_add_self2 [of "int b - int a" 1440] by (simp add: algebra_simps)
  finally have "int (minutes_between s c) * MINUTE_MS = ((int b - int a) * MINUTE_MS) mod (1440 * MINUTE_MS)"
    by (simp add: mult_mod_left)
  moreover have "clock_ms c - clock_ms s = (int b - int a) * MINUTE_MS"
    by (simp add: clock_ms_def ab minute_of_day_def MINUTE_MS_def)
  moreover have "1440 * MINUTE_MS = DAY_MS" by (simp add: MINUTE_MS_def DAY_MS_def)
  ultimately show ?thesis by simp
qed

lemma clock_of_reads:
  assumes "clock_ok c" "reads (off t) c t" shows "clock_of off t = c"
proof -
  obtain m where m: "m = nc_hour c * 60 + nc_minute c" by simp
  then have "m div 60 = nc_hour c" "m mod 60 = nc_minute c" using assms(1) by (simp_all add: clock_ok_def)
  moreover have "clock_ms c div MINUTE_MS = int m" by (simp add: m clock_ms_def MINUTE_MS_def)
  moreover have "int m div 60 = int (m div 60)" "int m mod 60 = int (m mod 60)" by (simp_all add: zdiv_int zmod_int)
  ultimately show ?thesis using assms(2) by (simp add: clock_of_def Let_def reads_def)
qed

text \<open>Run now accepts exactly the hard stops between one minute and sixteen hours away, and then winds the
  run down after it has begun and before it stops, with at most 45 minutes left.\<close>

theorem run_now_winds_down_in_time:
  "case run_now now until of
     Inr r \<Rightarrow> 60000 \<le> until - now \<and> until - now \<le> 16 * 3600000 \<and> rw_hard_stop_at_ms r = until
        \<and> now < rw_wrap_up_at_ms r \<and> rw_wrap_up_at_ms r < until \<and> until - rw_wrap_up_at_ms r \<le> 45 * 60000
   | Inl (Run_Too_Short t _) \<Rightarrow> t = until \<and> until - now < 60000
   | Inl (Run_Too_Long m) \<Rightarrow> 16 * 60 \<le> m \<and> 16 * 3600000 < until - now"
proof -
  have quarter: "x * 3 sdiv 4 < x \<and> 0 < x * 3 sdiv 4 \<and> x - x * 3 sdiv 4 \<le> 900000"
    if "60000 \<le> x" "x < 3600000" for x :: int
  proof -
    have "x * 3 sdiv 4 = x * 3 div 4" using that by (simp add: signed_divide_int_def)
    with that show ?thesis by linarith
  qed
  have minutes: "960 \<le> x sdiv 60000" if "57600000 < x" for x :: int
  proof -
    have "x sdiv 60000 = x div 60000" using that by (simp add: signed_divide_int_def)
    with that show ?thesis by linarith
  qed
  show ?thesis
    using quarter [of "until - now"] minutes [of "until - now"]
    by (auto simp: run_now_def Let_def MINUTE_MS_def NIGHT_SHIFT_WINDOW_MAX_MINUTES_def NIGHT_SHIFT_WRAP_UP_LEAD_MINUTES_def)
qed

text \<open>With a steady local offset and a valid window, the next start is the first instant from now on whose
  local clock reads the start time on a selected night, less than a week away.\<close>

theorem next_start_is_the_first:
  assumes "validate_window w = None" "nw_nights w \<noteq> []"
  shows "\<exists>t. next_start (\<lambda>_. o') now w = Some t \<and> now \<le> t \<and> t < now + 7 * DAY_MS
    \<and> (t + o') mod DAY_MS = clock_ms (nw_start w) \<and> night_of o' t \<in> set (nw_nights w)
    \<and> (\<forall>u. now \<le> u \<and> u < t \<and> (u + o') mod DAY_MS = clock_ms (nw_start w)
          \<longrightarrow> night_of o' u \<notin> set (nw_nights w))"
  by (rule next_start_spec [OF assms, of o' now]) (auto simp: starts_def reads_def)

text \<open>The default window on every night but Saturday's.\<close>

definition sample_window :: night_window where
  "sample_window = (ns_window night_defaults)\<lparr>nw_nights := [1, 2, 3, 4, 5, 6]\<rparr>"

lemma sample_window_valid: "validate_window sample_window = None"
  by (simp add: validate_window_def sample_window_def night_defaults_def minutes_between_def minute_of_day_def
      NIGHT_SHIFT_WINDOW_MAX_MINUTES_def Let_def)

text \<open>1970-01-03, a Saturday: the next start is on Sunday, 1970-01-04, at 23:30.\<close>

lemma sample_next_start: "next_start (\<lambda>_. 0) (2 * DAY_MS) sample_window = Some (4 * DAY_MS - 1800000)"
  by (simp add: next_start_def next_local_def clock_ms_def night_of_def sample_window_def night_defaults_def
      DAY_MS_def MINUTE_MS_def Let_def)

lemma next_start_is_the_first_witness:
  "\<exists>t. next_start (\<lambda>_. 0) (2 * DAY_MS) sample_window = Some t \<and> t < 9 * DAY_MS"
proof -
  have "nw_nights sample_window \<noteq> []" by (simp add: sample_window_def)
  from next_start_is_the_first [OF sample_window_valid this, of 0 "2 * DAY_MS"]
  obtain t where "next_start (\<lambda>_. 0) (2 * DAY_MS) sample_window = Some t" "t < 2 * DAY_MS + 7 * DAY_MS" by blast
  then show ?thesis by (intro exI [of _ t] conjI) (assumption, linarith)
qed

lemma scheduled_spec:
  assumes "validate_window w = None" "reads o' (nw_start w) due"
  shows "rw_wrap_up_at_ms (scheduled (\<lambda>_. o') due w) = due + int (minutes_between (nw_start w) (nw_wrap_up w)) * MINUTE_MS"
    "rw_hard_stop_at_ms (scheduled (\<lambda>_. o') due w) = due + int (minutes_between (nw_start w) (nw_hard_stop w)) * MINUTE_MS"
proof -
  note clocks = valid_clocks [OF assms(1)] and bounds = validate_window_None(3,4) [OF assms(1)]
  have "minutes_between (nw_start w) (nw_wrap_up w) < 1440" "minutes_between (nw_start w) (nw_hard_stop w) < 1440"
    using bounds by (simp_all add: NIGHT_SHIFT_WINDOW_MAX_MINUTES_def)
  then show "rw_wrap_up_at_ms (scheduled (\<lambda>_. o') due w) = due + int (minutes_between (nw_start w) (nw_wrap_up w)) * MINUTE_MS"
    "rw_hard_stop_at_ms (scheduled (\<lambda>_. o') due w) = due + int (minutes_between (nw_start w) (nw_hard_stop w)) * MINUTE_MS"
    using clocks assms(2) by (simp_all add: scheduled_def next_local_from minutes_between_ms)
qed

text \<open>C33: A night that comes due keeps the window it was set up with, as long as the local clock keeps its offset
  from UTC: however late the start fires, it wraps up after the due time and before its hard stop, at most
  sixteen hours after the due time; the window handed to the preflight checks reads its own wrap-up and hard
  stop, and starts at the clock of the firing; and the routine's next start lies behind this run's hard stop
  and behind the firing itself.\<close>

theorem due_night_keeps_its_window:
  assumes "validate_window w = None" "next_start (\<lambda>_. o') t w = Some due" "due \<le> now"
  shows "\<exists>r. fire_window (\<lambda>_. o') Trigger_Schedule due now None w = Inr r
    \<and> due < rw_wrap_up_at_ms r \<and> rw_wrap_up_at_ms r < rw_hard_stop_at_ms r
    \<and> rw_hard_stop_at_ms r \<le> due + 16 * 60 * MINUTE_MS
    \<and> clock_window now r (\<lambda>_. o') = w\<lparr>nw_start := clock_of (\<lambda>_. o') now, nw_nights := []\<rparr>
    \<and> rw_hard_stop_at_ms r \<le> fire_next (\<lambda>_. o') now r w \<and> now \<le> fire_next (\<lambda>_. o') now r w"
proof -
  have nights: "nw_nights w \<noteq> []" using assms(2) by (auto simp: next_start_def)
  obtain due' where "next_start (\<lambda>_. o') t w = Some due'" "starts o' w due'"
    by (rule next_start_spec [OF assms(1) nights, of o' t])
  with assms(2) have due: "reads o' (nw_start w) due" by (simp add: starts_def)
  obtain r where r: "r = scheduled (\<lambda>_. o') due w" by simp
  have fire: "fire_window (\<lambda>_. o') Trigger_Schedule due now None w = Inr r"
    using assms(3) by (simp add: fire_window_def r)
  note times = scheduled_spec [OF assms(1) due, folded r]
  have "0 < minutes_between (nw_start w) (nw_wrap_up w)" by (simp add: minutes_between_range)
  with validate_window_None(3,4) [OF assms(1)] times
  have order: "due < rw_wrap_up_at_ms r" "rw_wrap_up_at_ms r < rw_hard_stop_at_ms r"
    "rw_hard_stop_at_ms r \<le> due + 16 * 60 * MINUTE_MS"
    by (simp_all add: MINUTE_MS_def NIGHT_SHIFT_WINDOW_MAX_MINUTES_def)
  have "clock_of (\<lambda>_. o') (rw_wrap_up_at_ms r) = nw_wrap_up w"
    "clock_of (\<lambda>_. o') (rw_hard_stop_at_ms r) = nw_hard_stop w"
    using valid_clocks [OF assms(1)] next_local_spec(1)
    by (auto intro!: clock_of_reads simp: r scheduled_def)
  then have clocks: "clock_window now r (\<lambda>_. o') = w\<lparr>nw_start := clock_of (\<lambda>_. o') now, nw_nights := []\<rparr>"
    by (simp add: clock_window_def)
  obtain n where "next_start (\<lambda>_. o') (max (rw_hard_stop_at_ms r) now) w = Some n" "max (rw_hard_stop_at_ms r) now \<le> n"
    by (rule next_start_spec [OF assms(1) nights, of o' "max (rw_hard_stop_at_ms r) now"])
  then have "rw_hard_stop_at_ms r \<le> fire_next (\<lambda>_. o') now r w" "now \<le> fire_next (\<lambda>_. o') now r w"
    by (simp_all add: fire_next_def)
  with fire order clocks show ?thesis by blast
qed

lemma due_night_keeps_its_window_witness:
  "\<exists>r. fire_window (\<lambda>_. 0) Trigger_Schedule (4 * DAY_MS - 1800000) (4 * DAY_MS) None sample_window = Inr r
     \<and> rw_wrap_up_at_ms r < rw_hard_stop_at_ms r"
  using due_night_keeps_its_window [OF sample_window_valid sample_next_start, of "4 * DAY_MS"] by auto

text \<open>The steady offset is needed: \<open>next_start\<close> uses the offset of the moment it is called, so a clock
  change before the night moves the start, and a short window's wrap-up and hard stop then fall on the next
  day, behind the sixteen-hour limit. Here the clocks go one hour forward at the end of the first day, and
  the window is 23:00 to 23:40 on Mondays.\<close>

definition short_window :: night_window where
  "short_window = \<lparr>nw_start = \<lparr>nc_hour = 23, nc_minute = 0\<rparr>, nw_wrap_up = \<lparr>nc_hour = 23, nc_minute = 20\<rparr>,
     nw_hard_stop = \<lparr>nc_hour = 23, nc_minute = 40\<rparr>, nw_nights = [2]\<rparr>"

definition clocks_forward :: "int \<Rightarrow> int" where
  "clocks_forward t = (if t < 86400000 then 0 else 3600000)"

lemmas window_eval = validate_window_def minutes_between_def minute_of_day_def NIGHT_SHIFT_WINDOW_MAX_MINUTES_def
  next_start_def scheduled_def next_local_def clock_ms_def night_of_def DAY_MS_def MINUTE_MS_def
  short_window_def clocks_forward_def

lemma clock_change_outgrows_the_limit:
  "validate_window short_window = None"
  "next_start clocks_forward 0 short_window = Some 428400000"
  "rw_hard_stop_at_ms (scheduled clocks_forward 428400000 short_window) = 428400000 + 1420 * 60000"
  by (simp_all add: window_eval)

end
