(* ===== verification/Supervisor_Wire.thy ===== *)
theory Supervisor_Wire
  imports Rust_Std
begin

text \<open>
  What the daemon and its supervisor say to each other (\<^verbatim>\<open>core/houston-core/src/supervisor.rs\<close>): the
  length-prefixed frames of an exit report and of a request to spawn the next daemon, and the supervisor
  file, written and read by hand. A reader consumes a byte list and answers an error or a value with the
  rest of the input; a writer answers the bytes it writes to a sink that does not fail. Strings are UTF-8
  bytes, which \<open>from_utf8\<close> checks on reading.
\<close>

definition MAX_STRING_LEN :: nat where "MAX_STRING_LEN = 64 * 1024"
definition MAX_ARGS :: nat where "MAX_ARGS = 256"
definition TAG_CHILD_EXITED :: u8 where "TAG_CHILD_EXITED = 1"
definition TAG_SPAWN_NEXT :: u8 where "TAG_SPAWN_NEXT = 2"

section \<open>Frames\<close>

record exit_report =
  xr_pid :: u32
  xr_code :: "u32 option"
  xr_signal :: "u32 option"

record spawn_next =
  sn_daemon_path :: rstring
  sn_args :: "rstring list"

datatype supervisor_error =
    Unexpected_Eof
  | String_Too_Long nat
  | Bad_Utf8
  | Too_Many_Args nat
  | Unknown_Tag u8

type_synonym 'a reader = "byte list \<Rightarrow> supervisor_error + ('a \<times> byte list)"

text \<open>The \<open>?\<close> operator between two reads.\<close>

definition read_then :: "'a reader \<Rightarrow> ('a \<Rightarrow> 'b reader) \<Rightarrow> 'b reader" where
  "read_then r f bs = (case r bs of Inl e \<Rightarrow> Inl e | Inr (x, rest) \<Rightarrow> f x rest)"

definition read_ok :: "'a \<Rightarrow> 'a reader" where
  "read_ok x bs = Inr (x, bs)"

definition read_exact :: "nat \<Rightarrow> byte list reader" where
  "read_exact n bs = (if length bs < n then Inl Unexpected_Eof else Inr (take n bs, drop n bs))"

definition read_u32 :: "nat reader" where
  "read_u32 = read_then (read_exact 4) (\<lambda>b. read_ok (le_nat b))"

text \<open>The 32-bit integers are signed in the code; only their bits travel.\<close>

definition write_option_i32 :: "u32 option \<Rightarrow> byte list" where
  "write_option_i32 v = (case v of Some n \<Rightarrow> 1 # nat_le 4 (unat n) | None \<Rightarrow> [0])"

definition read_option_i32 :: "u32 option reader" where
  "read_option_i32 =
     read_then (read_exact 1) (\<lambda>tag.
       if hd tag = 0 then read_ok None
       else read_then (read_exact 4) (\<lambda>buf. read_ok (Some (word_of_nat (le_nat buf)))))"

definition write_string :: "rstring \<Rightarrow> byte list" where
  "write_string s = nat_le 4 (length s) @ s"

definition read_string :: "rstring reader" where
  "read_string =
     read_then read_u32 (\<lambda>len.
       if MAX_STRING_LEN < len then (\<lambda>_. Inl (String_Too_Long len))
       else read_then (read_exact len) (\<lambda>buf.
         if valid_utf8 buf then read_ok buf else (\<lambda>_. Inl Bad_Utf8)))"

definition write_exit_report :: "exit_report \<Rightarrow> byte list" where
  "write_exit_report report =
     TAG_CHILD_EXITED # nat_le 4 (unat (xr_pid report)) @ write_option_i32 (xr_code report)
       @ write_option_i32 (xr_signal report)"

definition write_spawn_next :: "spawn_next \<Rightarrow> supervisor_error + byte list" where
  "write_spawn_next req =
     (if MAX_ARGS < length (sn_args req) then Inl (Too_Many_Args (length (sn_args req)))
      else Inr (TAG_SPAWN_NEXT # write_string (sn_daemon_path req) @ nat_le 4 (length (sn_args req))
                @ concat (map write_string (sn_args req))))"

definition read_from_supervisor :: "exit_report reader" where
  "read_from_supervisor =
     read_then (read_exact 1) (\<lambda>tag.
       if hd tag = TAG_CHILD_EXITED then
         read_then (read_exact 4) (\<lambda>pid.
         read_then read_option_i32 (\<lambda>code.
         read_then read_option_i32 (\<lambda>signal.
           read_ok \<lparr>xr_pid = word_of_nat (le_nat pid), xr_code = code, xr_signal = signal\<rparr>)))
       else (\<lambda>_. Inl (Unknown_Tag (hd tag))))"

fun read_strings :: "nat \<Rightarrow> rstring list reader" where
  "read_strings 0 = read_ok []"
| "read_strings (Suc n) = read_then read_string (\<lambda>s. read_then (read_strings n) (\<lambda>ss. read_ok (s # ss)))"

definition read_to_supervisor :: "spawn_next reader" where
  "read_to_supervisor =
     read_then (read_exact 1) (\<lambda>tag.
       if hd tag = TAG_SPAWN_NEXT then
         read_then read_string (\<lambda>path.
         read_then read_u32 (\<lambda>argc.
           if MAX_ARGS < argc then (\<lambda>_. Inl (Too_Many_Args argc))
           else read_then (read_strings argc) (\<lambda>args. read_ok \<lparr>sn_daemon_path = path, sn_args = args\<rparr>)))
       else (\<lambda>_. Inl (Unknown_Tag (hd tag))))"

section \<open>The supervisor file\<close>

record supervisor_file =
  sf_pid :: u32
  sf_pid_creation :: "u64 option"
  sf_generation :: u64

definition to_json :: "supervisor_file \<Rightarrow> rstring" where
  "to_json f =
     bytes_of (''{\"pid\":'' @ dec (unat (sf_pid f)) @ '',\"pid_creation\":''
       @ (case sf_pid_creation f of Some pc \<Rightarrow> dec (unat pc) | None \<Rightarrow> ''null'')
       @ '',\"generation\":'' @ dec (unat (sf_generation f)) @ ''}'')"

text \<open>\<open>str::find\<close> of a string.\<close>

fun find_sub :: "'a list \<Rightarrow> 'a list \<Rightarrow> nat option" where
  "find_sub key [] = (if key = [] then Some 0 else None)"
| "find_sub key (x # xs) = (if prefix key (x # xs) then Some 0 else map_option Suc (find_sub key xs))"

definition extract_u64 :: "rstring \<Rightarrow> rstring \<Rightarrow> u64 option" where
  "extract_u64 s key =
     (case find_sub key s of
        None \<Rightarrow> None
      | Some idx \<Rightarrow>
          (let rest = trim_start (drop (idx + length key) s);
               digits = takeWhile is_digit rest
           in if digits = [] then None
              else map_option word_of_int (filter_option (\<lambda>n. n < 2 ^ 64) (parse_digits digits))))"

definition from_json :: "rstring \<Rightarrow> supervisor_file option" where
  "from_json s =
     Option.bind (extract_u64 s (bytes_of ''\"pid\":'')) (\<lambda>pid.
     Option.bind (extract_u64 s (bytes_of ''\"generation\":'')) (\<lambda>generation.
       Some \<lparr>sf_pid = ucast pid, sf_pid_creation = extract_u64 s (bytes_of ''\"pid_creation\":''),
             sf_generation = generation\<rparr>))"

section \<open>Reading what was written\<close>

lemma read_exact_append [simp]: "length a = n \<Longrightarrow> read_exact n (a @ rest) = Inr (a, rest)"
  by (simp add: read_exact_def)

lemma read_exact_one [simp]: "read_exact (Suc 0) (b # rest) = Inr ([b], rest)"
  by (simp add: read_exact_def)

lemma read_exact_all [simp]: "read_exact (length a) a = Inr (a, [])"
  by (simp add: read_exact_def)

lemma read_u32_written: "n < 2 ^ 32 \<Longrightarrow> read_u32 (nat_le 4 n @ rest) = Inr (n, rest)"
  by (simp add: read_u32_def read_then_def read_ok_def le_nat_nat_le)

lemma u32_le_roundtrip [wire_simps]: "word_of_nat (le_nat (nat_le 4 (unat w))) = (w :: u32)"
proof -
  have "unat w < 2 ^ LENGTH(32)" by (rule unsigned_less)
  then show ?thesis by (simp add: le_nat_nat_le)
qed

lemma nat_be_numeral:
  "nat_be (numeral k) x = word_of_nat (x div 256 ^ pred_numeral k) # nat_be (pred_numeral k) x"
  unfolding numeral_eq_Suc by simp

lemma read_option_written: "read_option_i32 (write_option_i32 v @ rest) = Inr (v, rest)"
  by (cases v) (simp_all add: read_option_i32_def write_option_i32_def read_then_def read_ok_def u32_le_roundtrip)

lemma read_string_written:
  assumes "valid_utf8 s" "length s < 2 ^ 32"
  shows "read_string (write_string s @ rest) =
    (if MAX_STRING_LEN < length s then Inl (String_Too_Long (length s)) else Inr (s, rest))"
  using assms by (simp add: read_string_def write_string_def read_then_def read_u32_written read_ok_def)

lemma read_strings_written:
  assumes "\<forall>s \<in> set ss. valid_utf8 s \<and> length s < 2 ^ 32"
  shows "read_strings (length ss) (concat (map write_string ss) @ rest) =
    (case List.find (\<lambda>s. MAX_STRING_LEN < length s) ss of
       Some s \<Rightarrow> Inl (String_Too_Long (length s)) | None \<Rightarrow> Inr (ss, rest))"
  using assms
  by (induction ss)
    (simp_all add: read_ok_def read_then_def read_string_written split: option.splits)

text \<open>Conversely, what is read is what was written.\<close>

lemma read_thenE:
  assumes "read_then r f bs = Inr (y, rest)"
  obtains x mid where "r bs = Inr (x, mid)" "f x mid = Inr (y, rest)"
  using assms by (auto simp: read_then_def split: sum.splits)

lemma read_exactD: "read_exact n bs = Inr (x, rest) \<Longrightarrow> bs = x @ rest \<and> length x = n"
  by (auto simp: read_exact_def split: if_splits)

lemma read_u32D: "read_u32 bs = Inr (n, rest) \<Longrightarrow> bs = nat_le 4 n @ rest"
  by (auto simp: read_u32_def read_ok_def nat_le_le_nat elim!: read_thenE dest!: read_exactD)

lemma read_stringD: "read_string bs = Inr (s, rest) \<Longrightarrow> bs = write_string s @ rest \<and> length s \<le> MAX_STRING_LEN \<and> valid_utf8 s"
  by (auto simp: read_string_def read_ok_def write_string_def elim!: read_thenE dest!: read_exactD read_u32D
      split: if_splits)

lemma read_stringsD:
  "read_strings n bs = Inr (ss, rest) \<Longrightarrow> bs = concat (map write_string ss) @ rest \<and> length ss = n"
  by (induction n arbitrary: bs ss) (auto simp: read_ok_def elim!: read_thenE dest!: read_stringD)

text \<open>C28: Spawn requests survive the wire, both ways: what the writer sends is read back as it was, with the
  rest of the stream untouched, unless a string is longer than 64 KiB, which the writer sends and the reader
  refuses; and whatever the reader accepts are exactly the bytes the writer makes of it.\<close>

theorem spawn_next_survives_the_wire:
  assumes "\<forall>s \<in> set (sn_daemon_path req # sn_args req). valid_utf8 s \<and> length s < 2 ^ 32"
  shows "(case write_spawn_next req of
       Inl e \<Rightarrow> e = Too_Many_Args (length (sn_args req)) \<and> MAX_ARGS < length (sn_args req)
     | Inr bytes \<Rightarrow> read_to_supervisor (bytes @ rest) =
         (case List.find (\<lambda>s. MAX_STRING_LEN < length s) (sn_daemon_path req # sn_args req) of
            Some s \<Rightarrow> Inl (String_Too_Long (length s)) | None \<Rightarrow> Inr (req, rest)))
    \<and> (read_to_supervisor input = Inr (req', rest') \<longrightarrow>
         (\<exists>bytes. write_spawn_next req' = Inr bytes \<and> input = bytes @ rest'))"
proof
  show "case write_spawn_next req of
       Inl e \<Rightarrow> e = Too_Many_Args (length (sn_args req)) \<and> MAX_ARGS < length (sn_args req)
     | Inr bytes \<Rightarrow> read_to_supervisor (bytes @ rest) =
         (case List.find (\<lambda>s. MAX_STRING_LEN < length s) (sn_daemon_path req # sn_args req) of
            Some s \<Rightarrow> Inl (String_Too_Long (length s)) | None \<Rightarrow> Inr (req, rest))"
    using assms
    by (auto simp: write_spawn_next_def read_to_supervisor_def read_then_def read_ok_def read_string_written
        read_u32_written read_strings_written MAX_ARGS_def split: option.splits)
  show "read_to_supervisor input = Inr (req', rest') \<longrightarrow>
         (\<exists>bytes. write_spawn_next req' = Inr bytes \<and> input = bytes @ rest')"
    by (auto simp: read_to_supervisor_def read_ok_def write_spawn_next_def not_less elim!: read_thenE
        dest!: read_exactD read_stringD read_u32D read_stringsD split: if_splits simp: length_Suc_conv)
qed

lemma spawn_next_survives_the_wire_witness:
  "read_to_supervisor ([2, 1, 0, 0, 0, 0x64, 1, 0, 0, 0, 1, 0, 0, 0, 0x78] @ [7])
     = Inr (\<lparr>sn_daemon_path = [0x64], sn_args = [[0x78]]\<rparr>, [7])"
  using spawn_next_survives_the_wire [of "\<lparr>sn_daemon_path = [0x64], sn_args = [[0x78]]\<rparr>" "[7]"]
  by (simp add: write_spawn_next_def write_string_def nat_le_def nat_be_numeral MAX_ARGS_def MAX_STRING_LEN_def
      TAG_SPAWN_NEXT_def utf8_step_def utf8_char_width_def)

lemma exit_report_survives_the_wire: "read_from_supervisor (write_exit_report r @ rest) = Inr (r, rest)"
  by (simp add: read_from_supervisor_def write_exit_report_def read_then_def read_ok_def u32_le_roundtrip
      read_option_written)

section \<open>The file round trip\<close>

lemma find_sub_skip: "k \<notin> set xs \<Longrightarrow> find_sub (k # ks) (xs @ ys) = map_option ((+) (length xs)) (find_sub (k # ks) ys)"
proof (induction xs)
  case Nil
  show ?case by (simp add: option.map_ident)
next
  case (Cons x xs)
  have "(\<lambda>n. Suc (length xs + n)) = (+) (Suc (length xs))" by auto
  with Cons show ?case by (auto simp: option.map_comp comp_def)
qed

lemma find_sub_here: "key \<noteq> [] \<Longrightarrow> find_sub key (key @ ys) = Some 0"
  by (cases key) simp_all

lemma ws_len_digit: "is_digit b \<Longrightarrow> ws_len (b # s) = 0"
  by (cases s; cases "tl s") (auto simp: is_digit_def word_le_nat_alt)

lemma trim_start_digit: "is_digit b \<Longrightarrow> trim_start (b # s) = b # s"
  by (subst trim_start.simps) (simp add: ws_len_digit del: ws_len.simps)

lemma trim_start_dec: "trim_start (bytes_of (dec n) @ rest) = bytes_of (dec n) @ rest"
  using dec_bytes_digits [of n] dec_bytes_nonempty [of n]
  by (cases "bytes_of (dec n)") (simp_all add: trim_start_digit)

text \<open>Everything up to a key, which it does not contain, is skipped.\<close>

lemma extract_written:
  assumes "find_sub key s = Some (length front)" "s = front @ key @ bytes_of (dec n) @ c # rest"
    "\<not> is_digit c" "n < 2 ^ 64"
  shows "extract_u64 s key = Some (word_of_nat n)"
  using assms
  by (simp add: extract_u64_def trim_start_dec take_digits dec_bytes_nonempty parse_dec_bytes)

lemma quote_not_digit: "(0x22 :: byte) \<notin> set (bytes_of (dec n))"
  using dec_bytes_digits [of n] by (auto simp: is_digit_def)

lemma extract_null:
  assumes "find_sub key s = Some (length front)" "s = front @ key @ bytes_of ''null'' @ rest"
  shows "extract_u64 s key = None"
proof -
  have "trim_start (bytes_of ''null'' @ rest) = bytes_of ''null'' @ rest"
    by (subst trim_start.simps) (simp add: bytes_of_def)
  then show ?thesis using assms by (simp add: extract_u64_def) (simp add: bytes_of_def is_digit_def)
qed

definition front_pid :: rstring where "front_pid = bytes_of ''{''"

definition front_creation :: "supervisor_file \<Rightarrow> rstring" where
  "front_creation f = front_pid @ bytes_of ''\"pid\":'' @ bytes_of (dec (unat (sf_pid f))) @ bytes_of '',''"

definition creation_bytes :: "supervisor_file \<Rightarrow> rstring" where
  "creation_bytes f = (case sf_pid_creation f of Some pc \<Rightarrow> bytes_of (dec (unat pc)) | None \<Rightarrow> bytes_of ''null'')"

definition front_generation :: "supervisor_file \<Rightarrow> rstring" where
  "front_generation f = front_creation f @ bytes_of ''\"pid_creation\":'' @ creation_bytes f @ bytes_of '',''"

lemma to_json_parts:
  "to_json f = front_generation f @ bytes_of ''\"generation\":'' @ bytes_of (dec (unat (sf_generation f))) @ 0x7d # []"
  "to_json f = front_creation f @ bytes_of ''\"pid_creation\":'' @ creation_bytes f @ 0x2c #
     (bytes_of ''\"generation\":'' @ bytes_of (dec (unat (sf_generation f))) @ [0x7d])"
  "to_json f = front_pid @ bytes_of ''\"pid\":'' @ bytes_of (dec (unat (sf_pid f))) @ 0x2c #
     (bytes_of ''\"pid_creation\":'' @ creation_bytes f @ 0x2c # bytes_of ''\"generation\":''
      @ bytes_of (dec (unat (sf_generation f))) @ [0x7d])"
  by (simp_all add: to_json_def front_generation_def front_creation_def front_pid_def creation_bytes_def bytes_of_append
      split: option.split)
    (simp_all add: bytes_of_def)

lemma quote_not_in_creation: "(0x22 :: byte) \<notin> set (creation_bytes f)"
  by (auto simp: creation_bytes_def quote_not_digit split: option.split) (simp add: bytes_of_def)

lemma find_keys:
  "find_sub (bytes_of ''\"pid\":'') (to_json f) = Some (length front_pid)"
  "find_sub (bytes_of ''\"pid_creation\":'') (to_json f) = Some (length (front_creation f))"
  "find_sub (bytes_of ''\"generation\":'') (to_json f) = Some (length (front_generation f))"
proof -
  obtain d where d: "d = bytes_of (dec (unat (sf_pid f)))" "0x22 \<notin> set d" using quote_not_digit by blast
  obtain c where c: "c = creation_bytes f" "0x22 \<notin> set c" using quote_not_in_creation by blast
  show "find_sub (bytes_of ''\"pid\":'') (to_json f) = Some (length front_pid)"
    unfolding to_json_parts(3) by (simp add: front_pid_def) (simp add: bytes_of_def)
  show "find_sub (bytes_of ''\"pid_creation\":'') (to_json f) = Some (length (front_creation f))"
    unfolding to_json_parts(3) front_creation_def front_pid_def d(1) [symmetric]
    using d(2) by (simp add: bytes_of_def find_sub_skip)
  show "find_sub (bytes_of ''\"generation\":'') (to_json f) = Some (length (front_generation f))"
    unfolding to_json_parts(3) front_generation_def front_creation_def front_pid_def d(1) [symmetric] c(1) [symmetric]
    using d(2) c(2) by (simp add: bytes_of_def find_sub_skip)
qed

lemma pid_fits: "ucast (word_of_nat (unat w) :: u64) = (w :: u32)"
  by transfer (simp add: take_bit_take_bit)

text \<open>The supervisor file is read back exactly as it was written, although it is printed and parsed without
  a JSON library.\<close>

theorem supervisor_file_roundtrip: "from_json (to_json f) = Some f"
proof -
  have "unat (sf_pid f) < 2 ^ LENGTH(32)" by (rule unsigned_less)
  then have pid: "extract_u64 (to_json f) (bytes_of ''\"pid\":'') = Some (word_of_nat (unat (sf_pid f)))"
    by (intro extract_written [OF find_keys(1) to_json_parts(3)]) (simp_all add: is_digit_def)
  have "unat (sf_generation f) < 2 ^ LENGTH(64)" by (rule unsigned_less)
  then have gen: "extract_u64 (to_json f) (bytes_of ''\"generation\":'') = Some (sf_generation f)"
    using extract_written [OF find_keys(3) to_json_parts(1)] by (simp add: is_digit_def)
  have creation: "extract_u64 (to_json f) (bytes_of ''\"pid_creation\":'') = sf_pid_creation f"
  proof (cases "sf_pid_creation f")
    case None
    then have "creation_bytes f = bytes_of ''null''" by (simp add: creation_bytes_def)
    from extract_null [OF find_keys(2) to_json_parts(2) [of f, unfolded this]] None show ?thesis by simp
  next
    case (Some pc)
    have "unat pc < 2 ^ LENGTH(64)" by (rule unsigned_less)
    moreover have "creation_bytes f = bytes_of (dec (unat pc))" using Some by (simp add: creation_bytes_def)
    ultimately show ?thesis
      using extract_written [OF find_keys(2) to_json_parts(2) [of f, unfolded \<open>creation_bytes f = _\<close>]] Some
      by (simp add: is_digit_def)
  qed
  with pid gen creation show ?thesis by (simp add: from_json_def pid_fits del: unsigned_of_nat of_nat_unat)
qed

end
