(* ===== verification/Calendar.thy ===== *)
theory Calendar
  imports Rust_Std "HOL-Library.Signed_Division"
begin

text \<open>
  Time stamps of the usage report (\<^verbatim>\<open>core/houston-core/src/usage/time.rs\<close>): the conversion between
  day numbers and dates of the Gregorian calendar, the printing of UTC stamps and the reader of RFC 3339
  stamps. The code's \<open>i64\<close> values are integers (they stay far from the bounds) and its \<open>/\<close> and \<open>%\<close> are
  \<open>sdiv\<close> and \<open>smod\<close>. \<open>localtime_r\<close> is a parameter.
\<close>

section \<open>Dates\<close>

definition civil_from_days :: "int \<Rightarrow> int \<times> int \<times> int" where
  "civil_from_days z0 =
     (let z = z0 + 719468;
          era = (if 0 \<le> z then z else z - 146096) sdiv 146097;
          doe = z - era * 146097;
          yoe = (doe - doe sdiv 1460 + doe sdiv 36524 - doe sdiv 146096) sdiv 365;
          y = yoe + era * 400;
          doy = doe - (365 * yoe + yoe sdiv 4 - yoe sdiv 100);
          mp = (5 * doy + 2) sdiv 153;
          d = doy - (153 * mp + 2) sdiv 5 + 1;
          m = (if mp < 10 then mp + 3 else mp - 9)
      in (if m \<le> 2 then y + 1 else y, m, d))"

definition days_from_civil :: "int \<Rightarrow> int \<Rightarrow> int \<Rightarrow> int" where
  "days_from_civil y0 m d =
     (let y = (if m \<le> 2 then y0 - 1 else y0);
          era = (if 0 \<le> y then y else y - 399) sdiv 400;
          yoe = y - era * 400;
          mp = (m + 9) smod 12;
          doy = (153 * mp + 2) sdiv 5 + d - 1;
          doe = yoe * 365 + yoe sdiv 4 - yoe sdiv 100 + doy
      in era * 146097 + doe - 719468)"

section \<open>Stamps\<close>

text \<open>\<open>{n:0w}\<close> of a number that is not negative.\<close>

definition padded :: "nat \<Rightarrow> nat \<Rightarrow> string" where
  "padded w n = replicate (w - length (dec n)) (CHR ''0'') @ dec n"

definition format_rfc3339_utc :: "u64 \<Rightarrow> rstring" where
  "format_rfc3339_utc unix_ms =
     (let total_secs = int (unat unix_ms div 1000);
          days = total_secs div 86400;
          secs_of_day = total_secs mod 86400;
          (y, m, d) = civil_from_days days;
          hh = secs_of_day div 3600;
          mm = secs_of_day mod 3600 div 60;
          ss = secs_of_day mod 60
      in bytes_of (padded 4 (nat y) @ ''-'' @ padded 2 (nat m) @ ''-'' @ padded 2 (nat d) @ ''T''
           @ padded 2 (nat hh) @ '':'' @ padded 2 (nat mm) @ '':'' @ padded 2 (nat ss) @ ''Z''))"

text \<open>\<open>digits\<close> is \<open>parse_digits\<close>. The fraction: its first three digits, the missing ones 0.\<close>

definition fraction_ms :: "rstring \<Rightarrow> int" where
  "fraction_ms frac =
     foldl (\<lambda>acc i. acc * 10 + (if i < length frac then uint (frac ! i) - 48 else 0)) 0 [0..<3]"

definition stamp_fraction :: "rstring \<Rightarrow> (int \<times> rstring) option" where
  "stamp_fraction rest =
     (if rest \<noteq> [] \<and> (hd rest = 0x2e \<or> hd rest = 0x2c) then
        (let frac = takeWhile is_digit (tl rest)
         in if frac = [] then None else Some (fraction_ms frac, drop (1 + length frac) rest))
      else Some (0, rest))"

definition stamp_offset :: "rstring \<Rightarrow> int option" where
  "stamp_offset rest =
     (case rest of
        [] \<Rightarrow> Some 0
      | c # _ \<Rightarrow>
          if c = 0x5a \<or> c = 0x7a then Some 0
          else if c = 0x2b \<or> c = 0x2d then
            (if length rest < 6 \<or> rest ! 3 \<noteq> 0x3a then None
             else Option.bind (parse_digits (take 2 (drop 1 rest))) (\<lambda>oh.
               Option.bind (parse_digits (take 2 (drop 4 rest))) (\<lambda>om.
                 if 23 < oh \<or> 59 < om then None
                 else Some (if c = 0x2d then - (oh * 60 + om) else oh * 60 + om))))
          else None)"

definition parse_rfc3339_ms :: "rstring \<Rightarrow> int option" where
  "parse_rfc3339_ms b =
     (if length b < 19 \<or> (b ! 10 \<noteq> 0x54 \<and> b ! 10 \<noteq> 0x74 \<and> b ! 10 \<noteq> 0x20) then None
      else if b ! 4 \<noteq> 0x2d \<or> b ! 7 \<noteq> 0x2d \<or> b ! 13 \<noteq> 0x3a \<or> b ! 16 \<noteq> 0x3a then None
      else
        Option.bind (parse_digits (take 4 b)) (\<lambda>year.
        Option.bind (parse_digits (take 2 (drop 5 b))) (\<lambda>month.
        Option.bind (parse_digits (take 2 (drop 8 b))) (\<lambda>day.
        Option.bind (parse_digits (take 2 (drop 11 b))) (\<lambda>hour.
        Option.bind (parse_digits (take 2 (drop 14 b))) (\<lambda>minute.
        Option.bind (parse_digits (take 2 (drop 17 b))) (\<lambda>second.
          if \<not> (1 \<le> month \<and> month \<le> 12) \<or> \<not> (1 \<le> day \<and> day \<le> 31) then None
          else if 23 < hour \<or> 59 < minute \<or> 60 < second then None
          else
            Option.bind (stamp_fraction (drop 19 b)) (\<lambda>(millis, rest).
            Option.bind (stamp_offset rest) (\<lambda>offset_minutes.
              let days = days_from_civil year month day;
                  secs = days * 86400 + hour * 3600 + minute * 60 + min second 59 - offset_minutes * 60
              in Some (secs * 1000 + millis))))))))))"

definition HOUR_MS :: int where "HOUR_MS = 3600000"

definition floor_hour_ms :: "int \<Rightarrow> int" where
  "floor_hour_ms ms = ms div HOUR_MS * HOUR_MS"

text \<open>The fields of \<open>libc::tm\<close> that are read.\<close>

record local_tm =
  tm_hour :: int
  tm_min :: int
  tm_sec :: int

definition local_midnight_ms :: "(int \<Rightarrow> local_tm option) \<Rightarrow> int \<Rightarrow> int" where
  "local_midnight_ms localtime ms =
     (case localtime (ms div 1000) of
        Some l \<Rightarrow> ms div 1000 * 1000 - (tm_hour l * 3600 + tm_min l * 60 + tm_sec l) * 1000
      | None \<Rightarrow> ms div 86400000 * 86400000)"

section \<open>The calendar the code must agree with\<close>

definition leap_year :: "int \<Rightarrow> bool" where
  "leap_year y \<longleftrightarrow> y mod 4 = 0 \<and> (y mod 100 \<noteq> 0 \<or> y mod 400 = 0)"

definition month_length :: "int \<Rightarrow> int \<Rightarrow> int" where
  "month_length y m =
     (if m = 2 then if leap_year y then 29 else 28 else if m = 4 \<or> m = 6 \<or> m = 9 \<or> m = 11 then 30 else 31)"

fun next_day :: "int \<times> int \<times> int \<Rightarrow> int \<times> int \<times> int" where
  "next_day (y, m, d) =
     (if d < month_length y m then (y, m, d + 1) else if m < 12 then (y, m + 1, 1) else (y + 1, 1, 1))"

section \<open>Eras, years of an era, days of a year\<close>

definition year_of_era :: "int \<Rightarrow> int" where
  "year_of_era doe = (doe - doe div 1460 + doe div 36524 - doe div 146096) div 365"

definition year_start :: "int \<Rightarrow> int" where
  "year_start yoe = 365 * yoe + yoe div 4 - yoe div 100"

definition month_part :: "int \<Rightarrow> int" where
  "month_part doy = (5 * doy + 2) div 153"

definition month_of :: "int \<Rightarrow> int" where
  "month_of doy = (if month_part doy < 10 then month_part doy + 3 else month_part doy - 9)"

definition day_of :: "int \<Rightarrow> int" where
  "day_of doy = doy - (153 * month_part doy + 2) div 5 + 1"

text \<open>A year counted from March has a leap day at its end when the next year is a leap year.\<close>

definition year_days :: "int \<Rightarrow> int" where
  "year_days yoe = (if leap_year (yoe + 1) then 366 else 365)"

definition civil_of :: "int \<Rightarrow> int \<Rightarrow> int \<times> int \<times> int" where
  "civil_of era doe =
     (let yoe = year_of_era doe; doy = doe - year_start yoe
      in (if month_of doy \<le> 2 then yoe + era * 400 + 1 else yoe + era * 400, month_of doy, day_of doy))"

lemma sdiv_nonneg [simp]: "0 \<le> (a :: int) \<Longrightarrow> 0 < b \<Longrightarrow> a sdiv b = a div b"
  by (cases "a = 0") (simp_all add: signed_divide_int_def)

lemma era_div: "(if 0 \<le> z then z else z - 146096) sdiv 146097 = (z :: int) div 146097"
proof (cases "0 \<le> z")
  case True
  then show ?thesis by simp
next
  case False
  obtain q where q: "q = (146096 - z) div 146097" by simp
  then have "q * 146097 \<le> 146096 - z" "146096 - z < q * 146097 + 146097" by linarith+
  then have "z div 146097 = - q" by (intro int_div_pos_eq [of _ _ _ "z + q * 146097"]) simp_all
  with False q show ?thesis by (simp add: signed_divide_int_def)
qed

text \<open>The estimate of the year grows with the day, so its ends decide it for all days of the year.\<close>

lemma estimate_step:
  fixes x :: int
  assumes "0 \<le> x" "x < 146096"
  shows "x - x div 1460 + x div 36524 - x div 146096
      \<le> x + 1 - (x + 1) div 1460 + (x + 1) div 36524 - (x + 1) div 146096"
proof (cases "x = 146095")
  case False
  then have "(x + 1) div 146096 = 0" "x div 146096 = 0" using assms by simp_all
  moreover have "(x + 1) div 1460 \<le> x div 1460 + 1" "x div 36524 \<le> (x + 1) div 36524" by linarith+
  ultimately show ?thesis by linarith
qed simp

lemma year_of_era_mono:
  assumes "0 \<le> a" "a \<le> b" "b < 146097"
  shows "year_of_era a \<le> year_of_era b"
proof -
  obtain f :: "int \<Rightarrow> int" where f: "f = (\<lambda>x. x - x div 1460 + x div 36524 - x div 146096)" by simp
  have up: "f x \<le> f (x + 1)" if "0 \<le> x" "x < 146096" for x
    unfolding f by (rule estimate_step [OF that])
  have "a + int n < 146097 \<Longrightarrow> f a \<le> f (a + int n)" for n
  proof (induction n)
    case (Suc n)
    have next_day: "a + int (Suc n) = a + int n + 1" by simp
    with Suc up [of "a + int n"] assms(1) have "f a \<le> f (a + int n + 1)" by linarith
    then show ?case unfolding next_day .
  qed simp
  from this [of "nat (b - a)"] have "f a \<le> f b" using assms by simp
  then have "f a div 365 \<le> f b div 365" by (rule zdiv_mono1) simp
  then show ?thesis by (simp only: year_of_era_def f)
qed

lemma year_table:
  "list_all (\<lambda>y. year_of_era (year_start y) = y \<and> year_of_era (year_start y + year_days y - 1) = y
     \<and> year_start y + year_days y = (if y = 399 then 146097 else year_start (y + 1))) [0..399]"
  by code_simp

lemma day_table:
  "list_all (\<lambda>doy. 1 \<le> month_of doy \<and> month_of doy \<le> 12 \<and> 1 \<le> day_of doy \<and> day_of doy \<le> 31
     \<and> 0 \<le> month_part doy \<and> month_part doy \<le> 11) [0..365]"
  by code_simp

lemma year_fact:
  assumes "0 \<le> y" "y \<le> 399"
  shows "year_of_era (year_start y) = y" "year_of_era (year_start y + year_days y - 1) = y"
    "year_start y + year_days y = (if y = 399 then 146097 else year_start (y + 1))"
proof -
  have "y \<in> set [0..399]" using assms by simp
  with year_table show "year_of_era (year_start y) = y" "year_of_era (year_start y + year_days y - 1) = y"
    "year_start y + year_days y = (if y = 399 then 146097 else year_start (y + 1))"
    unfolding list_all_iff by blast+
qed

lemma day_fact:
  assumes "0 \<le> doy" "doy \<le> 365"
  shows "1 \<le> month_of doy" "month_of doy \<le> 12" "1 \<le> day_of doy" "day_of doy \<le> 31"
    "0 \<le> month_part doy" "month_part doy \<le> 11"
  using assms day_table by (auto simp: list_all_iff)

lemma year_start_0 [simp]: "year_start 0 = 0" by (simp add: year_start_def)

lemma year_days_pos: "365 \<le> year_days y" "year_days y \<le> 366" by (simp_all add: year_days_def)

text \<open>Every day of an era lies in the year the code computes for it.\<close>

lemma year_exists:
  assumes "0 \<le> doe" "doe < 146097"
  obtains y where "0 \<le> y" "y \<le> 399" "year_start y \<le> doe" "doe < year_start y + year_days y"
proof -
  have "\<exists>y. 0 \<le> y \<and> y \<le> 399 \<and> year_start y \<le> doe \<and> doe < year_start y + year_days y"
    if "n \<le> 399" "doe < year_start (int n) + year_days (int n)" for n :: nat
    using that
  proof (induction n)
    case 0
    then show ?case using assms(1) by (intro exI [of _ 0]) simp
  next
    case (Suc n)
    show ?case
    proof (cases "doe < year_start (int n) + year_days (int n)")
      case True
      with Suc show ?thesis by simp
    next
      case False
      with year_fact(3) [of "int n"] Suc.prems(1) have "year_start (int (Suc n)) \<le> doe" by (simp add: add.commute)
      with Suc.prems show ?thesis by (intro exI [of _ "int (Suc n)"]) simp
    qed
  qed
  from this [of 399] year_fact(3) [of 399] assms(2) that show thesis by auto
qed

lemma year_start_nonneg: "0 \<le> y \<Longrightarrow> 0 \<le> year_start y"
  unfolding year_start_def by linarith

lemma year_end:
  assumes "0 \<le> y" "y \<le> 399" shows "year_start y + year_days y \<le> 146097"
proof (cases "y = 399")
  case False
  have "(y + 1) div 4 \<le> y + 1" "0 \<le> (y + 1) div 100" using assms(1) by simp_all
  then obtain a b where "a = (y + 1) div 4" "b = (y + 1) div 100" "a \<le> y + 1" "0 \<le> b" by blast
  then have "year_start (y + 1) \<le> 146097" using assms(2) False by (simp add: year_start_def)
  then show ?thesis using year_fact(3) [OF assms] False by simp
qed (use year_fact(3) [OF assms] in simp)

lemma year_of_era_eq:
  assumes "0 \<le> y" "y \<le> 399" "year_start y \<le> doe" "doe < year_start y + year_days y"
  shows "year_of_era doe = y"
proof -
  have le: "year_start y + year_days y - 1 < 146097" using year_end [OF assms(1,2)] by simp
  have "y \<le> year_of_era doe"
    using year_of_era_mono [OF year_start_nonneg [OF assms(1)] assms(3)] assms(4) le year_fact(1) [OF assms(1,2)] by simp
  moreover have "year_of_era doe \<le> y"
    using year_of_era_mono [of doe "year_start y + year_days y - 1"] assms year_start_nonneg [OF assms(1)] le
      year_fact(2) [OF assms(1,2)] by simp
  ultimately show ?thesis by simp
qed

lemma year_of_era_range:
  assumes "0 \<le> doe" "doe < 146097"
  shows "0 \<le> year_of_era doe" "year_of_era doe \<le> 399" "year_start (year_of_era doe) \<le> doe"
    "doe < year_start (year_of_era doe) + year_days (year_of_era doe)"
  using year_exists [OF assms] year_of_era_eq by metis+

lemma doy_range:
  assumes "0 \<le> doe" "doe < 146097"
  shows "0 \<le> doe - year_start (year_of_era doe)" "doe - year_start (year_of_era doe) \<le> 365"
  using year_of_era_range [OF assms] year_days_pos(2) [of "year_of_era doe"] by linarith+

lemma estimate_nonneg:
  fixes doe :: int
  assumes "0 \<le> doe" "doe < 146097"
  shows "0 \<le> doe - doe div 1460 + doe div 36524 - doe div 146096"
proof -
  have "doe div 1460 \<le> doe" "0 \<le> doe div 36524" "doe div 146096 \<le> doe div 36524" using assms by linarith+
  then show ?thesis by linarith
qed

lemma civil_from_days_eq:
  "civil_from_days z = civil_of ((z + 719468) div 146097) ((z + 719468) mod 146097)"
proof -
  obtain era doe where e: "era = (z + 719468) div 146097" "doe = (z + 719468) mod 146097" by simp
  then have doe: "0 \<le> doe" "doe < 146097" "z + 719468 - era * 146097 = doe"
    by (simp_all add: minus_div_mult_eq_mod)
  note y = year_of_era_range [OF doe(1,2)] and d = doy_range [OF doe(1,2)]
  have yoe: "(doe - doe sdiv 1460 + doe sdiv 36524 - doe sdiv 146096) sdiv 365 = year_of_era doe"
    using doe(1) estimate_nonneg [OF doe(1,2)] by (simp add: year_of_era_def)
  obtain yo where yo: "yo = year_of_era doe" by simp
  obtain doy where doy: "doy = doe - year_start yo" by simp
  have start: "365 * yo + yo sdiv 4 - yo sdiv 100 = year_start yo"
    using y(1) by (simp add: year_start_def yo)
  have mp: "(5 * doy + 2) sdiv 153 = month_part doy" using d(1) by (simp add: month_part_def doy yo)
  have dd: "(153 * month_part doy + 2) sdiv 5 = (153 * month_part doy + 2) div 5"
    using day_fact(5) [of doy] d by (simp add: doy yo)
  show ?thesis
    unfolding civil_from_days_def era_div e(1) [symmetric] e(2) [symmetric] Let_def doe(3) yoe yo [symmetric] start
      doy [symmetric] mp dd
    by (simp add: civil_of_def Let_def yo [symmetric] doy [symmetric] month_of_def day_of_def)
qed

section \<open>From dates to day numbers\<close>

lemma era_of_year: "(if 0 \<le> y then y else y - 399) sdiv 400 = (y :: int) div 400"
proof (cases "0 \<le> y")
  case False
  obtain q where q: "q = (399 - y) div 400" by simp
  then have "q * 400 \<le> 399 - y" "399 - y < q * 400 + 400" by linarith+
  then have "y div 400 = - q" by (intro int_div_pos_eq [of _ _ _ "y + q * 400"]) simp_all
  with False q show ?thesis by (simp add: signed_divide_int_def)
qed simp

lemma smod_nonneg: "0 \<le> (a :: int) \<Longrightarrow> 0 < b \<Longrightarrow> a smod b = a mod b"
  by (cases "a = 0") (simp_all add: signed_modulo_int_def minus_div_mult_eq_mod)

lemma month_part_back:
  assumes "0 \<le> doy" "doy \<le> 365" shows "(month_of doy + 9) smod 12 = month_part doy"
  using day_fact [OF assms] by (auto simp: month_of_def smod_nonneg)

lemma days_of_civil_of:
  assumes "0 \<le> doe" "doe < 146097"
  shows "(case civil_of era doe of (y, m, d) \<Rightarrow> days_from_civil y m d) = era * 146097 + doe - 719468"
proof -
  obtain yo doy where e: "yo = year_of_era doe" "doy = doe - year_start yo" by simp
  note y = year_of_era_range [OF assms, folded e(1)] and d = doy_range [OF assms, folded e(1), folded e(2)]
  obtain Y where Y: "Y = yo + era * 400" by simp
  then have parts_of_Y: "Y div 400 = era" "Y - era * 400 = yo" using y by simp_all
  have undo: "(if month_of doy \<le> 2 then (if month_of doy \<le> 2 then Y + 1 else Y) - 1
      else (if month_of doy \<le> 2 then Y + 1 else Y)) = Y" by simp
  have parts: "(153 * month_part doy + 2) sdiv 5 + day_of doy - 1 = doy"
    using day_fact(5) [OF d] by (simp add: day_of_def)
  have "days_from_civil (if month_of doy \<le> 2 then Y + 1 else Y) (month_of doy) (day_of doy)
      = era * 146097 + (yo * 365 + yo sdiv 4 - yo sdiv 100 + doy) - 719468"
    unfolding days_from_civil_def Let_def undo era_of_year parts_of_Y month_part_back [OF d] parts by simp
  also have "yo * 365 + yo sdiv 4 - yo sdiv 100 + doy = doe"
    using y(1) by (simp add: e(2) year_start_def)
  finally show ?thesis by (simp add: civil_of_def Let_def e [symmetric] Y [symmetric] split: if_splits)
qed

section \<open>The next day\<close>

lemma leap_year_era: "leap_year (y + 400 * e) \<longleftrightarrow> leap_year y"
proof -
  have "y + 400 * e = y + (100 * e) * 4" "y + 400 * e = y + (4 * e) * 100" by simp_all
  then have "(y + 400 * e) mod 4 = y mod 4" "(y + 400 * e) mod 100 = y mod 100" by (metis mod_mult_self1)+
  then show ?thesis by (simp add: leap_year_def)
qed

lemma step_table:
  "list_all (\<lambda>doy.
     (if day_of doy < (if month_of doy = 2 then 29 else month_length 0 (month_of doy))
      then month_of (doy + 1) = month_of doy \<and> day_of (doy + 1) = day_of doy + 1
      else month_of (doy + 1) = month_of doy mod 12 + 1 \<and> day_of (doy + 1) = 1 \<and> month_of doy \<noteq> 2)
     \<and> (month_of doy = 2 \<longrightarrow> day_of doy = doy - 336) \<and> (month_of doy \<le> 2 \<longleftrightarrow> 306 \<le> doy)
     \<and> (337 \<le> doy \<longrightarrow> month_of doy = 2)) [0..364]"
  by code_simp

lemma last_days: "month_of 364 = 2" "day_of 364 = 28" "month_of 365 = 2" "day_of 365 = 29" "month_of 0 = 3" "day_of 0 = 1"
  by (simp_all add: month_of_def day_of_def month_part_def)

definition dated :: "int \<Rightarrow> int \<Rightarrow> int \<times> int \<times> int" where
  "dated Y doy = (if month_of doy \<le> 2 then Y + 1 else Y, month_of doy, day_of doy)"

lemma civil_of_dated: "civil_of era doe = dated (year_of_era doe + era * 400) (doe - year_start (year_of_era doe))"
  by (simp add: civil_of_def dated_def Let_def)

lemma next_day_in_year:
  assumes "0 \<le> doy" "doy + 1 < (if leap_year (Y + 1) then 366 else 365)"
  shows "next_day (dated Y doy) = dated Y (doy + 1)"
proof -
  have "doy \<in> set [0..364]" using assms by (auto split: if_splits)
  with step_table have
    t: "if day_of doy < (if month_of doy = 2 then 29 else month_length 0 (month_of doy))
        then month_of (doy + 1) = month_of doy \<and> day_of (doy + 1) = day_of doy + 1
        else month_of (doy + 1) = month_of doy mod 12 + 1 \<and> day_of (doy + 1) = 1 \<and> month_of doy \<noteq> 2"
    and feb: "month_of doy = 2 \<longrightarrow> day_of doy = doy - 336"
    unfolding list_all_iff by blast+
  have m: "1 \<le> month_of doy" "month_of doy \<le> 12"
    using day_fact [of doy] \<open>doy \<in> set [0..364]\<close> by simp_all
  show ?thesis
  proof (cases "month_of doy = 2")
    case True
    then show ?thesis using t feb assms(2) by (auto simp: dated_def month_length_def split: if_splits)
  next
    case False
    then have "month_length Y (month_of doy) = month_length 0 (month_of doy)"
      "month_length (Y + 1) (month_of doy) = month_length 0 (month_of doy)" by (simp_all add: month_length_def)
    moreover have "month_of doy mod 12 = (if month_of doy = 12 then 0 else month_of doy)" using m by simp
    ultimately show ?thesis using t False m by (auto simp: dated_def split: if_splits)
  qed
qed

lemma next_day_of_year_end:
  "next_day (dated Y ((if leap_year (Y + 1) then 366 else 365) - 1)) = dated (Y + 1) 0"
  by (simp add: dated_def last_days month_length_def)

text \<open>Day numbers and dates agree with the Gregorian calendar, for every day: day 0 is 1 January 1970, the
  following number is always the following date (leap years, centuries and fourth centuries included), and
  \<open>days_from_civil\<close> takes each date back to its number.\<close>

theorem civil_days_follow_the_calendar:
  "civil_from_days 0 = (1970, 1, 1)
   \<and> civil_from_days (z + 1) = next_day (civil_from_days z)
   \<and> (case civil_from_days z of (y, m, d) \<Rightarrow> days_from_civil y m d) = z"
proof -
  obtain era doe where e: "era = (z + 719468) div 146097" "doe = (z + 719468) mod 146097" by simp
  then have doe: "0 \<le> doe" "doe < 146097" and z: "z + 719468 = era * 146097 + doe" by simp_all
  have now: "civil_from_days z = civil_of era doe" by (simp add: civil_from_days_eq e)
  obtain yo doy where y: "yo = year_of_era doe" "doy = doe - year_start yo" by simp
  obtain Y where Y: "Y = yo + 400 * era" by simp
  note range = year_of_era_range [OF doe, folded y(1)]
  have dated: "civil_of era doe = dated Y doy" by (simp add: civil_of_dated y Y mult.commute)
  have days: "year_days yo = (if leap_year (Y + 1) then 366 else 365)"
  proof -
    have "Y + 1 = yo + 1 + 400 * era" by (simp add: Y)
    then show ?thesis by (simp only: year_days_def leap_year_era)
  qed
  have next_civil: "civil_from_days (z + 1) = civil_of era' doe'"
    if "era * 146097 + doe + 1 = era' * 146097 + doe'" "0 \<le> doe'" "doe' < 146097" for era' doe'
  proof -
    have sum: "z + 1 + 719468 = era' * 146097 + doe'" using z that(1) by simp
    show ?thesis unfolding civil_from_days_eq sum using that(2,3) by simp
  qed
  have "civil_from_days (z + 1) = next_day (dated Y doy)"
  proof (cases "doy + 1 < year_days yo")
    case True
    then have same: "year_start yo \<le> doe + 1" "doe + 1 < year_start yo + year_days yo"
      using range(3) by (simp_all add: y(2))
    then have "civil_from_days (z + 1) = dated Y (doy + 1)"
      using year_end [OF range(1,2)] year_of_era_eq [OF range(1,2) same] doe
      by (subst next_civil [of era "doe + 1"]) (simp_all add: civil_of_dated y(2) Y algebra_simps)
    then show ?thesis using next_day_in_year [of doy Y] True range(3) days by (simp add: y(2))
  next
    case False
    then have last: "doy = year_days yo - 1" "doe + 1 = year_start yo + year_days yo"
      using range(4) by (simp_all add: y(2))
    have "civil_from_days (z + 1) = dated (Y + 1) 0"
    proof (cases "yo = 399")
      case True
      then have "doe = 146096" using last(2) year_fact(3) [OF range(1,2)] by simp
      then show ?thesis
        using True year_of_era_eq [of 0 0] year_days_pos(1) [of 0]
        by (subst next_civil [of "era + 1" 0]) (simp_all add: civil_of_dated Y algebra_simps)
    next
      case False
      then have start: "doe + 1 = year_start (yo + 1)" using last(2) year_fact(3) [OF range(1,2)] by simp
      have yo: "0 \<le> yo + 1" "yo + 1 \<le> 399" using range(1,2) False by simp_all
      have "year_of_era (doe + 1) = yo + 1" using year_fact(1) [OF yo] by (simp add: start)
      moreover have "doe + 1 < 146097" using year_end [OF yo] year_days_pos(1) [of "yo + 1"] start by linarith
      ultimately have "civil_from_days (z + 1) = civil_of era (doe + 1)" and "year_of_era (doe + 1) = yo + 1"
        using doe(1) next_civil [of era "doe + 1"] by simp_all
      moreover have "doe + 1 - year_start (yo + 1) = 0" "yo + 1 + era * 400 = Y + 1" using start by (simp_all add: Y)
      ultimately show ?thesis by (simp only: civil_of_dated)
    qed
    then show ?thesis by (simp only: last(1) days next_day_of_year_end)
  qed
  moreover have "civil_from_days 0 = (1970, 1, 1)" by code_simp
  moreover have "(case civil_of era doe of (y, m, d) \<Rightarrow> days_from_civil y m d) = z"
    using days_of_civil_of [OF doe, of era] z by linarith
  ultimately show ?thesis by (simp only: now dated)
qed

section \<open>Stamps read back\<close>

lemma length_dec: "n < 10 ^ Suc k \<Longrightarrow> length (dec n) \<le> Suc k"
proof (induction k arbitrary: n)
  case 0
  then show ?case by (subst dec.simps) simp
next
  case (Suc k)
  then have "n div 10 < 10 ^ Suc k" by simp
  from Suc.IH [OF this] show ?case by (subst dec.simps) simp
qed

lemma parse_padded: "parse_digits (bytes_of (padded w n)) = Some (int n)"
proof -
  have zeros: "foldl (\<lambda>acc b. acc * 10 + (uint b - 48)) 0 (replicate k (48 :: byte)) = 0" for k
    by (induction k) simp_all
  have "bytes_of (replicate k CHR ''0'') = replicate k 48" for k by (simp add: bytes_of_def)
  then show ?thesis
    using dec_bytes_digits [of n]
    by (simp add: padded_def bytes_of_append parse_digits_def dec_bytes_nonempty dec_bytes_value zeros list_all_iff
        is_digit_def) auto
qed

lemma length_padded: "n < 10 ^ k \<Longrightarrow> 0 < k \<Longrightarrow> length (bytes_of (padded k n)) = k"
  using length_dec [of n "k - 1"] by (simp add: padded_def bytes_of_def)

lemma parse_written:
  assumes "length Y = 4" "length M = 2" "length D = 2" "length H = 2" "length I = 2" "length S = 2"
    and "parse_digits Y = Some y" "parse_digits M = Some m" "parse_digits D = Some d" "parse_digits H = Some h"
      "parse_digits I = Some i" "parse_digits S = Some sec"
    and "1 \<le> m" "m \<le> 12" "1 \<le> d" "d \<le> 31" "h \<le> 23" "i \<le> 59" "sec \<le> 59"
  shows "parse_rfc3339_ms (Y @ 0x2d # M @ 0x2d # D @ 0x54 # H @ 0x3a # I @ 0x3a # S @ [0x5a])
    = Some ((days_from_civil y m d * 86400 + h * 3600 + i * 60 + sec) * 1000)"
proof -
  obtain y1 y2 y3 y4 where Y: "Y = [y1, y2, y3, y4]" using assms(1) by (auto simp: length_Suc_conv eval_nat_numeral)
  have two: "\<exists>a b. L = [a, b]" if "length L = 2" for L :: rstring
    using that by (auto simp: length_Suc_conv eval_nat_numeral)
  obtain m1 m2 d1 d2 h1 h2 i1 i2 s1 s2 where
    "M = [m1, m2]" "D = [d1, d2]" "H = [h1, h2]" "I = [i1, i2]" "S = [s1, s2]"
    using assms(2-6) two by metis
  with Y assms(7-) show ?thesis
    by (simp add: parse_rfc3339_ms_def stamp_fraction_def stamp_offset_def Let_def min_def)
qed

lemma year_below_10000:
  assumes "0 \<le> z" "z < 2932897" "civil_from_days z = (y, m, d)"
  shows "0 \<le> y" "y < 10000" "1 \<le> m" "m \<le> 12" "1 \<le> d" "d \<le> 31"
proof -
  obtain era doe where e: "era = (z + 719468) div 146097" "doe = (z + 719468) mod 146097" by simp
  then have doe: "0 \<le> doe" "doe < 146097" and z: "z + 719468 = era * 146097 + doe" by simp_all
  have era: "4 \<le> era" "era \<le> 24" using assms(1,2) z doe by linarith+
  obtain yo doy where y: "yo = year_of_era doe" "doy = doe - year_start yo" by simp
  note range = year_of_era_range [OF doe, folded y(1)] and d = doy_range [OF doe, folded y(1), folded y(2)]
  have ymd: "y = (if month_of doy \<le> 2 then yo + era * 400 + 1 else yo + era * 400)" "m = month_of doy" "d = day_of doy"
    using assms(3) by (simp_all add: civil_from_days_eq e [symmetric] civil_of_def Let_def y [symmetric] split: if_splits)
  show "1 \<le> m" "m \<le> 12" "1 \<le> d" "d \<le> 31" using day_fact [OF d] by (simp_all add: ymd)
  show "0 \<le> y" using range(1) era by (simp add: ymd(1))
  show "y < 10000"
  proof (cases "era = 24 \<and> yo = 399")
    case True
    then have "doy < 306" using z assms(2) by (simp add: y(2)) (simp add: year_start_def)
    then have "\<not> month_of doy \<le> 2" using d(1) step_table by (auto simp: list_all_iff)
    with True show ?thesis by (simp add: ymd(1))
  next
    case False
    then show ?thesis using era range(1,2) by (auto simp: ymd(1))
  qed
qed

lemma clock_parts:
  fixes secs :: int
  assumes "0 \<le> secs" "secs < 86400"
  shows "secs div 3600 * 3600 + secs mod 3600 div 60 * 60 + secs mod 60 = secs"
    "0 \<le> secs div 3600" "secs div 3600 \<le> 23" "0 \<le> secs mod 3600 div 60" "secs mod 3600 div 60 \<le> 59"
    "0 \<le> secs mod 60" "secs mod 60 \<le> 59"
proof -
  have "secs mod 3600 mod 60 = secs mod 60" by (rule mod_mod_cancel) simp
  then have "secs mod 3600 div 60 * 60 + secs mod 60 = secs mod 3600"
    using div_mult_mod_eq [of "secs mod 3600" 60] by simp
  then show "secs div 3600 * 3600 + secs mod 3600 div 60 * 60 + secs mod 60 = secs"
    using div_mult_mod_eq [of secs 3600] by linarith
  have "secs mod 3600 < 3600" "secs mod 60 < 60" "0 \<le> secs mod 3600" "0 \<le> secs mod 60" by simp_all
  then obtain r where r: "r = secs mod 3600" "0 \<le> r" "r < 3600" by blast
  then have "r div 60 \<le> 59" "0 \<le> r div 60" by linarith+
  then show "0 \<le> secs mod 3600 div 60" "secs mod 3600 div 60 \<le> 59" by (simp_all only: r(1))
  show "0 \<le> secs div 3600" "secs div 3600 \<le> 23" using assms by linarith+
  show "0 \<le> secs mod 60" "secs mod 60 \<le> 59" using \<open>secs mod 60 < 60\<close> \<open>0 \<le> secs mod 60\<close> by linarith+
qed

text \<open>A UTC stamp that the report prints is read back as the instant it stands for, to the second, for every
  time before the year 10000.\<close>

theorem stamps_read_back:
  assumes "unat ms < 253402300800000"
  shows "parse_rfc3339_ms (format_rfc3339_utc ms) = Some (int (unat ms div 1000 * 1000))"
proof -
  obtain t days secs where t: "t = int (unat ms div 1000)" "days = t div 86400" "secs = t mod 86400" by simp
  have "unat ms div 1000 < 253402300800" using assms by simp
  then have "0 \<le> t" "t < 253402300800" by (simp_all add: t(1))
  then have days: "0 \<le> days" "days < 2932897" by (simp_all add: t(2)) 
  have secs: "0 \<le> secs" "secs < 86400" by (simp_all add: t(3))
  obtain y m d where ymd: "civil_from_days days = (y, m, d)" by (cases "civil_from_days days")
  note range = year_below_10000 [OF days ymd]
  obtain h i x where clock: "h = secs div 3600" "i = secs mod 3600 div 60" "x = secs mod 60" by simp
  note hix = clock_parts(2-) [OF secs, folded clock] and sum = clock_parts(1) [OF secs, folded clock]
  have "(case civil_from_days days of (y, m, d) \<Rightarrow> days_from_civil y m d) = days"
    using days_of_civil_of [of "(days + 719468) mod 146097" "(days + 719468) div 146097"]
    by (simp add: civil_from_days_eq)
  then have back_days: "days_from_civil y m d = days" by (simp add: ymd)
  have two: "length (bytes_of (padded 2 (nat v))) = 2" "parse_digits (bytes_of (padded 2 (nat v))) = Some v"
    if "0 \<le> v" "v < 100" for v
    using that length_padded [of "nat v" 2] by (simp_all add: parse_padded)
  have four: "length (bytes_of (padded 4 (nat y))) = 4"
    using range(1,2) length_padded [of "nat y" 4] by simp
  have "format_rfc3339_utc ms = bytes_of (padded 4 (nat y)) @ 0x2d # bytes_of (padded 2 (nat m)) @ 0x2d
      # bytes_of (padded 2 (nat d)) @ 0x54 # bytes_of (padded 2 (nat h)) @ 0x3a # bytes_of (padded 2 (nat i))
      @ 0x3a # bytes_of (padded 2 (nat x)) @ [0x5a]"
    unfolding format_rfc3339_utc_def Let_def t [symmetric] ymd prod.case clock [symmetric]
    by (simp add: bytes_of_append) (simp add: bytes_of_def)
  then have "parse_rfc3339_ms (format_rfc3339_utc ms)
      = Some ((days_from_civil y m d * 86400 + h * 3600 + i * 60 + x) * 1000)"
    using range hix by (simp add: parse_written four two parse_padded)
  also have "days_from_civil y m d * 86400 + h * 3600 + i * 60 + x = t"
    using sum div_mult_mod_eq [of t 86400] unfolding back_days t(2,3) by linarith
  finally show ?thesis by (simp add: t(1))
qed

lemma stamps_read_back_witness: "parse_rfc3339_ms (format_rfc3339_utc 1709210096789) = Some 1709210096000"
  using stamps_read_back [of 1709210096789] by simp

text \<open>The reader takes any day up to 31 in any month, and anything behind a \<open>Z\<close> or an offset.\<close>

lemma february_31_is_read:
  "parse_rfc3339_ms (bytes_of ''2024-02-31T00:00:00Z'') = parse_rfc3339_ms (bytes_of ''2024-03-02T00:00:00Zoo'')"
  "parse_rfc3339_ms (bytes_of ''2024-02-31T00:00:00Z'') \<noteq> None"
  by code_simp+

end
