(* ===== verification/Watchdog_Ingress.thy ===== *)
theory Watchdog_Ingress
  imports Watchdog
begin

unbundle bit_operations_syntax

text \<open>
  How signals reach the watchdog (\<^verbatim>\<open>src-tauri/src/watchdog/ingress.rs\<close>): a queue of at most 32 messages
  beside slots that a flood cannot crowd out (process losses, navigation, one prompt answer, the latest
  hints) and a stop flag. First the operations as the code composes them, then the same operations cut into
  their atomic steps, interleaved by any number of sending threads with the receiving one. The permit that a
  prompt answer carries is left out.
\<close>

definition CAPACITY :: nat where "CAPACITY = 32"

datatype prompt_outcome = Outcome_Reload | Outcome_Decline | Outcome_Timed_Out | Outcome_Cancelled

datatype msg =
    Wake
  | Event event
  | Probe_Reply string nat
  | Prompt_Answer nat nat prompt_outcome
  | Paint bool nat nat

text \<open>The shared state of \<open>Sender\<close> and \<open>Inbox\<close>; \<open>prompt_tx\<close> is a channel of capacity one.\<close>

record ingress =
  ig_queue :: "msg list"
  ig_prompt :: "msg option"
  ig_stop :: bool
  ig_terminated :: u8
  ig_loaded :: bool
  ig_hints :: "u8 list"
  ig_dropped :: nat

definition ingress_new :: ingress where
  "ingress_new = \<lparr>ig_queue = [], ig_prompt = None, ig_stop = False, ig_terminated = 0, ig_loaded = False,
                  ig_hints = [0, 0, 0, 0], ig_dropped = 0\<rparr>"

fun reason_bit :: "termination_reason \<Rightarrow> u8" where
  "reason_bit Crashed = 4"
| "reason_bit ExceededMemoryLimit = 2"
| "reason_bit TerminatedByApi = 1"

definition set_hint :: "nat \<Rightarrow> bool \<Rightarrow> ingress \<Rightarrow> ingress" where
  "set_hint index value s = s\<lparr>ig_hints := (ig_hints s)[index := if value then 2 else 1]\<rparr>"

text \<open>What \<open>send\<close> does before it touches the queue: it fills a slot and goes on with a wake-up, is refused,
  or goes on with the message itself.\<close>

datatype marking = Marked ingress | Refused | Plain

definition mark :: "msg \<Rightarrow> ingress \<Rightarrow> marking" where
  "mark m s =
     (case m of
        Prompt_Answer _ _ _ \<Rightarrow> if ig_prompt s \<noteq> None then Refused else Marked (s\<lparr>ig_prompt := Some m\<rparr>)
      | Event e \<Rightarrow>
          (case e of
             WebProcessTerminated reason \<Rightarrow> Marked (s\<lparr>ig_terminated := ig_terminated s OR reason_bit reason\<rparr>)
           | PageLoaded \<Rightarrow> Marked (s\<lparr>ig_loaded := True\<rparr>)
           | WindowVisible value \<Rightarrow> Marked (set_hint 0 value s)
           | WindowFocused value \<Rightarrow> Marked (set_hint 1 value s)
           | InspectorAttached value \<Rightarrow> Marked (set_hint 2 value s)
           | ResponsivenessChanged value \<Rightarrow> Marked (set_hint 3 value s)
           | _ \<Rightarrow> Plain)
      | _ \<Rightarrow> Plain)"

definition try_queue :: "msg \<Rightarrow> ingress \<Rightarrow> bool \<times> ingress" where
  "try_queue m s =
     (if length (ig_queue s) < CAPACITY then (True, s\<lparr>ig_queue := ig_queue s @ [m]\<rparr>)
      else if m = Wake then (True, s)
      else (False, s\<lparr>ig_dropped := ig_dropped s + 1\<rparr>))"

definition ingress_send :: "msg \<Rightarrow> ingress \<Rightarrow> bool \<times> ingress" where
  "ingress_send m s =
     (if ig_stop s then (False, s)
      else case mark m s of
        Marked s' \<Rightarrow> try_queue Wake s'
      | Refused \<Rightarrow> (False, s)
      | Plain \<Rightarrow> try_queue m s)"

definition ingress_stop :: "ingress \<Rightarrow> ingress" where
  "ingress_stop s = snd (try_queue Wake (s\<lparr>ig_stop := True\<rparr>))"

text \<open>The slots in the order the receiver looks at them: three process losses, navigation, the prompt
  answer, four hints.\<close>

definition poll_reason :: "termination_reason \<Rightarrow> ingress \<Rightarrow> msg option \<times> ingress" where
  "poll_reason reason s =
     (if ig_terminated s AND reason_bit reason \<noteq> 0 then Some (Event (WebProcessTerminated reason)) else None,
      s\<lparr>ig_terminated := ig_terminated s AND NOT (reason_bit reason)\<rparr>)"

definition hint_event :: "nat \<Rightarrow> bool \<Rightarrow> event" where
  "hint_event index value =
     (if index = 0 then WindowVisible value else if index = 1 then WindowFocused value
      else if index = 2 then InspectorAttached value else ResponsivenessChanged value)"

definition poll_hint :: "nat \<Rightarrow> ingress \<Rightarrow> msg option \<times> ingress" where
  "poll_hint index s =
     (let v = ig_hints s ! index
      in (if v \<noteq> 0 then Some (Event (hint_event index (v = 2))) else None, s\<lparr>ig_hints := (ig_hints s)[index := 0]\<rparr>))"

definition poll_slot :: "nat \<Rightarrow> ingress \<Rightarrow> msg option \<times> ingress" where
  "poll_slot i s =
     (if i = 0 then poll_reason Crashed s
      else if i = 1 then poll_reason ExceededMemoryLimit s
      else if i = 2 then poll_reason TerminatedByApi s
      else if i = 3 then (if ig_loaded s then Some (Event PageLoaded) else None, s\<lparr>ig_loaded := False\<rparr>)
      else if i = 4 then (ig_prompt s, s\<lparr>ig_prompt := None\<rparr>)
      else poll_hint (i - 5) s)"

datatype receipt = Received msg | Timeout | Disconnected

fun poll_slots :: "nat list \<Rightarrow> ingress \<Rightarrow> msg option \<times> ingress" where
  "poll_slots [] s = (None, s)"
| "poll_slots (i # is) s =
     (case poll_slot i s of (Some m, s') \<Rightarrow> (Some m, s') | (None, s') \<Rightarrow> poll_slots is s')"

text \<open>The wait for the queue ends with its first message, or with the timeout when none comes.\<close>

definition ingress_recv :: "ingress \<Rightarrow> receipt \<times> ingress" where
  "ingress_recv s =
     (if ig_stop s then (Disconnected, s)
      else case poll_slots [0..<9] s of
        (Some m, s') \<Rightarrow> (Received m, s')
      | (None, s') \<Rightarrow>
          (case ig_queue s' of
             m # ms \<Rightarrow> (Received m, s'\<lparr>ig_queue := ms\<rparr>)
           | [] \<Rightarrow> (Timeout, s')))"

section \<open>Slots\<close>

text \<open>Every message that has a slot, and its number.\<close>

fun slot_of :: "msg \<Rightarrow> nat option" where
  "slot_of (Event (WebProcessTerminated Crashed)) = Some 0"
| "slot_of (Event (WebProcessTerminated ExceededMemoryLimit)) = Some 1"
| "slot_of (Event (WebProcessTerminated TerminatedByApi)) = Some 2"
| "slot_of (Event PageLoaded) = Some 3"
| "slot_of (Prompt_Answer _ _ _) = Some 4"
| "slot_of (Event (WindowVisible _)) = Some 5"
| "slot_of (Event (WindowFocused _)) = Some 6"
| "slot_of (Event (InspectorAttached _)) = Some 7"
| "slot_of (Event (ResponsivenessChanged _)) = Some 8"
| "slot_of _ = None"

text \<open>What the slots hold, as one function: the abstract view of the bits, flags and counters.\<close>

definition slots :: "ingress \<Rightarrow> nat \<Rightarrow> msg option" where
  "slots s i = (if i < 9 then fst (poll_slot i s) else None)"

definition hints_ok :: "ingress \<Rightarrow> bool" where
  "hints_ok s \<longleftrightarrow> length (ig_hints s) = 4"

lemma reason_bits:
  "(t OR reason_bit r) AND reason_bit r' = 0 \<longleftrightarrow> t AND reason_bit r' = 0 \<and> r \<noteq> r'"
  "(t AND NOT (reason_bit r)) AND reason_bit r' = (if r = r' then 0 else t AND reason_bit r')"
  "reason_bit r \<noteq> 0"
  by (cases r; cases r'; simp add: reason_bit.simps word_ao_dist word_bw_assocs)+

declare reason_bit.simps [simp del]

lemma slot_values:
  "slots s 0 = (if ig_terminated s AND reason_bit Crashed \<noteq> 0 then Some (Event (WebProcessTerminated Crashed)) else None)"
  "slots s 1 = (if ig_terminated s AND reason_bit ExceededMemoryLimit \<noteq> 0
     then Some (Event (WebProcessTerminated ExceededMemoryLimit)) else None)"
  "slots s 2 = (if ig_terminated s AND reason_bit TerminatedByApi \<noteq> 0
     then Some (Event (WebProcessTerminated TerminatedByApi)) else None)"
  "slots s 3 = (if ig_loaded s then Some (Event PageLoaded) else None)"
  "slots s 4 = ig_prompt s"
  "slots s 5 = (if ig_hints s ! 0 \<noteq> 0 then Some (Event (WindowVisible (ig_hints s ! 0 = 2))) else None)"
  "slots s 6 = (if ig_hints s ! 1 \<noteq> 0 then Some (Event (WindowFocused (ig_hints s ! 1 = 2))) else None)"
  "slots s 7 = (if ig_hints s ! 2 \<noteq> 0 then Some (Event (InspectorAttached (ig_hints s ! 2 = 2))) else None)"
  "slots s 8 = (if ig_hints s ! 3 \<noteq> 0 then Some (Event (ResponsivenessChanged (ig_hints s ! 3 = 2))) else None)"
  by (simp_all add: slots_def poll_slot_def poll_reason_def poll_hint_def hint_event_def Let_def)

lemmas slot_view = slot_values slot_values(2) [unfolded One_nat_def]

lemma nine: "(i :: nat) < 9 \<longleftrightarrow> i = 0 \<or> i = 1 \<or> i = 2 \<or> i = 3 \<or> i = 4 \<or> i = 5 \<or> i = 6 \<or> i = 7 \<or> i = 8"
  by auto

lemma slots_eqI:
  assumes "slots s 0 = f 0" "slots s 1 = f 1" "slots s 2 = f 2" "slots s 3 = f 3" "slots s 4 = f 4" "slots s 5 = f 5"
    "slots s 6 = f 6" "slots s 7 = f 7" "slots s 8 = f 8" "\<forall>i. \<not> i < 9 \<longrightarrow> f i = None"
  shows "slots s = f"
proof
  fix i show "slots s i = f i"
  proof (cases "i < 9")
    case True
    then show ?thesis unfolding nine using assms(1-9) by (elim disjE) (simp_all only:)
  next
    case False
    with assms(10) show ?thesis by (simp add: slots_def)
  qed
qed

lemma slots_cong:
  assumes "ig_terminated s = ig_terminated t" "ig_loaded s = ig_loaded t" "ig_prompt s = ig_prompt t" "ig_hints s = ig_hints t"
  shows "slots s = slots t"
  by (rule slots_eqI) (simp_all add: slot_view assms, simp add: slots_def)

text \<open>Filling a slot changes that slot alone; so does looking into one.\<close>

lemma slots_high [simp]: "\<not> i < 9 \<Longrightarrow> slots s i = None"
  by (simp add: slots_def)

lemma slots_terminated:
  "slots (s\<lparr>ig_terminated := ig_terminated s OR reason_bit r\<rparr>)
     = (slots s)(the (slot_of (Event (WebProcessTerminated r))) := Some (Event (WebProcessTerminated r)))"
  by (cases r; rule slots_eqI) (simp_all add: slot_view reason_bits)

lemma slots_hint:
  assumes "hints_ok s" "k < 4"
  shows "slots (set_hint k value s) = (slots s)(k + 5 := Some (Event (hint_event k value)))"
proof -
  have "k = 0 \<or> k = 1 \<or> k = 2 \<or> k = 3" using assms(2) by auto
  with assms(1) show ?thesis
    by (elim disjE; intro slots_eqI)
      (simp_all add: slot_view set_hint_def hints_ok_def hint_event_def)
qed

lemma hints_ok_set [simp]: "hints_ok (set_hint k value s) = hints_ok s"
  by (simp add: hints_ok_def set_hint_def)

lemma mark_spec:
  assumes "mark m s = Marked s'" "hints_ok s"
  obtains i where "slot_of m = Some i" "i < 9" "slots s' = (slots s)(i := Some m)" "hints_ok s'"
    "ig_queue s' = ig_queue s" "ig_stop s' = ig_stop s" "ig_dropped s' = ig_dropped s"
proof (cases m)
  case (Event e)
  show ?thesis
  proof (cases e)
    case (WebProcessTerminated r)
    then have s': "s' = s\<lparr>ig_terminated := ig_terminated s OR reason_bit r\<rparr>" using assms(1) Event by (simp add: mark_def)
    obtain i where "slot_of m = Some i" "i < 9" using Event WebProcessTerminated by (cases r) simp_all
    then show ?thesis
      using slots_terminated [of s r] assms(2) Event WebProcessTerminated that [of i]
      by (simp add: s' hints_ok_def)
  next
    case PageLoaded
    then have s': "s' = s\<lparr>ig_loaded := True\<rparr>" using assms(1) Event by (simp add: mark_def)
    have "slots s' = (slots s)(3 := Some m)"
      unfolding s' by (rule slots_eqI) (simp_all add: slot_view Event PageLoaded)
    then show ?thesis using assms(2) Event PageLoaded that [of 3] by (simp add: s' hints_ok_def)
  qed (use assms Event slots_hint [OF assms(2), of 0] slots_hint [OF assms(2), of 1] slots_hint [OF assms(2), of 2]
      slots_hint [OF assms(2), of 3] in \<open>auto simp: mark_def hint_event_def set_hint_def hints_ok_def intro: that\<close>)
next
  case (Prompt_Answer a b c)
  then have s': "s' = s\<lparr>ig_prompt := Some m\<rparr>" using assms(1) by (simp add: mark_def split: if_splits)
  have "slots s' = (slots s)(4 := Some m)"
    unfolding s' by (rule slots_eqI) (simp_all add: slot_view)
  then show ?thesis using assms(2) Prompt_Answer that [of 4] by (simp add: s' hints_ok_def)
qed (use assms in \<open>simp_all add: mark_def\<close>)

lemma poll_frame:
  assumes "hints_ok s"
  shows "hints_ok (snd (poll_slot i s))" "ig_queue (snd (poll_slot i s)) = ig_queue s"
    "ig_stop (snd (poll_slot i s)) = ig_stop s" "ig_dropped (snd (poll_slot i s)) = ig_dropped s"
  using assms by (simp_all add: poll_slot_def poll_reason_def poll_hint_def Let_def hints_ok_def)

lemma poll_spec:
  assumes "hints_ok s" "i < 9"
  shows "fst (poll_slot i s) = slots s i" "slots (snd (poll_slot i s)) = (slots s)(i := None)"
proof -
  show "fst (poll_slot i s) = slots s i" using assms(2) by (simp add: slots_def)
  have reason: "slots (snd (poll_reason r s)) = (slots s)(the (slot_of (Event (WebProcessTerminated r))) := None)" for r
    by (cases r; rule slots_eqI) (simp_all add: slot_view poll_reason_def reason_bits)
  have hint: "slots (snd (poll_hint k s)) = (slots s)(k + 5 := None)" if "k < 4" for k
  proof -
    have "k = 0 \<or> k = 1 \<or> k = 2 \<or> k = 3" using that by auto
    with assms(1) show ?thesis
      by (elim disjE; intro slots_eqI)
        (simp_all add: slot_view poll_hint_def Let_def hints_ok_def)
  qed
  have loaded: "slots (s\<lparr>ig_loaded := False\<rparr>) = (slots s)(3 := None)"
    by (rule slots_eqI) (simp_all add: slot_view)
  have prompt: "slots (s\<lparr>ig_prompt := None\<rparr>) = (slots s)(4 := None)"
    by (rule slots_eqI) (simp_all add: slot_view)
  show "slots (snd (poll_slot i s)) = (slots s)(i := None)"
    using assms(2) reason [of Crashed] reason [of ExceededMemoryLimit] reason [of TerminatedByApi] loaded prompt
      hint [of 0] hint [of 1] hint [of 2] hint [of 3]
    unfolding nine by (auto simp: poll_slot_def)
qed

section \<open>The abstract inbox\<close>

text \<open>Nine slots, a bounded queue, a stop flag and a count: what the channel promises its users.\<close>

record inbox =
  ib_slots :: "nat \<Rightarrow> msg option"
  ib_queue :: "msg list"
  ib_stop :: bool
  ib_dropped :: nat

definition inbox_of :: "ingress \<Rightarrow> inbox" where
  "inbox_of s = \<lparr>ib_slots = slots s, ib_queue = ig_queue s, ib_stop = ig_stop s, ib_dropped = ig_dropped s\<rparr>"

definition inbox_put :: "msg \<Rightarrow> inbox \<Rightarrow> bool \<times> inbox" where
  "inbox_put m b =
     (if length (ib_queue b) < CAPACITY then (True, b\<lparr>ib_queue := ib_queue b @ [m]\<rparr>)
      else if m = Wake then (True, b)
      else (False, b\<lparr>ib_dropped := ib_dropped b + 1\<rparr>))"

definition inbox_send :: "msg \<Rightarrow> inbox \<Rightarrow> bool \<times> inbox" where
  "inbox_send m b =
     (if ib_stop b then (False, b)
      else case slot_of m of
        Some i \<Rightarrow>
          if i = 4 \<and> ib_slots b 4 \<noteq> None then (False, b)
          else inbox_put Wake (b\<lparr>ib_slots := (ib_slots b)(i := Some m)\<rparr>)
      | None \<Rightarrow> inbox_put m b)"

definition first_slot :: "inbox \<Rightarrow> nat option" where
  "first_slot b = List.find (\<lambda>i. ib_slots b i \<noteq> None) [0..<9]"

definition inbox_recv :: "inbox \<Rightarrow> receipt \<times> inbox" where
  "inbox_recv b =
     (if ib_stop b then (Disconnected, b)
      else case first_slot b of
        Some i \<Rightarrow> (Received (the (ib_slots b i)), b\<lparr>ib_slots := (ib_slots b)(i := None)\<rparr>)
      | None \<Rightarrow>
          (case ib_queue b of
             m # ms \<Rightarrow> (Received m, b\<lparr>ib_queue := ms\<rparr>)
           | [] \<Rightarrow> (Timeout, b)))"

text \<open>What holds of every inbox: four hints, and only an answer in the answer's place.\<close>

definition ingress_ok :: "ingress \<Rightarrow> bool" where
  "ingress_ok s \<longleftrightarrow> hints_ok s \<and> (\<forall>m. ig_prompt s = Some m \<longrightarrow> slot_of m = Some 4)"

lemma ingress_new_ok: "ingress_ok ingress_new"
  by (simp add: ingress_ok_def hints_ok_def ingress_new_def)

lemma slots_typed: "ingress_ok s \<Longrightarrow> slots s i = Some m \<Longrightarrow> slot_of m = Some i"
proof -
  assume a: "ingress_ok s" "slots s i = Some m"
  then have "i < 9" by (cases "i < 9") simp_all
  with a show ?thesis
    unfolding nine by (elim disjE) (simp_all add: slot_view ingress_ok_def split: if_splits, auto)
qed

lemma mark_Plain: "mark m s = Plain \<longleftrightarrow> slot_of m = None"
proof (cases m)
  case (Event e)
  then show ?thesis
  proof (cases e)
    case (WebProcessTerminated r)
    then show ?thesis using Event by (cases r) (simp_all add: mark_def)
  qed (simp_all add: mark_def)
qed (simp_all add: mark_def)

lemma mark_Refused: "mark m s = Refused \<longleftrightarrow> slot_of m = Some 4 \<and> ig_prompt s \<noteq> None"
proof (cases m)
  case (Event e)
  then show ?thesis
  proof (cases e)
    case (WebProcessTerminated r)
    then show ?thesis using Event by (cases r) (simp_all add: mark_def)
  qed (simp_all add: mark_def)
qed (simp_all add: mark_def)

lemma mark_ok: "mark m s = Marked s' \<Longrightarrow> ingress_ok s \<Longrightarrow> ingress_ok s'"
  by (auto simp: mark_def ingress_ok_def hints_ok_def set_hint_def split: msg.splits event.splits if_splits)

lemma try_queue_view:
  "fst (try_queue m s) = fst (inbox_put m (inbox_of s))" "inbox_of (snd (try_queue m s)) = snd (inbox_put m (inbox_of s))"
  by (simp_all add: try_queue_def inbox_put_def inbox_of_def slots_cong [of "s\<lparr>ig_queue := ig_queue s @ [m]\<rparr>" s]
      slots_cong [of "s\<lparr>ig_dropped := Suc (ig_dropped s)\<rparr>" s])

lemma try_queue_ok: "ingress_ok (snd (try_queue m s)) = ingress_ok s"
  by (simp add: try_queue_def ingress_ok_def hints_ok_def)

lemma poll_ok: "ingress_ok s \<Longrightarrow> ingress_ok (snd (poll_slot i s))"
  using poll_frame(1) [of s i] by (auto simp: ingress_ok_def poll_slot_def poll_reason_def poll_hint_def Let_def)

lemma poll_slots_view:
  assumes "ingress_ok s" "set is \<subseteq> {..<9}"
  shows "case List.find (\<lambda>i. slots s i \<noteq> None) is of
      Some i \<Rightarrow> fst (poll_slots is s) = slots s i \<and> slots (snd (poll_slots is s)) = (slots s)(i := None)
    | None \<Rightarrow> fst (poll_slots is s) = None \<and> slots (snd (poll_slots is s)) = slots s"
    and "ingress_ok (snd (poll_slots is s)) \<and> ig_queue (snd (poll_slots is s)) = ig_queue s
      \<and> ig_stop (snd (poll_slots is s)) = ig_stop s \<and> ig_dropped (snd (poll_slots is s)) = ig_dropped s"
proof -
  have "(case List.find (\<lambda>i. slots s i \<noteq> None) is of
      Some i \<Rightarrow> fst (poll_slots is s) = slots s i \<and> slots (snd (poll_slots is s)) = (slots s)(i := None)
    | None \<Rightarrow> fst (poll_slots is s) = None \<and> slots (snd (poll_slots is s)) = slots s)
    \<and> ingress_ok (snd (poll_slots is s)) \<and> ig_queue (snd (poll_slots is s)) = ig_queue s
      \<and> ig_stop (snd (poll_slots is s)) = ig_stop s \<and> ig_dropped (snd (poll_slots is s)) = ig_dropped s"
    using assms
  proof (induction "is" arbitrary: s)
    case (Cons i js)
    obtain v t where poll: "poll_slot i s = (v, t)" by fastforce
    have i: "i < 9" "hints_ok s" using Cons.prems by (auto simp: ingress_ok_def)
    note view = poll_spec [OF i(2,1)] poll_frame [OF i(2), of i] poll_ok [OF Cons.prems(1), of i]
    show ?case
    proof (cases "slots s i")
      case None
      then have "slots t = slots s" using view poll by (simp add: fun_upd_idem)
      then show ?thesis using Cons.IH [of t] Cons.prems(2) None view poll by (simp split: option.splits)
    next
      case (Some m)
      then show ?thesis using view poll by simp
    qed
  qed simp
  then show "case List.find (\<lambda>i. slots s i \<noteq> None) is of
      Some i \<Rightarrow> fst (poll_slots is s) = slots s i \<and> slots (snd (poll_slots is s)) = (slots s)(i := None)
    | None \<Rightarrow> fst (poll_slots is s) = None \<and> slots (snd (poll_slots is s)) = slots s"
    "ingress_ok (snd (poll_slots is s)) \<and> ig_queue (snd (poll_slots is s)) = ig_queue s
      \<and> ig_stop (snd (poll_slots is s)) = ig_stop s \<and> ig_dropped (snd (poll_slots is s)) = ig_dropped s"
    by blast+
qed

lemma send_view:
  assumes "ingress_ok s"
  shows "fst (ingress_send m s) = fst (inbox_send m (inbox_of s))"
    "inbox_of (snd (ingress_send m s)) = snd (inbox_send m (inbox_of s))" "ingress_ok (snd (ingress_send m s))"
proof -
  have h: "hints_ok s" using assms by (simp add: ingress_ok_def)
  consider "ig_stop s" | s' where "\<not> ig_stop s" "mark m s = Marked s'" | "\<not> ig_stop s" "mark m s = Refused"
    | "\<not> ig_stop s" "mark m s = Plain" by (cases "ig_stop s"; cases "mark m s") auto
  then have "fst (ingress_send m s) = fst (inbox_send m (inbox_of s))
    \<and> inbox_of (snd (ingress_send m s)) = snd (inbox_send m (inbox_of s)) \<and> ingress_ok (snd (ingress_send m s))"
  proof cases
    case 1
    then show ?thesis using assms by (simp add: ingress_send_def inbox_send_def inbox_of_def)
  next
    case 2
    from mark_spec [OF 2(2) h] obtain i where i: "slot_of m = Some i" "slots s' = (slots s)(i := Some m)"
      "ig_queue s' = ig_queue s" "ig_stop s' = ig_stop s" "ig_dropped s' = ig_dropped s" by metis
    moreover have "\<not> (i = 4 \<and> slots s 4 \<noteq> None)" using 2(2) i(1) mark_Refused [of m s] by (auto simp: slot_view)
    moreover have "inbox_of s' = (inbox_of s)\<lparr>ib_slots := (slots s)(i := Some m)\<rparr>" using i by (simp add: inbox_of_def)
    ultimately show ?thesis
      using 2 try_queue_view [of Wake s'] try_queue_ok [of Wake s'] mark_ok [OF 2(2) assms]
      by (auto simp: ingress_send_def inbox_send_def inbox_of_def)
  next
    case 3
    then show ?thesis using assms mark_Refused [of m s] by (auto simp: ingress_send_def inbox_send_def inbox_of_def slot_view)
  next
    case 4
    then show ?thesis
      using assms mark_Plain [of m s] try_queue_view [of m s] try_queue_ok [of m s]
      by (simp add: ingress_send_def inbox_send_def inbox_of_def)
  qed
  then show "fst (ingress_send m s) = fst (inbox_send m (inbox_of s))"
    "inbox_of (snd (ingress_send m s)) = snd (inbox_send m (inbox_of s))" "ingress_ok (snd (ingress_send m s))" by blast+
qed

lemma recv_view:
  assumes "ingress_ok s"
  shows "fst (ingress_recv s) = fst (inbox_recv (inbox_of s))"
    "inbox_of (snd (ingress_recv s)) = snd (inbox_recv (inbox_of s))" "ingress_ok (snd (ingress_recv s))"
proof -
  obtain v t where poll: "poll_slots [0..<9] s = (v, t)" by fastforce
  note view = poll_slots_view [OF assms, of "[0..<9]", unfolded poll]
  have cut: "slots (t\<lparr>ig_queue := q\<rparr>) = slots t" for q by (rule slots_cong) simp_all
  have ok: "ingress_ok (t\<lparr>ig_queue := q\<rparr>) = ingress_ok t" for q by (simp add: ingress_ok_def hints_ok_def)
  show "fst (ingress_recv s) = fst (inbox_recv (inbox_of s))"
    "inbox_of (snd (ingress_recv s)) = snd (inbox_recv (inbox_of s))" "ingress_ok (snd (ingress_recv s))"
    using view assms poll
    by (auto simp: ingress_recv_def inbox_recv_def first_slot_def cut ok inbox_of_def atLeast0LessThan
        split: option.splits list.splits dest: find_SomeD)
qed

text \<open>C26: The channel is the inbox it promises to be: under any send, stop or receive the bits, flags and
  counters behave as nine slots, each holding the latest message of its kind, read before the queue and in
  order of urgency, with the queue bounded by 32 and only refused messages counted as dropped. The
  invariant this rests on holds at the start and is kept.\<close>

theorem ingress_refines_the_inbox:
  "ingress_ok ingress_new
   \<and> (if ingress_ok s then
        fst (ingress_send m s) = fst (inbox_send m (inbox_of s))
        \<and> inbox_of (snd (ingress_send m s)) = snd (inbox_send m (inbox_of s)) \<and> ingress_ok (snd (ingress_send m s))
        \<and> fst (ingress_recv s) = fst (inbox_recv (inbox_of s))
        \<and> inbox_of (snd (ingress_recv s)) = snd (inbox_recv (inbox_of s)) \<and> ingress_ok (snd (ingress_recv s))
        \<and> inbox_of (ingress_stop s) = snd (inbox_put Wake ((inbox_of s)\<lparr>ib_stop := True\<rparr>)) \<and> ingress_ok (ingress_stop s)
      else True)"
proof -
  have stop: "inbox_of (s\<lparr>ig_stop := True\<rparr>) = (inbox_of s)\<lparr>ib_stop := True\<rparr>"
    by (simp add: inbox_of_def slots_cong [of "s\<lparr>ig_stop := True\<rparr>" s])
  have "ingress_ok (s\<lparr>ig_stop := True\<rparr>) = ingress_ok s" by (simp add: ingress_ok_def hints_ok_def)
  then show ?thesis
    using send_view [of s m] recv_view [of s] ingress_new_ok
    by (simp add: ingress_stop_def try_queue_view try_queue_ok stop)
qed

section \<open>Nothing crowds out a slot\<close>

text \<open>A receiver that takes one message per round while others send in between.\<close>

fun inbox_rounds :: "msg list list \<Rightarrow> inbox \<Rightarrow> receipt list" where
  "inbox_rounds [] b = []"
| "inbox_rounds (ms # mss) b =
     (let (r, b') = inbox_recv (fold (\<lambda>m. snd \<circ> inbox_send m) ms b) in r # inbox_rounds mss b')"

fun ingress_rounds :: "msg list list \<Rightarrow> ingress \<Rightarrow> receipt list" where
  "ingress_rounds [] s = []"
| "ingress_rounds (ms # mss) s =
     (let (r, s') = ingress_recv (fold (\<lambda>m. snd \<circ> ingress_send m) ms s) in r # ingress_rounds mss s')"

lemma sends_view:
  "ingress_ok s \<Longrightarrow> inbox_of (fold (\<lambda>m. snd \<circ> ingress_send m) ms s) = fold (\<lambda>m. snd \<circ> inbox_send m) ms (inbox_of s)
     \<and> ingress_ok (fold (\<lambda>m. snd \<circ> ingress_send m) ms s)"
  by (induction ms arbitrary: s) (simp_all add: send_view)

lemma rounds_view: "ingress_ok s \<Longrightarrow> ingress_rounds mss s = inbox_rounds mss (inbox_of s)"
proof (induction mss arbitrary: s)
  case (Cons ms mss)
  let ?t = "fold (\<lambda>m. snd \<circ> ingress_send m) ms s"
  from sends_view [OF Cons.prems, of ms] recv_view [of ?t] Cons.IH [of "snd (ingress_recv ?t)"] show ?case
    by (simp add: case_prod_unfold Let_def)
qed simp

text \<open>Messages that leave the slots below \<open>i\<close> alone.\<close>

definition above :: "nat \<Rightarrow> msg \<Rightarrow> bool" where
  "above i m \<longleftrightarrow> (case slot_of m of Some j \<Rightarrow> i \<le> j | None \<Rightarrow> True)"

definition below_set :: "nat \<Rightarrow> inbox \<Rightarrow> nat set" where
  "below_set i b = {j. j < i \<and> ib_slots b j \<noteq> None}"

lemma put_frame: "ib_slots (snd (inbox_put m b)) = ib_slots b" "ib_stop (snd (inbox_put m b)) = ib_stop b"
  by (simp_all add: inbox_put_def)

lemma send_keeps:
  assumes "above i m" "ib_slots b i = Some m'" "slot_of m' = Some i" "\<not> ib_stop b"
  shows "\<exists>m''. ib_slots (snd (inbox_send m b)) i = Some m'' \<and> slot_of m'' = Some i"
    "below_set i (snd (inbox_send m b)) = below_set i b" "\<not> ib_stop (snd (inbox_send m b))"
  using assms by (auto simp: inbox_send_def above_def below_set_def put_frame split: option.splits)

lemma sends_keep:
  assumes "list_all (above i) ms" "ib_slots b i = Some m'" "slot_of m' = Some i" "\<not> ib_stop b"
  shows "\<exists>m''. ib_slots (fold (\<lambda>m. snd \<circ> inbox_send m) ms b) i = Some m'' \<and> slot_of m'' = Some i"
    "below_set i (fold (\<lambda>m. snd \<circ> inbox_send m) ms b) = below_set i b"
    "\<not> ib_stop (fold (\<lambda>m. snd \<circ> inbox_send m) ms b)"
proof -
  have "(\<exists>m''. ib_slots (fold (\<lambda>m. snd \<circ> inbox_send m) ms b) i = Some m'' \<and> slot_of m'' = Some i)
    \<and> below_set i (fold (\<lambda>m. snd \<circ> inbox_send m) ms b) = below_set i b
    \<and> \<not> ib_stop (fold (\<lambda>m. snd \<circ> inbox_send m) ms b)"
    using assms
  proof (induction ms arbitrary: b m')
    case (Cons m ms)
    then have "above i m" "list_all (above i) ms" by simp_all
    from send_keeps [OF this(1) Cons.prems(2-)] Cons.IH [OF this(2)] show ?case by auto
  qed auto
  then show "\<exists>m''. ib_slots (fold (\<lambda>m. snd \<circ> inbox_send m) ms b) i = Some m'' \<and> slot_of m'' = Some i"
    "below_set i (fold (\<lambda>m. snd \<circ> inbox_send m) ms b) = below_set i b"
    "\<not> ib_stop (fold (\<lambda>m. snd \<circ> inbox_send m) ms b)" by blast+
qed

text \<open>A receive takes the message of slot \<open>i\<close>, or empties one below it.\<close>

lemma recv_progress:
  assumes "ib_slots b i = Some m" "i < 9" "\<not> ib_stop b"
  shows "fst (inbox_recv b) = Received m
    \<or> ib_slots (snd (inbox_recv b)) i = Some m \<and> \<not> ib_stop (snd (inbox_recv b))
       \<and> (\<exists>j \<in> below_set i b. below_set i (snd (inbox_recv b)) = below_set i b - {j})"
proof -
  have "List.find (\<lambda>j. ib_slots b j \<noteq> None) [0..<9] \<noteq> None"
    using assms(1,2) unfolding find_None_iff by (auto intro!: exI [of _ i])
  then obtain j where j: "first_slot b = Some j" by (auto simp: first_slot_def)
  then obtain n where n: "n < 9" "j = n" "ib_slots b n \<noteq> None" "\<forall>k < n. ib_slots b k = None"
    by (auto simp: first_slot_def find_Some_iff)
  have "j \<le> i" using n assms(1) by (metis not_le option.simps(3))
  have recv: "inbox_recv b = (Received (the (ib_slots b j)), b\<lparr>ib_slots := (ib_slots b)(j := None)\<rparr>)"
    using j assms(3) by (simp add: inbox_recv_def)
  show ?thesis
  proof (cases "j = i")
    case True
    then show ?thesis using recv assms(1) by simp
  next
    case False
    with \<open>j \<le> i\<close> n(2,3) have "j \<in> below_set i b" by (simp add: below_set_def)
    moreover have "below_set i (snd (inbox_recv b)) = below_set i b - {j}" by (auto simp: recv below_set_def)
    ultimately show ?thesis using recv assms(1,3) False by auto
  qed
qed

lemma rounds_deliver:
  assumes "ib_slots b i = Some m" "slot_of m = Some i" "i < 9" "\<not> ib_stop b"
    and "list_all (list_all (above i)) mss" "card (below_set i b) < length mss"
  shows "\<exists>m'. Received m' \<in> set (inbox_rounds mss b) \<and> slot_of m' = Some i"
  using assms
proof (induction mss arbitrary: b m)
  case (Cons ms mss)
  let ?t = "fold (\<lambda>m. snd \<circ> inbox_send m) ms b"
  have ms: "list_all (above i) ms" "list_all (list_all (above i)) mss" using Cons.prems(5) by simp_all
  note kept = sends_keep [OF ms(1) Cons.prems(1,2,4)]
  then obtain m' where m': "ib_slots ?t i = Some m'" "slot_of m' = Some i" by blast
  from recv_progress [OF m'(1) Cons.prems(3) kept(3)] show ?case
  proof
    assume "fst (inbox_recv ?t) = Received m'"
    then show ?thesis using m'(2) by (auto simp: case_prod_unfold Let_def)
  next
    assume next_state: "ib_slots (snd (inbox_recv ?t)) i = Some m' \<and> \<not> ib_stop (snd (inbox_recv ?t))
       \<and> (\<exists>j \<in> below_set i ?t. below_set i (snd (inbox_recv ?t)) = below_set i ?t - {j})"
    then obtain j where j: "j \<in> below_set i b" "below_set i (snd (inbox_recv ?t)) = below_set i b - {j}"
      using kept(2) by auto
    have "finite (below_set i b)" by (rule finite_subset [of _ "{..<i}"]) (auto simp: below_set_def)
    from card_Diff1_less [OF this j(1)] have "card (below_set i (snd (inbox_recv ?t))) < length mss"
      using Cons.prems(6) unfolding j(2) by simp
    from Cons.IH [OF _ m'(2) Cons.prems(3) _ ms(2) this] next_state show ?thesis
      by (auto simp: case_prod_unfold Let_def)
  qed
qed simp

text \<open>C27: No flood crowds out an urgent signal: once a process loss, a navigation, a prompt answer or a hint is in
  its slot, the receiver has its kind within as many receives as the slot has places before it, whatever else is
  sent between them, as long as nothing more urgent is; a crashed process is the very next receipt.\<close>

theorem urgent_signals_arrive:
  assumes "ingress_ok s" "\<not> ig_stop s" "slots s i = Some m"
    and "list_all (list_all (above i)) mss" "i < length mss"
  shows "\<exists>m'. Received m' \<in> set (ingress_rounds mss s) \<and> slot_of m' = Some i"
proof -
  have "i < 9" using assms(3) by (cases "i < 9") simp_all
  have "card (below_set i (inbox_of s)) \<le> card {..<i}" by (intro card_mono) (auto simp: below_set_def)
  with assms(5) have "card (below_set i (inbox_of s)) < length mss" by simp
  with rounds_deliver [of "inbox_of s" i m mss] \<open>i < 9\<close> assms slots_typed [OF assms(1,3)] show ?thesis
    by (simp add: rounds_view inbox_of_def)
qed

lemma urgent_signals_arrive_witness:
  "\<exists>m'. Received m' \<in> set (ingress_rounds [[Event Tick, Event (WindowVisible True)]]
      (snd (ingress_send (Event (WebProcessTerminated Crashed)) ingress_new))) \<and> slot_of m' = Some 0"
proof -
  let ?s = "snd (ingress_send (Event (WebProcessTerminated Crashed)) ingress_new)"
  have "slots ?s 0 = Some (Event (WebProcessTerminated Crashed))" "\<not> ig_stop ?s"
    by (simp_all add: slot_view ingress_send_def ingress_new_def mark_def try_queue_def CAPACITY_def reason_bits)
  from urgent_signals_arrive [OF send_view(3) [OF ingress_new_ok] this(2,1), of "[[Event Tick, Event (WindowVisible True)]]"]
  show ?thesis by (simp add: above_def)
qed

section \<open>Interleaved threads\<close>

text \<open>The receiver at the start of \<open>recv_timeout\<close>, about to look into slot \<open>i\<close> (9: waiting at the queue), or
  ended. Every sender has passed the stop check with its message (\<open>cf_checked\<close>) or has filled a slot and not yet
  queued its wake-up (\<open>cf_waking\<close> counts these).\<close>

datatype receiver = Start | Poll nat | Ended

record conf =
  cf_state :: ingress
  cf_checked :: "msg list"
  cf_waking :: nat
  cf_receiver :: receiver

definition conf_new :: conf where
  "conf_new = \<lparr>cf_state = ingress_new, cf_checked = [], cf_waking = 0, cf_receiver = Start\<rparr>"

inductive chan_step :: "conf \<Rightarrow> conf \<Rightarrow> bool" where
  send_check: "\<not> ig_stop (cf_state c) \<Longrightarrow> chan_step c (c\<lparr>cf_checked := m # cf_checked c\<rparr>)"
| send_mark: "m \<in> set (cf_checked c) \<Longrightarrow> mark m (cf_state c) = Marked s' \<Longrightarrow>
    chan_step c (c\<lparr>cf_state := s', cf_checked := remove1 m (cf_checked c), cf_waking := Suc (cf_waking c)\<rparr>)"
| send_refused: "m \<in> set (cf_checked c) \<Longrightarrow> mark m (cf_state c) = Refused \<Longrightarrow>
    chan_step c (c\<lparr>cf_checked := remove1 m (cf_checked c)\<rparr>)"
| send_plain: "m \<in> set (cf_checked c) \<Longrightarrow> mark m (cf_state c) = Plain \<Longrightarrow>
    chan_step c (c\<lparr>cf_state := snd (try_queue m (cf_state c)), cf_checked := remove1 m (cf_checked c)\<rparr>)"
| send_wake: "cf_waking c = Suc n \<Longrightarrow>
    chan_step c (c\<lparr>cf_state := snd (try_queue Wake (cf_state c)), cf_waking := n\<rparr>)"
| stop_flag: "chan_step c (c\<lparr>cf_state := (cf_state c)\<lparr>ig_stop := True\<rparr>, cf_waking := Suc (cf_waking c)\<rparr>)"
| recv_stopped: "cf_receiver c = Start \<Longrightarrow> ig_stop (cf_state c) \<Longrightarrow> chan_step c (c\<lparr>cf_receiver := Ended\<rparr>)"
| recv_start: "cf_receiver c = Start \<Longrightarrow> \<not> ig_stop (cf_state c) \<Longrightarrow> chan_step c (c\<lparr>cf_receiver := Poll 0\<rparr>)"
| recv_hit: "cf_receiver c = Poll i \<Longrightarrow> i < 9 \<Longrightarrow> poll_slot i (cf_state c) = (Some m, s') \<Longrightarrow>
    chan_step c (c\<lparr>cf_state := s', cf_receiver := Start\<rparr>)"
| recv_miss: "cf_receiver c = Poll i \<Longrightarrow> i < 9 \<Longrightarrow> poll_slot i (cf_state c) = (None, s') \<Longrightarrow>
    chan_step c (c\<lparr>cf_state := s', cf_receiver := Poll (Suc i)\<rparr>)"
| recv_queue: "cf_receiver c = Poll 9 \<Longrightarrow> ig_queue (cf_state c) = m # ms \<Longrightarrow>
    chan_step c (c\<lparr>cf_state := (cf_state c)\<lparr>ig_queue := ms\<rparr>, cf_receiver := Start\<rparr>)"
| recv_timeout: "cf_receiver c = Poll 9 \<Longrightarrow> ig_queue (cf_state c) = [] \<Longrightarrow> chan_step c (c\<lparr>cf_receiver := Start\<rparr>)"

inductive chan_reachable :: "conf \<Rightarrow> bool" where
  reach_new: "chan_reachable conf_new"
| reach_step: "chan_reachable c \<Longrightarrow> chan_step c c' \<Longrightarrow> chan_reachable c'"

text \<open>What a receiver has already passed by is announced in the queue, or about to be.\<close>

definition announced :: "conf \<Rightarrow> bool" where
  "announced c \<longleftrightarrow>
     (case cf_receiver c of
        Poll k \<Rightarrow>
          k \<le> 9 \<and> (ig_stop (cf_state c) \<or> (\<exists>i < k. slots (cf_state c) i \<noteq> None)
            \<longrightarrow> 0 < cf_waking c \<or> ig_queue (cf_state c) \<noteq> [])
      | _ \<Rightarrow> True)"

lemma try_queue_frame:
  "slots (snd (try_queue m s)) = slots s" "ig_stop (snd (try_queue m s)) = ig_stop s"
  "ig_queue s \<noteq> [] \<Longrightarrow> ig_queue (snd (try_queue m s)) \<noteq> []" "ig_queue (snd (try_queue Wake s)) \<noteq> []"
  by (auto simp: try_queue_def CAPACITY_def intro: slots_cong)

lemma chan_step_invariant:
  "chan_step c c' \<Longrightarrow> ingress_ok (cf_state c) \<Longrightarrow> announced c \<Longrightarrow> ingress_ok (cf_state c') \<and> announced c'"
proof (induction rule: chan_step.induct)
  case (send_mark m c s')
  then show ?case using mark_ok by (auto simp: announced_def split: receiver.splits)
next
  case (send_plain m c)
  then show ?case by (auto simp: announced_def try_queue_ok try_queue_frame split: receiver.splits)
next
  case (send_wake c n)
  then show ?case by (auto simp: announced_def try_queue_ok try_queue_frame split: receiver.splits)
next
  case (stop_flag c)
  then show ?case by (auto simp: announced_def ingress_ok_def hints_ok_def split: receiver.splits)
next
  case (recv_hit c i m s')
  then show ?case using poll_ok [of "cf_state c" i] by (simp add: announced_def)
next
  case (recv_miss c i s')
  then have h: "hints_ok (cf_state c)" by (simp add: ingress_ok_def)
  have "slots s' = (slots (cf_state c))(i := None)" using poll_spec [OF h recv_miss.hyps(2)] recv_miss.hyps(3) by simp
  with recv_miss show ?case
    using poll_ok [of "cf_state c" i] poll_frame [OF h, of i] by (auto simp: announced_def less_Suc_eq)
qed (auto simp: announced_def ingress_ok_def hints_ok_def split: receiver.splits)

lemma reachable_invariant: "chan_reachable c \<Longrightarrow> ingress_ok (cf_state c) \<and> announced c"
proof (induction rule: chan_reachable.induct)
  case reach_new
  then show ?case using ingress_new_ok by (simp add: conf_new_def announced_def)
next
  case (reach_step c c')
  then show ?case using chan_step_invariant by blast
qed

text \<open>C5: No wake-up is lost, however the threads interleave: when the receiver waits at an empty queue and no
  sender is on its way to queue a wake-up, every slot is empty and nobody has asked it to stop.\<close>

theorem no_wake_up_is_lost:
  assumes "chan_reachable c" "cf_receiver c = Poll 9" "ig_queue (cf_state c) = []" "cf_waking c = 0"
  shows "\<not> ig_stop (cf_state c) \<and> (\<forall>i. slots (cf_state c) i = None)"
proof -
  have "announced c" using reachable_invariant [OF assms(1)] by blast
  with assms(2-) have "\<not> ig_stop (cf_state c)" "\<forall>i < 9. slots (cf_state c) i = None" by (auto simp: announced_def)
  then show ?thesis by (metis slots_high)
qed

text \<open>A send without interruption is these steps.\<close>

lemma send_is_steps:
  assumes "\<not> ig_stop (cf_state c)"
  shows "chan_step\<^sup>*\<^sup>* c (c\<lparr>cf_state := snd (ingress_send m (cf_state c))\<rparr>)"
proof -
  let ?c1 = "c\<lparr>cf_checked := m # cf_checked c\<rparr>"
  have first: "chan_step c ?c1" using assms by (rule send_check)
  show ?thesis
  proof (cases "mark m (cf_state c)")
    case (Marked s')
    have "chan_step ?c1 (?c1\<lparr>cf_state := s', cf_checked := remove1 m (cf_checked ?c1), cf_waking := Suc (cf_waking ?c1)\<rparr>)"
      (is "chan_step _ ?c2") using Marked by (intro send_mark) simp_all
    moreover have "chan_step ?c2 (?c2\<lparr>cf_state := snd (try_queue Wake (cf_state ?c2)), cf_waking := cf_waking c\<rparr>)"
      by (intro send_wake) simp
    ultimately show ?thesis using first Marked assms by (simp add: ingress_send_def)
  next
    case Refused
    then have "chan_step ?c1 (?c1\<lparr>cf_checked := remove1 m (cf_checked ?c1)\<rparr>)" by (intro send_refused) simp_all
    with first Refused assms show ?thesis by (simp add: ingress_send_def)
  next
    case Plain
    then have "chan_step ?c1 (?c1\<lparr>cf_state := snd (try_queue m (cf_state ?c1)), cf_checked := remove1 m (cf_checked ?c1)\<rparr>)"
      by (intro send_plain) simp_all
    with first Plain assms show ?thesis by (simp add: ingress_send_def)
  qed
qed

text \<open>A receive without interruption is these steps.\<close>

lemma same_receiver: "cf_receiver c = r \<Longrightarrow> c\<lparr>cf_receiver := r\<rparr> = c"
  "cf_receiver c = r \<Longrightarrow> c\<lparr>cf_state := t, cf_receiver := r\<rparr> = c\<lparr>cf_state := t\<rparr>"
  by (cases c; simp)+

lemma poll_steps:
  assumes "i \<le> 9" "cf_receiver c = Poll i"
  shows "chan_step\<^sup>*\<^sup>* c (c\<lparr>cf_state := snd (poll_slots [i..<9] (cf_state c)),
    cf_receiver := (if fst (poll_slots [i..<9] (cf_state c)) = None then Poll 9 else Start)\<rparr>)"
  using assms
proof (induction "9 - i" arbitrary: i c)
  case 0
  then show ?case by (simp add: same_receiver)
next
  case (Suc n)
  then have i: "i < 9" by simp
  then have list: "[i..<9] = i # [Suc i..<9]" by (simp add: upt_conv_Cons)
  obtain v s' where poll: "poll_slot i (cf_state c) = (v, s')" by fastforce
  show ?case
  proof (cases v)
    case None
    then have "chan_step c (c\<lparr>cf_state := s', cf_receiver := Poll (Suc i)\<rparr>)" (is "chan_step c ?c1")
      using Suc.prems(2) i poll by (intro recv_miss) simp_all
    moreover have "n = 9 - Suc i" using Suc.hyps(2) by simp
    from Suc.hyps(1) [OF this, of ?c1] i have "chan_step\<^sup>*\<^sup>* ?c1 (?c1\<lparr>cf_state := snd (poll_slots [Suc i..<9] s'),
        cf_receiver := (if fst (poll_slots [Suc i..<9] s') = None then Poll 9 else Start)\<rparr>)" by simp
    ultimately show ?thesis using poll None by (simp add: list converse_rtranclp_into_rtranclp)
  next
    case (Some m)
    then have "chan_step c (c\<lparr>cf_state := s', cf_receiver := Start\<rparr>)"
      using Suc.prems(2) i poll by (intro recv_hit) simp_all
    then show ?thesis using poll Some by (simp add: list)
  qed
qed

lemma recv_is_steps:
  assumes "cf_receiver c = Start" "\<not> ig_stop (cf_state c)"
  shows "chan_step\<^sup>*\<^sup>* c (c\<lparr>cf_state := snd (ingress_recv (cf_state c))\<rparr>)"
proof -
  let ?c1 = "c\<lparr>cf_receiver := Poll 0\<rparr>"
  obtain v t where poll: "poll_slots [0..<9] (cf_state c) = (v, t)" by fastforce
  have "chan_step c ?c1" using assms by (rule recv_start)
  moreover have "chan_step\<^sup>*\<^sup>* ?c1 (?c1\<lparr>cf_state := t, cf_receiver := (if v = None then Poll 9 else Start)\<rparr>)" (is "chan_step\<^sup>*\<^sup>* _ ?c2")
    using poll_steps [of 0 ?c1] poll by simp
  ultimately have polled: "chan_step\<^sup>*\<^sup>* c ?c2" by (rule converse_rtranclp_into_rtranclp)
  show ?thesis
  proof (cases v)
    case (Some m)
    then have "ingress_recv (cf_state c) = (Received m, t)" using assms(2) poll by (simp add: ingress_recv_def)
    with polled Some show ?thesis by (simp add: same_receiver(2) [OF assms(1)])
  next
    case None
    have "chan_step ?c2 (c\<lparr>cf_state := snd (ingress_recv (cf_state c))\<rparr>)"
    proof (cases "ig_queue t")
      case Nil
      then have "chan_step ?c2 (?c2\<lparr>cf_receiver := Start\<rparr>)" using None by (intro recv_timeout) simp_all
      then show ?thesis using Nil None poll assms by (simp add: ingress_recv_def same_receiver(2))
    next
      case (Cons m ms)
      then have "chan_step ?c2 (?c2\<lparr>cf_state := (cf_state ?c2)\<lparr>ig_queue := ms\<rparr>, cf_receiver := Start\<rparr>)"
        using None by (intro recv_queue) simp_all
      then show ?thesis using Cons None poll assms by (simp add: ingress_recv_def same_receiver(2))
    qed
    with polled show ?thesis by (rule rtranclp.rtrancl_into_rtrancl)
  qed
qed

lemma idle_poll: "i < 9 \<Longrightarrow> poll_slot i ingress_new = (None, ingress_new)"
  unfolding nine by (elim disjE) (simp_all add: poll_slot_def poll_reason_def poll_hint_def ingress_new_def Let_def)

lemma idle_receiver_waits: "k \<le> 9 \<Longrightarrow> chan_reachable (conf_new\<lparr>cf_receiver := Poll k\<rparr>)"
proof (induction k)
  case 0
  have "chan_step conf_new (conf_new\<lparr>cf_receiver := Poll 0\<rparr>)"
    by (rule recv_start) (simp_all add: conf_new_def ingress_new_def)
  with reach_new show ?case by (rule reach_step)
next
  case (Suc k)
  then have "chan_reachable (conf_new\<lparr>cf_receiver := Poll k\<rparr>)" by simp
  moreover have "chan_step (conf_new\<lparr>cf_receiver := Poll k\<rparr>)
      ((conf_new\<lparr>cf_receiver := Poll k\<rparr>)\<lparr>cf_state := ingress_new, cf_receiver := Poll (Suc k)\<rparr>)"
    using Suc.prems by (intro recv_miss) (simp_all add: conf_new_def idle_poll)
  ultimately show ?case using reach_step by (fastforce simp: conf_new_def)
qed

lemma no_wake_up_is_lost_witness: "slots (cf_state (conf_new\<lparr>cf_receiver := Poll 9\<rparr>)) 3 = None"
  using no_wake_up_is_lost [OF idle_receiver_waits [of 9]] by (simp add: conf_new_def ingress_new_def)

end
