(* ===== verification/Fs_Allowlist.thy ===== *)
theory Fs_Allowlist
  imports Rust_Std
begin

text \<open>
  The gate every file command of the desktop application passes
  (\<^verbatim>\<open>src-tauri/src/fs_allowlist.rs\<close>), on Unix. A \<open>Path\<close> is its text; \<open>components\<close>, \<open>parent\<close>, \<open>push\<close>,
  \<open>pop\<close> and \<open>starts_with\<close> are the standard library's. The operating system is a parameter: \<open>canon\<close> is
  \<open>canonicalize\<close> (\<open>None\<close> when it fails), \<open>cwd\<close> the current directory. What is assumed of \<open>canon\<close> is
  \<open>lawful\<close>. Errors are the constructors of \<open>fs_error\<close>.
\<close>

section \<open>Paths\<close>

abbreviation slash :: byte where "slash \<equiv> 0x2F"
abbreviation dot :: byte where "dot \<equiv> 0x2E"

datatype component = RootDir | CurDir | ParentDir | Normal rstring

text \<open>The pieces of a text between its separators.\<close>

fun segs :: "rstring \<Rightarrow> rstring list" where
  "segs [] = [[]]"
| "segs (b # p) = (if b = slash then [] # segs p else (b # hd (segs p)) # tl (segs p))"

definition seg_comp :: "rstring \<Rightarrow> component list" where
  "seg_comp s =
     (if s = [] \<or> s = [dot] then [] else if s = [dot, dot] then [ParentDir] else [Normal s])"

definition is_absolute :: "rstring \<Rightarrow> bool" where
  "is_absolute p \<longleftrightarrow> p \<noteq> [] \<and> hd p = slash"

definition components :: "rstring \<Rightarrow> component list" where
  "components p =
     (if is_absolute p then [RootDir] else if hd (segs p) = [dot] then [CurDir] else [])
     @ concat (map seg_comp (segs p))"

text \<open>A reversed path without trailing separators and trailing \<open>.\<close> pieces.\<close>

fun trim_rev :: "rstring \<Rightarrow> rstring" where
  "trim_rev (c # d # r) =
     (if c = slash then trim_rev (d # r)
      else if c = dot \<and> d = slash then trim_rev (d # r) else c # d # r)"
| "trim_rev r = r"

definition parent :: "rstring \<Rightarrow> rstring option" where
  "parent p =
     (let t = trim_rev (rev p) in
      if t = [] \<or> t = [slash] then None
      else Some (rev (trim_rev (dropWhile (\<lambda>c. c \<noteq> slash) t))))"

definition push :: "rstring \<Rightarrow> rstring \<Rightarrow> rstring" where
  "push p s =
     (if is_absolute s then s
      else if p \<noteq> [] \<and> last p \<noteq> slash then p @ slash # s else p @ s)"

definition pop :: "rstring \<Rightarrow> rstring" where
  "pop p = (case parent p of Some q \<Rightarrow> q | None \<Rightarrow> p)"

definition starts_with :: "rstring \<Rightarrow> rstring \<Rightarrow> bool" where
  "starts_with p root \<longleftrightarrow> prefix (components root) (components p)"

lemma segs_not_Nil [simp]: "segs p \<noteq> []"
  by (cases p) auto

lemma segs_append: "segs (a @ slash # b) = segs a @ segs b"
  by (induction a) auto

lemma segs_plain: "slash \<notin> set s \<Longrightarrow> segs s = [s]"
  by (induction s) auto

lemma hd_segs_append: "hd (segs (a @ slash # b)) = hd (segs a)"
  by (simp add: segs_append)

lemma seg_comp_simps [simp]: "seg_comp [] = []" "seg_comp [dot] = []" "seg_comp [dot, dot] = [ParentDir]"
  by (simp_all add: seg_comp_def)

lemma components_append:
  "components (a @ slash # b) = (if a = [] then [RootDir] else components a) @ concat (map seg_comp (segs b))"
  by (cases a) (auto simp: components_def segs_append is_absolute_def hd_append)

lemma trim_rev_keeps: "t \<noteq> [] \<Longrightarrow> trim_rev t \<noteq> [] \<and> last (trim_rev t) = last t"
  by (induction t rule: trim_rev.induct) auto

lemma length_trim_rev: "length (trim_rev t) \<le> length t"
  by (induction t rule: trim_rev.induct) auto

lemma trim_rev_stops:
  "trim_rev t = [] \<or> trim_rev t = [slash] \<or> hd (trim_rev t) \<noteq> slash \<and> (\<forall>u. trim_rev t \<noteq> dot # slash # u)"
  by (induction t rule: trim_rev.induct) auto

lemma components_trim: "components (rev (trim_rev t)) = components (rev t)"
proof (induction t rule: trim_rev.induct)
  case (1 c d r)
  have drop: "components (rev (d # r) @ [slash]) = components (rev (d # r))"
    using components_append [of "rev (d # r)" "[]"] by simp
  have dotted: "components (rev r @ [slash, dot]) = components (rev r @ [slash])"
    using components_append [of "rev r" "[dot]"] components_append [of "rev r" "[]"] by simp
  show ?case using 1 drop dotted by auto
qed auto

text \<open>The last piece of a trimmed path, and what is before it.\<close>

lemma trimmed_split:
  assumes "is_absolute p" and t: "t = trim_rev (rev p)" and "t \<noteq> [slash]"
  obtains u s where "t = rev s @ slash # u" "slash \<notin> set s" "s \<noteq> []" "s \<noteq> [dot]"
    "dropWhile (\<lambda>c. c \<noteq> slash) t = slash # u"
proof -
  from assms(1) have "rev p \<noteq> []" "last (rev p) = slash" by (auto simp: is_absolute_def last_rev)
  with t trim_rev_keeps [of "rev p"] have ne: "t \<noteq> []" "last t = slash" by auto
  let ?u = "dropWhile (\<lambda>c. c \<noteq> slash) t" and ?s = "takeWhile (\<lambda>c. c \<noteq> slash) t"
  have "slash \<in> set t" using ne last_in_set by metis
  then have u: "?u \<noteq> []" by (auto simp: dropWhile_eq_Nil_conv)
  then have "hd ?u = slash" using hd_dropWhile [of "\<lambda>c. c \<noteq> slash" t] by simp
  with u have u': "?u = slash # tl ?u" by (metis list.collapse)
  have split: "t = ?s @ slash # tl ?u" using u' takeWhile_dropWhile_id by metis
  have "slash \<notin> set ?s" using set_takeWhileD by metis
  moreover have "?s \<noteq> []"
    using split trim_rev_stops [of "rev p"] ne assms(3) t by (metis append_Nil list.sel(1))
  moreover have "?s \<noteq> [dot]"
  proof
    assume "?s = [dot]"
    with split have d: "t = dot # slash # tl ?u" by (metis append_Cons append_Nil)
    with trim_rev_stops [of "rev p"] t show False by (metis list.distinct(1) list.inject)
  qed
  ultimately show thesis
    using that [of "rev ?s" "tl ?u"] split u' by (auto simp: rev_singleton_conv)
qed

lemma parent_shorter:
  assumes "parent p = Some q" shows "length q < length p"
proof -
  let ?t = "trim_rev (rev p)"
  from assms have t: "?t \<noteq> []" "?t \<noteq> [slash]"
    and q: "q = rev (trim_rev (dropWhile (\<lambda>c. c \<noteq> slash) ?t))"
    by (auto simp: parent_def Let_def split: if_splits)
  from t trim_rev_stops [of "rev p"] have "hd ?t \<noteq> slash" by auto
  then have d: "dropWhile (\<lambda>c. c \<noteq> slash) ?t = dropWhile (\<lambda>c. c \<noteq> slash) (tl ?t)"
    using t(1) by (cases ?t) auto
  have "length q \<le> length (dropWhile (\<lambda>c. c \<noteq> slash) ?t)" using q length_trim_rev by simp
  also have "\<dots> \<le> length (tl ?t)" unfolding d by (rule length_dropWhile_le)
  also have "\<dots> < length ?t" using t(1) by (cases ?t) auto
  also have "\<dots> \<le> length p" using length_trim_rev [of "rev p"] by simp
  finally show ?thesis .
qed

lemma parent_SomeD:
  assumes "is_absolute p" and "parent p = Some q"
  shows "is_absolute q"
    and "\<exists>s. slash \<notin> set s \<and> s \<noteq> [] \<and> s \<noteq> [dot] \<and> components p = components q @ seg_comp s"
proof -
  let ?t = "trim_rev (rev p)"
  from assms(2) have t: "?t \<noteq> [slash]" and q: "q = rev (trim_rev (dropWhile (\<lambda>c. c \<noteq> slash) ?t))"
    by (auto simp: parent_def Let_def split: if_splits)
  obtain u s
    where s: "?t = rev s @ slash # u" "slash \<notin> set s" "s \<noteq> []" "s \<noteq> [dot]"
      and u: "dropWhile (\<lambda>c. c \<noteq> slash) ?t = slash # u"
    using trimmed_split [OF assms(1) refl t] by metis
  have pabs: "p \<noteq> []" "last (rev p) = slash" using assms(1) by (auto simp: is_absolute_def last_rev)
  then have "last ?t = slash" using trim_rev_keeps [of "rev p"] by simp
  then have "last (slash # u) = slash" unfolding s(1) by simp
  with trim_rev_keeps [of "slash # u"] show "is_absolute q"
    using q u by (auto simp: is_absolute_def hd_rev)
  have "components p = components (rev ?t)" using components_trim [of "rev p"] by simp
  also have "\<dots> = components (rev u @ slash # s)" using s(1) by simp
  also have "\<dots> = components (rev u @ [slash]) @ seg_comp s"
    using components_append [of "rev u" s] components_append [of "rev u" "[]"] segs_plain [OF s(2)]
    by (auto split: if_splits)
  also have "components (rev u @ [slash]) = components q"
    using components_trim [of "slash # u"] q u by simp
  finally show "\<exists>s. slash \<notin> set s \<and> s \<noteq> [] \<and> s \<noteq> [dot] \<and> components p = components q @ seg_comp s"
    using s by blast
qed

lemma parent_None_root:
  assumes "is_absolute p" and "parent p = None"
  shows "components p = [RootDir]"
proof -
  from assms(1) have "rev p \<noteq> []" by (auto simp: is_absolute_def)
  with trim_rev_keeps assms(2) have "trim_rev (rev p) = [slash]"
    by (auto simp: parent_def Let_def split: if_splits)
  then have "components [slash] = components p" using components_trim [of "rev p"] by simp
  then show ?thesis by (simp add: components_def is_absolute_def)
qed

section \<open>The gate\<close>

datatype fs_error =
    No_Working_Directory rstring rstring
  | Outside_Roots rstring "rstring list"
  | Not_A_Name rstring rstring
  | Not_A_Component rstring "component option"
  | Lock_Poisoned

definition to_absolute_raw :: "rstring + rstring \<Rightarrow> rstring \<Rightarrow> fs_error + rstring" where
  "to_absolute_raw cwd input =
     (if is_absolute input then Inr input
      else case cwd of
        Inl e \<Rightarrow> Inl (No_Working_Directory input e)
      | Inr dir \<Rightarrow> Inr (from_utf8_lossy dir @ slash # input))"

definition tail_step :: "rstring \<Rightarrow> rstring \<Rightarrow> rstring" where
  "tail_step result c = (if c = [dot, dot] then pop result else push result c)"

definition append_tail :: "rstring \<Rightarrow> rstring list \<Rightarrow> rstring" where
  "append_tail result tail = foldl tail_step result (rev tail)"

definition last_name :: "rstring \<Rightarrow> rstring list" where
  "last_name p =
     (if components p = [] then []
      else case last (components p) of
        Normal name \<Rightarrow> [name] | ParentDir \<Rightarrow> [[dot, dot]] | _ \<Rightarrow> [])"

function real_or_nearest_ancestor_of ::
  "(rstring \<Rightarrow> rstring option) \<Rightarrow> rstring \<Rightarrow> rstring list \<Rightarrow> rstring" where
  "real_or_nearest_ancestor_of canon p tail =
     (case canon p of
        Some real \<Rightarrow> append_tail real tail
      | None \<Rightarrow>
          (case parent p of
             Some q \<Rightarrow>
               if components q \<noteq> components p
               then real_or_nearest_ancestor_of canon q (tail @ last_name p)
               else append_tail p tail
           | None \<Rightarrow> append_tail p tail))"
  by pat_completeness auto
termination
  by (relation "measure (\<lambda>(canon, p, tail). length p)") (auto simp: parent_shorter)

declare real_or_nearest_ancestor_of.simps [simp del]

definition real_or_nearest_ancestor ::
  "rstring + rstring \<Rightarrow> (rstring \<Rightarrow> rstring option) \<Rightarrow> rstring \<Rightarrow> fs_error + rstring" where
  "real_or_nearest_ancestor cwd canon path =
     map_sum id (\<lambda>absolute. real_or_nearest_ancestor_of canon absolute []) (to_absolute_raw cwd path)"

definition check_within :: "rstring \<Rightarrow> rstring \<Rightarrow> rstring list \<Rightarrow> fs_error + unit" where
  "check_within real path roots =
     (if list_ex (starts_with real) roots then Inr ()
      else Inl (Outside_Roots path (map from_utf8_lossy roots)))"

definition assert_within_allowed_roots ::
  "rstring + rstring \<Rightarrow> (rstring \<Rightarrow> rstring option) \<Rightarrow> rstring \<Rightarrow> rstring list \<Rightarrow> fs_error + rstring" where
  "assert_within_allowed_roots cwd canon path roots =
     (case real_or_nearest_ancestor cwd canon path of
        Inl e \<Rightarrow> Inl e
      | Inr real \<Rightarrow> map_sum id (\<lambda>_. real) (check_within real path roots))"

definition last_segment :: "rstring \<Rightarrow> rstring" where
  "last_segment path = last (segs (rev (dropWhile (\<lambda>c. c = slash) (rev path))))"

definition assert_entry_within_allowed_roots ::
  "rstring + rstring \<Rightarrow> (rstring \<Rightarrow> rstring option) \<Rightarrow> rstring \<Rightarrow> rstring list \<Rightarrow> fs_error + rstring" where
  "assert_entry_within_allowed_roots cwd canon path roots =
     (if last_segment path \<in> {[], [dot], [dot, dot]} then Inl (Not_A_Name path (last_segment path))
      else case to_absolute_raw cwd path of
        Inl e \<Rightarrow> Inl e
      | Inr absolute \<Rightarrow>
          (case (if components absolute = [] then None else Some (last (components absolute))) of
             Some (Normal name) \<Rightarrow>
               (let parent_real = real_or_nearest_ancestor_of canon (the (parent absolute)) [] in
                map_sum id (\<lambda>_. push parent_real name) (check_within parent_real path roots))
           | c \<Rightarrow> Inl (Not_A_Component path c)))"

text \<open>The open workspace roots, behind a lock that a panic while it is held poisons.\<close>

record allowed_roots =
  ar_roots :: "rstring list"
  ar_poisoned :: bool

definition register_allowed_root ::
  "rstring + rstring \<Rightarrow> (rstring \<Rightarrow> rstring option) \<Rightarrow> rstring \<Rightarrow> allowed_roots
     \<Rightarrow> (fs_error + rstring) \<times> allowed_roots" where
  "register_allowed_root cwd canon path st =
     (case real_or_nearest_ancestor cwd canon path of
        Inl e \<Rightarrow> (Inl e, st)
      | Inr real \<Rightarrow>
          if ar_poisoned st then (Inl Lock_Poisoned, st)
          else if list_ex (\<lambda>r. components r = components real) (ar_roots st) then (Inr real, st)
          else (Inr real, st\<lparr>ar_roots := ar_roots st @ [real]\<rparr>))"

fun resolve_roots ::
  "rstring + rstring \<Rightarrow> (rstring \<Rightarrow> rstring option) \<Rightarrow> rstring list \<Rightarrow> fs_error + rstring list" where
  "resolve_roots cwd canon [] = Inr []"
| "resolve_roots cwd canon (root # roots) =
     (case real_or_nearest_ancestor cwd canon root of
        Inl e \<Rightarrow> Inl e
      | Inr real \<Rightarrow> map_sum id ((#) real) (resolve_roots cwd canon roots))"

definition fs_set_allowed_roots ::
  "rstring + rstring \<Rightarrow> (rstring \<Rightarrow> rstring option) \<Rightarrow> rstring list \<Rightarrow> allowed_roots
     \<Rightarrow> (fs_error + unit) \<times> allowed_roots" where
  "fs_set_allowed_roots cwd canon roots st =
     (case resolve_roots cwd canon roots of
        Inl e \<Rightarrow> (Inl e, st)
      | Inr resolved \<Rightarrow>
          if ar_poisoned st then (Inl Lock_Poisoned, st)
          else (Inr (), st\<lparr>ar_roots := resolved\<rparr>))"

section \<open>What the walk over the ancestors computes\<close>

definition plain :: "rstring \<Rightarrow> bool" where
  "plain s \<longleftrightarrow> slash \<notin> set s \<and> s \<notin> {[], [dot], [dot, dot]}"

definition trimmed :: "rstring \<Rightarrow> bool" where
  "trimmed p \<longleftrightarrow> is_absolute p \<and> trim_rev (rev p) = rev p"

definition clean :: "rstring \<Rightarrow> bool" where
  "clean p \<longleftrightarrow> is_absolute p \<and> ParentDir \<notin> set (components p)"

lemma plain_comp: "plain s \<Longrightarrow> seg_comp s = [Normal s]"
  by (simp add: plain_def seg_comp_def)

lemma plain_not_absolute: "plain s \<Longrightarrow> \<not> is_absolute s"
  by (cases s) (auto simp: plain_def is_absolute_def)

lemma segs_no_slash: "s \<in> set (segs p) \<Longrightarrow> slash \<notin> set s"
proof (induction p arbitrary: s)
  case (Cons b p)
  have "hd (segs p) \<in> set (segs p)" by simp
  moreover have "x \<in> set (tl (segs p)) \<Longrightarrow> x \<in> set (segs p)" for x by (cases "segs p") auto
  ultimately show ?case using Cons by (auto split: if_splits)
qed simp

lemma Normal_plain: "Normal s \<in> set (components p) \<Longrightarrow> plain s"
  using segs_no_slash [of _ p] by (auto simp: components_def seg_comp_def plain_def split: if_splits)

lemma push_absolute: "is_absolute p \<Longrightarrow> is_absolute (push p s)"
  by (auto simp: push_def is_absolute_def)

lemma push_components:
  assumes "is_absolute p" and "plain s"
  shows "components (push p s) = components p @ [Normal s]"
proof (cases "last p = slash")
  case False
  then show ?thesis
    using assms components_append [of p s] plain_not_absolute [OF assms(2)] segs_plain [of s]
    by (auto simp: push_def is_absolute_def plain_comp plain_def)
next
  case True
  then obtain a where p: "p = a @ [slash]"
    using assms(1) by (cases p rule: rev_cases) (auto simp: is_absolute_def)
  have "push p s = a @ slash # s" using p plain_not_absolute [OF assms(2)] by (simp add: push_def)
  then show ?thesis
    using p components_append [of a s] components_append [of a "[]"] segs_plain [of s] assms(2)
    by (auto simp: plain_comp plain_def)
qed

lemma hd_components: "is_absolute p \<Longrightarrow> components p \<noteq> [] \<and> hd (components p) = RootDir"
  by (simp add: components_def)

lemma pop_absolute: "is_absolute p \<Longrightarrow> is_absolute (pop p)"
  by (auto simp: pop_def dest: parent_SomeD(1) split: option.split)

text \<open>The parent of an absolute path is the path without its last piece.\<close>

lemma parent_components:
  assumes "is_absolute p" and "parent p = Some q"
  obtains s where "components p = components q @ [hd (seg_comp s)]" "last_name p = [s]"
    "plain s \<and> hd (seg_comp s) = Normal s \<or> s = [dot, dot] \<and> hd (seg_comp s) = ParentDir"
proof -
  from parent_SomeD(2) [OF assms] obtain s where s: "slash \<notin> set s" "s \<noteq> []" "s \<noteq> [dot]"
    and c: "components p = components q @ seg_comp s" by blast
  show thesis
  proof (cases "s = [dot, dot]")
    case True
    with c show thesis by (intro that [of s]) (simp_all add: last_name_def)
  next
    case False
    with s have "plain s" by (simp add: plain_def)
    with c show thesis by (intro that [of s]) (simp_all add: last_name_def plain_comp)
  qed
qed

lemma pop_components:
  assumes "is_absolute p"
  shows "components (pop p) = (if components p = [RootDir] then [RootDir] else butlast (components p))"
proof (cases "parent p")
  case None
  then show ?thesis using parent_None_root [OF assms None] by (simp add: pop_def)
next
  case (Some q)
  then show ?thesis
    using parent_components [OF assms Some] hd_components [OF parent_SomeD(1) [OF assms Some]]
    by (metis (no_types, lifting) append_eq_Cons_conv append_is_Nil_conv butlast_snoc list.distinct(1)
        option.simps(5) pop_def)
qed

text \<open>Without its accumulator, the walk is a recursion on the parents.\<close>

abbreviation resolve :: "(rstring \<Rightarrow> rstring option) \<Rightarrow> rstring \<Rightarrow> rstring" where
  "resolve canon p \<equiv> real_or_nearest_ancestor_of canon p []"

lemma append_tail_append: "append_tail r (t @ u) = append_tail (append_tail r u) t"
  by (simp add: append_tail_def)

lemma append_tail_Nil [simp]: "append_tail r [] = r"
  by (simp add: append_tail_def)

lemma walk_tail: "real_or_nearest_ancestor_of canon p tail = append_tail (resolve canon p) tail"
proof (induction p arbitrary: tail rule: length_induct)
  case (1 p)
  let ?walk = "real_or_nearest_ancestor_of canon"
  show ?case
  proof (cases "canon p = None \<and> (\<exists>q. parent p = Some q \<and> components q \<noteq> components p)")
    case True
    then obtain q where q: "canon p = None" "parent p = Some q" "components q \<noteq> components p" by blast
    have IH: "?walk q t = append_tail (resolve canon q) t" for t
      using "1" parent_shorter [OF q(2)] by blast
    have "?walk p t = append_tail (resolve canon q) (t @ last_name p)" for t
      using q IH [of "t @ last_name p"] by (subst real_or_nearest_ancestor_of.simps) simp
    then show ?thesis by (simp add: append_tail_append)
  next
    case False
    then have "?walk p t = append_tail (case canon p of Some r \<Rightarrow> r | None \<Rightarrow> p) t" for t
      by (subst real_or_nearest_ancestor_of.simps) (auto split: option.splits)
    then show ?thesis by simp
  qed
qed

lemma resolve_real: "canon p = Some r \<Longrightarrow> resolve canon p = r"
  by (subst real_or_nearest_ancestor_of.simps) simp

lemma resolve_top: "canon p = None \<Longrightarrow> parent p = None \<Longrightarrow> resolve canon p = p"
  by (subst real_or_nearest_ancestor_of.simps) simp

lemma resolve_step:
  assumes "is_absolute p" and "canon p = None" and "parent p = Some q"
  obtains s where "resolve canon p = tail_step (resolve canon q) s"
    "components p = components q @ [hd (seg_comp s)]" 
    "plain s \<and> hd (seg_comp s) = Normal s \<or> s = [dot, dot] \<and> hd (seg_comp s) = ParentDir"
proof -
  from parent_components [OF assms(1,3)] obtain s where s: "components p = components q @ [hd (seg_comp s)]"
    "last_name p = [s]"
    "plain s \<and> hd (seg_comp s) = Normal s \<or> s = [dot, dot] \<and> hd (seg_comp s) = ParentDir" by metis
  have "resolve canon p = append_tail (resolve canon q) [s]"
    using s assms walk_tail [of canon q "[s]"] by (subst real_or_nearest_ancestor_of.simps) simp
  then show thesis using that s by (simp add: append_tail_def)
qed

section \<open>What is assumed of the operating system\<close>

text \<open>\<open>canonicalize\<close> answers with absolute paths without \<open>..\<close> that are their own canonical form.\<close>

definition canonical_results :: "(rstring \<Rightarrow> rstring option) \<Rightarrow> bool" where
  "canonical_results canon \<longleftrightarrow>
     (\<forall>p r. canon p = Some r \<longrightarrow> clean r \<and> trimmed r \<and> canon r = Some r)"

text \<open>It resolves a path piece by piece: a name in a directory means the same under the directory's
  canonical form, and nothing exists under what does not exist.\<close>

definition lawful :: "(rstring \<Rightarrow> rstring option) \<Rightarrow> bool" where
  "lawful canon \<longleftrightarrow>
     canonical_results canon
     \<and> (\<forall>p q r n. is_absolute p \<and> canon p = Some r \<and> trimmed q \<and> components q = components p @ [Normal n]
          \<longrightarrow> canon q = canon (push r n))
     \<and> (\<forall>p q. is_absolute q \<and> parent q = Some p \<and> canon p = None \<longrightarrow> canon q = None)"

lemma canonD:
  assumes "canonical_results canon" and "canon p = Some r"
  shows "is_absolute r" "ParentDir \<notin> set (components r)" "trimmed r" "canon r = Some r"
  using assms by (auto simp: canonical_results_def clean_def)

section \<open>The gate's contract\<close>

text \<open>Applying one piece lexically.\<close>

fun lexical :: "component list \<Rightarrow> component \<Rightarrow> component list" where
  "lexical cs ParentDir = (if cs = [RootDir] then cs else butlast cs)"
| "lexical cs c = cs @ [c]"

lemma tail_step_components:
  assumes "is_absolute r"
    and "plain s \<and> c = Normal s \<or> s = [dot, dot] \<and> c = ParentDir"
  shows "components (tail_step r s) = lexical (components r) c" and "is_absolute (tail_step r s)"
  using assms push_components [OF assms(1), of s] pop_components [OF assms(1)]
  by (auto simp: tail_step_def plain_def intro: push_absolute pop_absolute)

lemma lexical_keeps_clean:
  assumes "ParentDir \<notin> set cs" shows "ParentDir \<notin> set (lexical cs c)"
  using assms by (cases c) (auto dest: in_set_butlastD)

lemma resolve_components:
  assumes "is_absolute p" and "canonical_results canon"
  shows "is_absolute (resolve canon p) \<and>
     (\<exists>a rest base. components p = components a @ rest \<and> is_absolute a \<and>
        (canon a = Some base \<or> canon a = None \<and> base = a \<and> components a = [RootDir]) \<and>
        components (resolve canon p) = foldl lexical (components base) rest)"
  using assms(1)
proof (induction p rule: length_induct)
  case (1 p)
  show ?case
  proof (cases "canon p")
    case (Some r)
    then show ?thesis
      using resolve_real [of canon p r] Some canonD [OF assms(2) Some] 1(2)
      by (intro conjI exI [of _ p] exI [of _ "[]"] exI [of _ r]) simp_all
  next
    case None
    show ?thesis
    proof (cases "parent p")
      case None': None
      then show ?thesis
        using resolve_top [of canon p] parent_None_root [OF 1(2) None'] 1(2) None None'
        by (intro conjI exI [of _ p] exI [of _ "[]"]) simp_all
    next
      case (Some q)
      have q: "is_absolute q" by (rule parent_SomeD(1) [OF 1(2) Some])
      from "1"(1) parent_shorter [OF Some] q obtain a rest base where
        IH: "is_absolute (resolve canon q)" "components q = components a @ rest" "is_absolute a"
          "canon a = Some base \<or> canon a = None \<and> base = a \<and> components a = [RootDir]"
          "components (resolve canon q) = foldl lexical (components base) rest" by blast
      obtain s where s: "resolve canon p = tail_step (resolve canon q) s"
        "components p = components q @ [hd (seg_comp s)]"
        "plain s \<and> hd (seg_comp s) = Normal s \<or> s = [dot, dot] \<and> hd (seg_comp s) = ParentDir"
        using resolve_step [of p canon q] 1(2) None Some by metis
      note st = tail_step_components [OF IH(1) s(3)]
      show ?thesis
        using s st IH
        by (intro conjI exI [of _ a] exI [of _ "rest @ [hd (seg_comp s)]"] exI [of _ base]) simp_all
    qed
  qed
qed

lemma resolve_clean:
  assumes "is_absolute p" and "canonical_results canon"
  shows "clean (resolve canon p)"
proof -
  from resolve_components [OF assms] obtain a rest base where
    r: "is_absolute (resolve canon p)"
      "canon a = Some base \<or> canon a = None \<and> base = a \<and> components a = [RootDir]"
      "components (resolve canon p) = foldl lexical (components base) rest" by blast
  from r(2) have "ParentDir \<notin> set (components base)" using canonD [OF assms(2)] by auto
  then have "ParentDir \<notin> set (foldl lexical (components base) rest)"
    by (induction rest rule: rev_induct) (simp_all add: lexical_keeps_clean)
  with r show ?thesis by (simp add: clean_def)
qed

lemma to_absolute_raw_absolute:
  assumes "to_absolute_raw cwd path = Inr p" and "\<forall>dir. cwd = Inr dir \<longrightarrow> is_absolute dir"
  shows "is_absolute p"
proof (cases "is_absolute path")
  case False
  with assms(1) obtain dir where d: "cwd = Inr dir" "p = from_utf8_lossy dir @ slash # path"
    by (auto simp: to_absolute_raw_def split: sum.splits)
  with assms(2) obtain rest where "dir = slash # rest" by (cases dir) (auto simp: is_absolute_def)
  then have "from_utf8_lossy dir = slash # from_utf8_lossy rest"
    by (simp add: utf8_step_def utf8_char_width_def)
  with d show ?thesis by (simp add: is_absolute_def)
qed (use assms(1) in \<open>simp add: to_absolute_raw_def\<close>)

lemma check_within_InrD:
  "check_within real path roots = Inr u \<Longrightarrow> \<exists>root \<in> set roots. prefix (components root) (components real)"
  by (auto simp: check_within_def starts_with_def list_ex_iff split: if_splits)

text \<open>What an accepted path is.\<close>

lemma assert_within_InrD:
  assumes "assert_within_allowed_roots cwd canon path roots = Inr real"
  obtains p where "to_absolute_raw cwd path = Inr p" "real = resolve canon p"
    "\<exists>root \<in> set roots. prefix (components root) (components real)"
  using assms check_within_InrD [of real path roots]
  by (auto simp: assert_within_allowed_roots_def real_or_nearest_ancestor_def map_sum_def
      split: sum.splits)

lemma resolve_next:
  assumes "is_absolute p" and "canon p = None" and "parent p = Some q"
  shows "components p = components q @ [Normal n] \<Longrightarrow> resolve canon p = push (resolve canon q) n"
    and "components p = components q @ [ParentDir] \<Longrightarrow> resolve canon p = pop (resolve canon q)"
proof -
  obtain s where s: "resolve canon p = tail_step (resolve canon q) s"
    "components p = components q @ [hd (seg_comp s)]"
    "plain s \<and> hd (seg_comp s) = Normal s \<or> s = [dot, dot] \<and> hd (seg_comp s) = ParentDir"
    using resolve_step [of p canon q] assms by metis
  show "resolve canon p = push (resolve canon q) n" if "components p = components q @ [Normal n]"
    using s that by (auto simp: tail_step_def plain_def)
  show "resolve canon p = pop (resolve canon q)" if "components p = components q @ [ParentDir]"
    using s that by (auto simp: tail_step_def plain_def)
qed

text \<open>Trimmed paths: a plain name pushed on one is read back by \<open>parent\<close>.\<close>

lemma trimmed_push:
  assumes "trimmed x" and "plain n"
  shows "trimmed (push x n)" and "parent (push x n) = Some x"
proof -
  obtain m0 n0 where n0: "rev n = m0 # n0" using assms(2) by (cases "rev n") (auto simp: plain_def)
  have rn: "slash \<notin> set (rev n)" "rev n \<noteq> [dot]" using assms(2) by (auto simp: plain_def rev_singleton_conv)
  have stop: "trim_rev (rev n @ slash # u) = rev n @ slash # u" for u
    using rn n0 by (cases n0) auto
  have drop: "dropWhile (\<lambda>c. c \<noteq> slash) (rev n @ slash # u) = slash # u" for u
    using rn(1) by (subst dropWhile_append2) auto
  have x: "x \<noteq> []" "trim_rev (rev x) = rev x" "hd x = slash"
    using assms(1) by (auto simp: trimmed_def is_absolute_def)
  obtain u where u: "rev (push x n) = rev n @ slash # u" and xu: "trim_rev (slash # u) = rev x"
  proof (cases "last x = slash")
    case True
    then have "hd (rev x) = slash" using x(1) by (simp add: hd_rev)
    with x trim_rev_stops [of "rev x"] have "rev x = [slash]" by auto
    then have "x = [slash]" by (simp add: rev_singleton_conv)
    then show thesis
      using that [of "[]"] plain_not_absolute [OF assms(2)] by (simp add: push_def)
  next
    case False
    then obtain c r where cr: "rev x = c # r" using x(1) by (cases "rev x") auto
    show thesis
      using that [of "rev x"] plain_not_absolute [OF assms(2)] x False cr by (simp add: push_def)
  qed
  show "trimmed (push x n)"
    using u stop push_absolute assms(1) by (simp add: trimmed_def)
  have "rev n @ slash # u \<noteq> [slash]" using n0 by (cases n0) auto
  then show "parent (push x n) = Some x"
    unfolding parent_def Let_def u stop drop xu by simp
qed

lemma parent_trimmed:
  assumes "is_absolute p" and "parent p = Some q" shows "trimmed q"
proof -
  have idem: "trim_rev (trim_rev t) = trim_rev t" for t
    by (induction t rule: trim_rev.induct) auto
  show ?thesis
    using assms(2) parent_SomeD(1) [OF assms]
    by (auto simp: trimmed_def parent_def Let_def idem split: if_splits)
qed

text \<open>The walk on a path without \<open>..\<close>.\<close>

lemma resolve_plain:
  assumes "lawful canon" and "trimmed p" and "ParentDir \<notin> set (components p)"
  shows "trimmed (resolve canon p) \<and> canon (resolve canon p) = canon p"
  using assms(2,3)
proof (induction p rule: length_induct)
  case (1 p)
  have cr: "canonical_results canon" using assms(1) by (simp add: lawful_def)
  have ap: "is_absolute p" using 1(2) by (simp add: trimmed_def)
  show ?case
  proof (cases "canon p")
    case (Some r)
    then show ?thesis using resolve_real [of canon p r] canonD [OF cr Some] by simp
  next
    case None
    show ?thesis
    proof (cases "parent p")
      case None': None
      then show ?thesis using resolve_top [of canon p] None 1(2) by simp
    next
      case (Some q)
      have q: "trimmed q" "is_absolute q" using parent_trimmed [OF ap Some] by (simp_all add: trimmed_def)
      obtain s where s: "resolve canon p = tail_step (resolve canon q) s"
        "components p = components q @ [hd (seg_comp s)]"
        "plain s \<and> hd (seg_comp s) = Normal s \<or> s = [dot, dot] \<and> hd (seg_comp s) = ParentDir"
        using resolve_step [of p canon q] ap None Some by metis
      with 1(3) have n: "plain s" "components p = components q @ [Normal s]" "ParentDir \<notin> set (components q)"
        by auto
      from "1"(1) parent_shorter [OF Some] q n(3) have IH:
        "trimmed (resolve canon q)" "canon (resolve canon q) = canon q" by auto
      have step: "resolve canon p = push (resolve canon q) s"
        using s(1) n(1) by (auto simp: tail_step_def plain_def)
      note pushed = trimmed_push [OF IH(1) n(1)]
      have "canon (push (resolve canon q) s) = None"
      proof (cases "canon q")
        case None'': None
        with IH(2) have "canon (resolve canon q) = None" by simp
        moreover have "is_absolute (push (resolve canon q) s)" using pushed(1) by (simp add: trimmed_def)
        ultimately show ?thesis
          using assms(1) pushed(2) unfolding lawful_def by blast
      next
        case (Some r)
        then have "resolve canon q = r" by (rule resolve_real)
        with Some n(2) 1(2) q(2) assms(1) have "canon p = canon (push (resolve canon q) s)"
          unfolding lawful_def by blast
        with None show ?thesis by simp
      qed
      with step pushed None show ?thesis by simp
    qed
  qed
qed

section \<open>The name an entry command acts on\<close>

lemma pieces_rstrip:
  "concat (map seg_comp (segs (rev (dropWhile (\<lambda>c. c = slash) r)))) = concat (map seg_comp (segs (rev r)))"
proof (induction r)
  case (Cons c r)
  then show ?case using segs_append [of "rev r" "[]"] by simp
qed simp

lemma last_segment_component:
  assumes "last_segment path \<notin> {[], [dot], [dot, dot]}"
  shows "plain (last_segment path)"
    and "\<exists>cs. concat (map seg_comp (segs path)) = cs @ [Normal (last_segment path)]"
proof -
  let ?ss = "segs (rev (dropWhile (\<lambda>c. c = slash) (rev path)))"
  have "last_segment path \<in> set ?ss" by (simp add: last_segment_def)
  with assms show p: "plain (last_segment path)" using segs_no_slash by (simp add: plain_def)
  have "?ss = butlast ?ss @ [last_segment path]" by (simp add: last_segment_def)
  then have "concat (map seg_comp ?ss)
      = concat (map seg_comp (butlast ?ss @ [last_segment path]))" by (rule arg_cong)
  also have "\<dots> = concat (map seg_comp (butlast ?ss)) @ [Normal (last_segment path)]"
    using plain_comp [OF p] by simp
  finally have "concat (map seg_comp ?ss)
      = concat (map seg_comp (butlast ?ss)) @ [Normal (last_segment path)]" .
  then show "\<exists>cs. concat (map seg_comp (segs path)) = cs @ [Normal (last_segment path)]"
    using pieces_rstrip [of "rev path"] by simp
qed

lemma entry_component:
  assumes "last_segment path \<notin> {[], [dot], [dot, dot]}" and "to_absolute_raw cwd path = Inr p"
  shows "\<exists>cs. components p = cs @ [Normal (last_segment path)]"
proof -
  have "\<exists>dir. p = path \<or> p = dir @ slash # path"
    using assms(2) by (auto simp: to_absolute_raw_def split: if_splits sum.splits)
  then show ?thesis
    using last_segment_component(2) [OF assms(1)] components_append [of _ path]
    by (auto simp: components_def [of path])
qed

section \<open>Properties\<close>

text \<open>A small file system for the witnesses: \<^verbatim>\<open>/ws\<close>, and \<^verbatim>\<open>/ws/link\<close> which leads to \<^verbatim>\<open>/etc\<close>.\<close>

definition small_fs :: "rstring \<Rightarrow> rstring option" where
  "small_fs p =
     (let cs = components p in
      if cs = [RootDir] then Some [slash]
      else if cs = [RootDir, Normal [119, 115]] then Some [slash, 119, 115]
      else if cs = [RootDir, Normal [119, 115], Normal [108, 105, 110, 107]] then Some [slash, 101, 116, 99]
      else if cs = [RootDir, Normal [101, 116, 99]] then Some [slash, 101, 116, 99]
      else None)"

lemma small_fs_paths:
  "components [slash] = [RootDir]" "trimmed [slash]"
  "components [slash, 119, 115] = [RootDir, Normal [119, 115]]" "trimmed [slash, 119, 115]"
  "components [slash, 101, 116, 99] = [RootDir, Normal [101, 116, 99]]" "trimmed [slash, 101, 116, 99]"
  by (simp_all add: components_def trimmed_def is_absolute_def seg_comp_def)

lemma small_fs_canonical: "canonical_results small_fs"
  unfolding canonical_results_def clean_def
proof (intro allI impI)
  fix p r
  assume "small_fs p = Some r"
  then have "r \<in> {[slash], [slash, 119, 115], [slash, 101, 116, 99]}"
    by (auto simp: small_fs_def Let_def split: if_splits)
  then have "trimmed r \<and> ParentDir \<notin> set (components r) \<and> small_fs r = Some r"
    by (auto simp: small_fs_paths small_fs_def Let_def)
  then show "(is_absolute r \<and> ParentDir \<notin> set (components r)) \<and> trimmed r \<and> small_fs r = Some r"
    by (simp add: trimmed_def)
qed

lemma small_fs_lawful: "lawful small_fs"
proof -
  have top: "small_fs q = None" if a: "is_absolute q" "parent q = Some p" "small_fs p = None" for p q
  proof -
    from parent_components [OF a(1,2)] obtain c where c: "components q = components p @ [c]" by metis
    have "components p \<noteq> []" using hd_components [OF parent_SomeD(1) [OF a(1,2)]] by simp
    with a(3) c show ?thesis
      by (auto simp: small_fs_def Let_def append_eq_Cons_conv split: if_splits)
  qed
  have step: "small_fs q = small_fs (push r n)"
    if a: "is_absolute p" "small_fs p = Some r" "components q = components p @ [Normal n]" for p q r n
  proof -
    have "plain n" using Normal_plain [of n q] a(3) by simp
    moreover have "is_absolute r" using canonD [OF small_fs_canonical a(2)] by simp
    ultimately have "components (push r n) = components r @ [Normal n]" by (rule push_components [rotated])
    with a(2,3) show ?thesis
      by (auto simp: small_fs_def Let_def small_fs_paths split: if_splits)
  qed
  show ?thesis unfolding lawful_def using small_fs_canonical top step by blast
qed

text \<open>C22: A path the read and write commands accept lies, piece by piece, under an open workspace root, with no
  \<open>..\<close> left in it that could lead back out.\<close>

theorem accepted_paths_lie_under_a_root:
  assumes "assert_within_allowed_roots cwd canon path roots = Inr real"
    and "\<forall>dir. cwd = Inr dir \<longrightarrow> is_absolute dir" and "canonical_results canon"
  shows "\<exists>root \<in> set roots. \<exists>rest. components real = components root @ rest
           \<and> ParentDir \<notin> set (components real)"
proof -
  from assms(1) obtain p where p: "to_absolute_raw cwd path = Inr p" "real = resolve canon p"
    "\<exists>root \<in> set roots. prefix (components root) (components real)" by (rule assert_within_InrD)
  have "clean real"
    using resolve_clean [OF to_absolute_raw_absolute [OF p(1) assms(2)] assms(3)] p(2) by simp
  with p(3) show ?thesis by (auto simp: clean_def prefix_def)
qed

lemma small_fs_missing: "small_fs [slash, 119, 115, slash, 120] = None"
  by (simp add: small_fs_def components_def is_absolute_def seg_comp_def)

text \<open>\<^verbatim>\<open>/ws/x\<close> is a new file of the workspace.\<close>

lemma small_fs_new_file: "assert_within_allowed_roots (Inl []) small_fs [slash, 119, 115, slash, 120] [[slash, 119, 115]]
    = Inr [slash, 119, 115, slash, 120]"
  by (simp add: assert_within_allowed_roots_def real_or_nearest_ancestor_def to_absolute_raw_def is_absolute_def
      real_or_nearest_ancestor_of.simps parent_def last_name_def append_tail_def tail_step_def push_def
      check_within_def starts_with_def components_def seg_comp_def small_fs_def)

theorem accepted_paths_lie_under_a_root_witness:
  "\<exists>root \<in> set [[slash, 119, 115]]. \<exists>rest.
     components [slash, 119, 115, slash, 120] = components root @ rest
       \<and> ParentDir \<notin> set (components [slash, 119, 115, slash, 120])"
  by (rule accepted_paths_lie_under_a_root [OF small_fs_new_file _ small_fs_canonical]) simp

text \<open>An accepted path that was asked for without \<open>..\<close> and without a trailing separator means what was asked
  for, and is either its own canonical form, so no link on it leads elsewhere, or does not resolve at all.\<close>

theorem plain_paths_cross_no_link:
  assumes "assert_within_allowed_roots cwd canon path roots = Inr real"
    and "trimmed path" and "ParentDir \<notin> set (components path)" and "lawful canon"
  shows "canon real = canon path \<and> canon real \<in> {Some real, None}"
proof -
  from assms(1) obtain p where p: "to_absolute_raw cwd path = Inr p" "real = resolve canon p"
    by (rule assert_within_InrD)
  have "p = path" using p(1) assms(2) by (simp add: to_absolute_raw_def trimmed_def)
  with resolve_plain [OF assms(4,2,3)] p(2) have same: "canon real = canon path" by simp
  have "canon real = Some real" if "canon path = Some r" for r
    using same that resolve_real [of canon path r] \<open>p = path\<close> p(2) by simp
  with same show ?thesis by (cases "canon path") auto
qed

theorem plain_paths_cross_no_link_witness:
  "small_fs [slash, 119, 115, slash, 120] = small_fs [slash, 119, 115, slash, 120]
   \<and> small_fs [slash, 119, 115, slash, 120] \<in> {Some [slash, 119, 115, slash, 120], None}"
  by (rule plain_paths_cross_no_link [OF small_fs_new_file _ _ small_fs_lawful])
    (simp_all add: trimmed_def is_absolute_def components_def seg_comp_def)

text \<open>C23: A path that goes through a missing name and back with \<open>..\<close> is put together again without being
  resolved: from an open root, the gate accepts any entry of it this way, a link included, whatever
  place outside every root the link leads to.\<close>

theorem missing_name_and_back_is_not_resolved:
  assumes "lawful canon" and "canon root = Some root" and "plain m" and "plain n"
    and "canon (push root m) = None"
  shows "assert_within_allowed_roots cwd canon (push (push root m) [dot, dot] @ slash # n) [root]
           = Inr (push root n)"
proof -
  have cr: "canonical_results canon" using assms(1) by (simp add: lawful_def)
  note root = canonD [OF cr assms(2)]
  note rm = trimmed_push [OF root(3) assms(3)] and rn = trimmed_push [OF root(3) assms(4)]
  let ?b = "push root m" let ?d = "push ?b [dot, dot]" let ?p = "?d @ slash # n"
  have b: "is_absolute ?b" using rm(1) by (simp add: trimmed_def)
  have "last m \<noteq> slash" using assms(3) unfolding plain_def by (metis insertI1 last_in_set)
  then have lb: "last ?b \<noteq> slash"
    using assms(3) by (auto simp: push_def plain_def is_absolute_def)
  have d: "?d = ?b @ [slash, dot, dot]" using b lb by (auto simp: push_def is_absolute_def)
  have tb: "trim_rev (rev ?b) = rev ?b" using rm(1) by (simp add: trimmed_def)
  have tb2: "trim_rev (slash # rev ?b) = rev ?b"
    using b tb by (cases "rev ?b") (auto simp: is_absolute_def)
  have pd: "parent ?d = Some ?b" by (simp add: d parent_def tb2)
  have cd: "canon ?d = None"
    using assms(1,5) pd push_absolute [OF b] unfolding lawful_def by blast
  have td: "trimmed ?d" using push_absolute [OF b, of "[dot, dot]"] by (simp add: d trimmed_def)
  have push_d: "?p = push ?d n"
    using d plain_not_absolute [OF assms(4)] by (simp add: push_def)
  have pp: "parent ?p = Some ?d" using trimmed_push(2) [OF td assms(4)] push_d by simp
  have ap: "is_absolute ?p" using td by (auto simp: trimmed_def is_absolute_def)
  have cp: "canon ?p = None" using assms(1) cd pp ap unfolding lawful_def by blast
  have "components ?b = components root @ [Normal m]" by (rule push_components [OF root(1) assms(3)])
  with resolve_next(1) [of ?b canon root m] b assms(5) rm(2) have rb: "resolve canon ?b = ?b"
    using resolve_real [of canon root] assms(2) by simp
  have "components ?d = components ?b @ [ParentDir]" using components_append [of ?b "[dot, dot]"] b d
    by (auto simp: is_absolute_def)
  with resolve_next(2) [of ?d canon ?b] push_absolute [OF b] cd pd rb have rd: "resolve canon ?d = root"
    using rm(2) by (simp add: pop_def)
  have "components ?p = components ?d @ [Normal n]"
    using push_components [OF push_absolute [OF b] assms(4)] push_d by simp
  with resolve_next(1) [of ?p canon ?d n] ap cp pp rd have rp: "resolve canon ?p = push root n" by simp
  have "starts_with (push root n) root"
    using push_components [OF root(1) assms(4)] by (simp add: starts_with_def)
  with rp ap show ?thesis
    by (simp add: assert_within_allowed_roots_def real_or_nearest_ancestor_def to_absolute_raw_def check_within_def)
qed

text \<open>In the small file system: \<^verbatim>\<open>/ws/x/../link\<close> is accepted as \<^verbatim>\<open>/ws/link\<close>, which is \<^verbatim>\<open>/etc\<close>.\<close>

theorem missing_name_and_back_is_not_resolved_witness:
  "assert_within_allowed_roots (Inl []) small_fs
       (push (push (push [slash, 119, 115] [120]) [dot, dot]) [108, 105, 110, 107]) [[slash, 119, 115]]
     = Inr (push [slash, 119, 115] [108, 105, 110, 107])
   \<and> small_fs (push [slash, 119, 115] [108, 105, 110, 107]) = Some [slash, 101, 116, 99]"
proof
  have "small_fs [slash, 119, 115] = Some [slash, 119, 115]"
    by (simp add: small_fs_def small_fs_paths)
  then show "assert_within_allowed_roots (Inl []) small_fs
       (push (push (push [slash, 119, 115] [120]) [dot, dot]) [108, 105, 110, 107]) [[slash, 119, 115]]
     = Inr (push [slash, 119, 115] [108, 105, 110, 107])"
    using missing_name_and_back_is_not_resolved [OF small_fs_lawful, of "[slash, 119, 115]" "[120]"
        "[108, 105, 110, 107]" "Inl []"] small_fs_missing
    by (simp add: plain_def push_def is_absolute_def)
  show "small_fs (push [slash, 119, 115] [108, 105, 110, 107]) = Some [slash, 101, 116, 99]"
    by (simp add: small_fs_def push_def is_absolute_def components_def seg_comp_def)
qed

text \<open>Deleting, creating and renaming act on one named entry strictly below an open root: the gate
  never answers with a root itself, and the name is the path's own last piece, not what it may link to.\<close>

theorem entry_gate_stays_below_the_roots:
  assumes "assert_entry_within_allowed_roots cwd canon path roots = Inr entry"
    and "\<forall>dir. cwd = Inr dir \<longrightarrow> is_absolute dir" and "canonical_results canon"
  shows "\<exists>root \<in> set roots. \<exists>rest.
           components entry = components root @ rest @ [Normal (last_segment path)]
           \<and> ParentDir \<notin> set (components entry)"
proof -
  from assms(1) have seg: "last_segment path \<notin> {[], [dot], [dot, dot]}"
    by (auto simp: assert_entry_within_allowed_roots_def split: if_splits)
  with assms(1) obtain p where p: "to_absolute_raw cwd path = Inr p"
    by (auto simp: assert_entry_within_allowed_roots_def split: sum.splits if_splits)
  from entry_component [OF seg p] obtain cs where cs: "components p = cs @ [Normal (last_segment path)]" ..
  let ?r = "resolve canon (the (parent p))"
  have entry: "entry = push ?r (last_segment path)"
    and within: "\<exists>root \<in> set roots. prefix (components root) (components ?r)"
    using assms(1) seg p cs check_within_InrD [of ?r path roots]
    by (auto simp: assert_entry_within_allowed_roots_def Let_def map_sum_def split: sum.splits)
  have ap: "is_absolute p" by (rule to_absolute_raw_absolute [OF p assms(2)])
  have "parent p \<noteq> None" using parent_None_root [OF ap] cs by auto
  then obtain q where q: "parent p = Some q" by blast
  have r: "clean ?r" using resolve_clean [OF parent_SomeD(1) [OF ap q] assms(3)] q by simp
  have "components entry = components ?r @ [Normal (last_segment path)]"
    unfolding entry using r last_segment_component(1) [OF seg] by (intro push_components) (simp_all add: clean_def)
  with within r show ?thesis by (auto simp: clean_def prefix_def)
qed

text \<open>The link of the small file system itself can be deleted.\<close>

lemma small_fs_entry: "assert_entry_within_allowed_roots (Inl []) small_fs [slash, 119, 115, slash, 108, 105, 110, 107] [[slash, 119, 115]]
    = Inr [slash, 119, 115, slash, 108, 105, 110, 107]"
  by (simp add: assert_entry_within_allowed_roots_def last_segment_def to_absolute_raw_def is_absolute_def
      real_or_nearest_ancestor_of.simps parent_def push_def
      check_within_def starts_with_def components_def seg_comp_def small_fs_def)

theorem entry_gate_stays_below_the_roots_witness:
  "\<exists>root \<in> set [[slash, 119, 115]]. \<exists>rest.
     components [slash, 119, 115, slash, 108, 105, 110, 107]
       = components root @ rest @ [Normal (last_segment [slash, 119, 115, slash, 108, 105, 110, 107])]
     \<and> ParentDir \<notin> set (components [slash, 119, 115, slash, 108, 105, 110, 107])"
  by (rule entry_gate_stays_below_the_roots [OF small_fs_entry _ small_fs_canonical]) simp

text \<open>The second check of the entry gate never refuses: the first one has seen to it.\<close>

lemma entry_gate_second_check_is_dead:
  "assert_entry_within_allowed_roots cwd canon path roots \<noteq> Inl (Not_A_Component path c)"
proof (cases "last_segment path \<in> {[], [dot], [dot, dot]}")
  case seg: False
  show ?thesis
  proof (cases "to_absolute_raw cwd path")
    case (Inl e)
    then show ?thesis using seg
      by (auto simp: assert_entry_within_allowed_roots_def to_absolute_raw_def split: sum.splits if_splits)
  next
    case (Inr p)
    from entry_component [OF seg Inr] obtain cs where "components p = cs @ [Normal (last_segment path)]" ..
    with seg Inr show ?thesis
      by (auto simp: assert_entry_within_allowed_roots_def check_within_def Let_def)
  qed
qed (simp add: assert_entry_within_allowed_roots_def)

text \<open>Adding a root twice is adding it once, and the list never holds one place twice.\<close>

lemma register_keeps_roots_distinct:
  assumes "distinct (map components (ar_roots st))"
  shows "distinct (map components (ar_roots (snd (register_allowed_root cwd canon path st))))"
  using assms by (auto simp: register_allowed_root_def list_ex_iff split: sum.split)

lemma register_twice:
  "snd (register_allowed_root cwd canon path (snd (register_allowed_root cwd canon path st)))
     = snd (register_allowed_root cwd canon path st)"
  by (auto simp: register_allowed_root_def split: sum.split)

end
