(* ===== verification/Tray.thy ===== *)
theory Tray
  imports Prelude "HOL-Library.Multiset"
begin

text \<open>
  The tray menu of the desktop application (\<^verbatim>\<open>src-tauri/src/tray/model.rs\<close>): header, icon, attention rows, the
  submenu of agents grouped by workspace, and the question before the daemon is stopped. Text is a list of
  UTF-8 bytes written as characters. The hash map of the submenu is a map, beside the list of workspaces in
  the order of their first appearance. The upper case of a character outside ASCII is the parameter \<open>upper\<close>.
\<close>

section \<open>The payload\<close>

datatype tray_connection = Connecting | Ready | Reconnecting | Failed

datatype tray_status = Running | Idle | NeedsInput | Unknown | Done | Error_Status

record tray_session =
  ts_id :: int
  ts_agent :: string
  ts_title :: string
  ts_status :: tray_status
  ts_needs_input :: bool
  ts_workspace :: string

record tray_payload =
  tp_connection :: tray_connection
  tp_sessions :: "tray_session list"

definition payload_connecting :: tray_payload where
  "payload_connecting = \<lparr>tp_connection = Connecting, tp_sessions = []\<rparr>"

definition ATTENTION_ROW_CAP :: nat where "ATTENTION_ROW_CAP = 4"
definition GROUP_ROW_CAP :: nat where "GROUP_ROW_CAP = 8"

datatype tray_icon_state = Icon_Idle | Icon_Active | Icon_Attention

datatype tray_item =
    Header string
  | Open
  | Separator
  | Session int string
  | Overflow string
  | Group string
  | Submenu string "tray_item list"
  | Quit
  | StopDaemon

section \<open>Texts\<close>

fun glyph :: "tray_status \<Rightarrow> string" where
  "glyph Running = [CHR 0xE2, CHR 0x97, CHR 0x8F]"
| "glyph Idle = [CHR 0xE2, CHR 0x97, CHR 0x8B]"
| "glyph NeedsInput = [CHR 0xE2, CHR 0x97, CHR 0x90]"
| "glyph Unknown = ''?''"
| "glyph Done = [CHR 0xE2, CHR 0x9C, CHR 0x93]"
| "glyph Error_Status = [CHR 0xE2, CHR 0x9C, CHR 0x95]"

definition middle_dot :: string where "middle_dot = '' '' @ [CHR 0xC2, CHR 0xB7] @ '' ''"
definition em_dash :: string where "em_dash = [CHR 0xE2, CHR 0x80, CHR 0x94]"

text \<open>The bytes of the first character, by its leading byte.\<close>

definition char_width :: "char \<Rightarrow> nat" where
  "char_width c =
     (let b = (of_char c :: nat) in if b < 0x80 then 1 else if b < 0xE0 then 2 else if b < 0xF0 then 3 else 4)"

definition upper_char :: "(string \<Rightarrow> string) \<Rightarrow> string \<Rightarrow> string" where
  "upper_char upper c =
     (case c of
        [a] \<Rightarrow> (let b = (of_char a :: nat) in if 97 \<le> b \<and> b \<le> 122 then [char_of (b - 32)] else [a])
      | _ \<Rightarrow> upper c)"

definition agent_label :: "(string \<Rightarrow> string) \<Rightarrow> string \<Rightarrow> string" where
  "agent_label upper kind =
     (if kind = ''claude'' then ''Claude''
      else if kind = ''codex'' then ''Codex''
      else if kind = ''antigravity'' then ''Antigravity''
      else if kind = ''shell'' then ''Shell''
      else if kind = ''custom'' then ''Custom''
      else if kind = ''opencode'' then ''OpenCode''
      else if kind = ''cursor'' then ''Cursor''
      else if kind = ''grok'' then ''Grok''
      else if kind = ''zcode'' then ''ZCode''
      else if kind = ''droid'' then ''Droid''
      else if kind = ''copilot'' then ''Copilot''
      else if kind = ''aider'' then ''Aider''
      else if kind = ''ssh'' then ''SSH''
      else case kind of
        [] \<Rightarrow> ''Agent''
      | c # _ \<Rightarrow> upper_char upper (take (char_width c) kind) @ drop (char_width c) kind)"

definition plural :: "nat \<Rightarrow> string \<Rightarrow> string" where
  "plural n noun = dec n @ '' '' @ noun @ (if n = 1 then '''' else ''s'')"

section \<open>Counts, header and icon\<close>

definition is_live :: "tray_session \<Rightarrow> bool" where
  "is_live s \<longleftrightarrow> ts_status s \<noteq> Done \<and> ts_status s \<noteq> Error_Status"

definition running_count :: "tray_payload \<Rightarrow> nat" where
  "running_count p = length (filter (\<lambda>s. is_live s \<and> ts_status s = Running) (tp_sessions p))"

definition attention_count :: "tray_payload \<Rightarrow> nat" where
  "attention_count p = length (filter (\<lambda>s. is_live s \<and> ts_needs_input s) (tp_sessions p))"

definition unknown_count :: "tray_payload \<Rightarrow> nat" where
  "unknown_count p = length (filter (\<lambda>s. is_live s \<and> ts_status s = Unknown) (tp_sessions p))"

definition header_parts :: "tray_payload \<Rightarrow> string list" where
  "header_parts p =
     (if 0 < running_count p then [plural (running_count p) ''agent'' @ '' running''] else [])
     @ (if attention_count p = 0 then []
        else if attention_count p = 1 then [''1 needs input'']
        else [dec (attention_count p) @ '' need input''])
     @ (if 0 < unknown_count p then [dec (unknown_count p) @ '' status unknown''] else [])"

definition header_text :: "tray_payload \<Rightarrow> string" where
  "header_text p =
     (case tp_connection p of
        Failed \<Rightarrow> ''Houston'' @ middle_dot @ ''daemon not running''
      | Connecting \<Rightarrow> ''Houston'' @ middle_dot @ ''disconnected''
      | Reconnecting \<Rightarrow> ''Houston'' @ middle_dot @ ''disconnected''
      | Ready \<Rightarrow>
          (let live_count = length (filter is_live (tp_sessions p)) in
           if live_count = 0 then ''Houston'' @ middle_dot @ ''idle''
           else ''Houston'' @ middle_dot
             @ join_with middle_dot
                 (if header_parts p = [] then [plural live_count ''agent'' @ '' idle''] else header_parts p)))"

definition icon_state :: "tray_payload \<Rightarrow> tray_icon_state" where
  "icon_state p =
     (if 0 < attention_count p then Icon_Attention
      else if tp_connection p = Ready \<and> 0 < running_count p then Icon_Active
      else Icon_Idle)"

definition session_label :: "(string \<Rightarrow> string) \<Rightarrow> tray_session \<Rightarrow> string" where
  "session_label upper s =
     glyph (ts_status s) @ '' '' @ agent_label upper (ts_agent s) @ '' '' @ em_dash @ '' '' @ ts_title s"

section \<open>The menu\<close>

fun status_rank :: "tray_status \<Rightarrow> nat" where
  "status_rank NeedsInput = 0"
| "status_rank Running = 1"
| "status_rank Unknown = 2"
| "status_rank Idle = 3"
| "status_rank Done = 4"
| "status_rank Error_Status = 4"

definition group_step ::
  "tray_session \<Rightarrow> string list \<times> (string \<Rightarrow> tray_session list option)
     \<Rightarrow> string list \<times> (string \<Rightarrow> tray_session list option)" where
  "group_step s g =
     (case snd g (ts_workspace s) of
        None \<Rightarrow> (fst g @ [ts_workspace s], (snd g)(ts_workspace s \<mapsto> [s]))
      | Some panes \<Rightarrow> (fst g, (snd g)(ts_workspace s \<mapsto> panes @ [s])))"

definition session_row :: "(string \<Rightarrow> string) \<Rightarrow> tray_session \<Rightarrow> tray_item" where
  "session_row upper s = Session (ts_id s) (session_label upper s)"

definition group_rows ::
  "(string \<Rightarrow> string) \<Rightarrow> (string \<Rightarrow> tray_session list option) \<Rightarrow> nat \<times> string \<Rightarrow> tray_item list" where
  "group_rows upper groups iw =
     (let panes = sort_key (\<lambda>s. status_rank (ts_status s)) (the (groups (snd iw))) in
      (if 0 < fst iw then [Separator] else [])
      @ Group (snd iw) # map (session_row upper) (take GROUP_ROW_CAP panes)
      @ (if GROUP_ROW_CAP < length panes
         then [Overflow (''+'' @ dec (length panes - GROUP_ROW_CAP) @ '' more in Houston'')] else []))"

definition agents_submenu :: "(string \<Rightarrow> string) \<Rightarrow> tray_session list \<Rightarrow> tray_item list" where
  "agents_submenu upper sessions =
     (let (order, groups) = fold group_step sessions ([], Map.empty) in
      concat (map (group_rows upper groups) (enumerate 0 order)))"

definition attention_rows :: "(string \<Rightarrow> string) \<Rightarrow> tray_session list \<Rightarrow> tray_item list" where
  "attention_rows upper live =
     (let attention = filter ts_needs_input live in
      map (session_row upper) (take ATTENTION_ROW_CAP attention)
      @ (if ATTENTION_ROW_CAP < length attention
         then [Overflow (''+'' @ dec (length attention - ATTENTION_ROW_CAP) @ '' more waiting, in Agents'')]
         else []))"

definition menu_model :: "(string \<Rightarrow> string) \<Rightarrow> tray_payload \<Rightarrow> tray_item list" where
  "menu_model upper p =
     (let live = filter is_live (tp_sessions p) in
      [Header (header_text p), Open, Separator]
      @ attention_rows upper live
      @ (if live \<noteq> []
         then [Submenu (''Agents ('' @ dec (length live) @ '')'') (agents_submenu upper live), Separator] else [])
      @ [Quit, StopDaemon])"

definition stop_confirm_message :: "tray_payload \<Rightarrow> string" where
  "stop_confirm_message p =
     (if tp_connection p \<noteq> Ready
      then ''This stops the local daemon and connected WSL daemons, ending their sessions and '' @
           ''disarming their routines. The last session count is unavailable.''
      else ''This stops the local daemon and connected WSL daemons, ending their sessions and disarming '' @
           ''their routines. The last reported count was '' @
           plural (length (filter (\<lambda>s. ts_status s \<notin> {Done, Error_Status}) (tp_sessions p))) ''live session'' @
           ''. Reopening Houston starts the daemons again.'')"

section \<open>The grouping is what it stands for\<close>

text \<open>The workspaces in the order of their first appearance, and the sessions of one.\<close>

fun firsts :: "string list \<Rightarrow> string list" where
  "firsts [] = []"
| "firsts (w # ws) = w # filter (\<lambda>v. v \<noteq> w) (firsts ws)"

definition panes_of :: "tray_session list \<Rightarrow> string \<Rightarrow> tray_session list" where
  "panes_of sessions w = filter (\<lambda>s. ts_workspace s = w) sessions"

lemma set_firsts: "set (firsts ws) = set ws"
  by (induction ws) auto

lemma distinct_firsts: "distinct (firsts ws)"
  by (induction ws) auto

lemma firsts_snoc: "firsts (ws @ [w]) = (if w \<in> set ws then firsts ws else firsts ws @ [w])"
  by (induction ws) auto

lemma grouping:
  "fold group_step sessions ([], Map.empty) =
     (firsts (map ts_workspace sessions),
      \<lambda>w. if w \<in> ts_workspace ` set sessions then Some (panes_of sessions w) else None)"
proof (induction sessions rule: rev_induct)
  case (snoc s sessions)
  have "panes_of sessions (ts_workspace s) = []" if "ts_workspace s \<notin> ts_workspace ` set sessions"
    using that by (auto simp: panes_of_def filter_empty_conv image_iff)
  then show ?case
    using snoc by (auto simp: group_step_def firsts_snoc panes_of_def fun_eq_iff)
qed simp

lemma panes_of_length:
  "(\<Sum>w \<leftarrow> firsts (map ts_workspace sessions). length (panes_of sessions w)) = length sessions"
proof -
  have "(\<Sum>w \<leftarrow> firsts (map ts_workspace sessions). length (panes_of sessions w))
      = (\<Sum>w \<in> ts_workspace ` set sessions. length (panes_of sessions w))"
    by (subst sum_list_distinct_conv_sum_set) (auto simp: distinct_firsts set_firsts)
  also have "\<dots> = length sessions"
  proof -
    have "(\<Sum>w \<in> W. length (filter (\<lambda>s. ts_workspace s = w) xs)) = length xs"
      if "finite W" "ts_workspace ` set xs \<subseteq> W" for W and xs :: "tray_session list"
      using that(2)
    proof (induction xs)
      case (Cons x xs)
      have "(\<Sum>w \<in> W. length (filter (\<lambda>s. ts_workspace s = w) (x # xs)))
          = (\<Sum>w \<in> W. (if ts_workspace x = w then 1 else 0) + length (filter (\<lambda>s. ts_workspace s = w) xs))"
        by (intro sum.cong) auto
      also have "\<dots> = 1 + length xs" using Cons that(1) by (simp add: sum.distrib)
      finally show ?case by simp
    qed simp
    then show ?thesis by (simp add: panes_of_def)
  qed
  finally show ?thesis .
qed

section \<open>What the menu shows\<close>

text \<open>The blocks of the submenu with a separator between two of them, and one block: at most eight rows,
  and the number of the rest.\<close>

fun separated :: "tray_item list list \<Rightarrow> tray_item list" where
  "separated [] = []"
| "separated [b] = b"
| "separated (b # bs) = b @ Separator # separated bs"

definition group_block :: "(string \<Rightarrow> string) \<Rightarrow> string \<Rightarrow> tray_session list \<Rightarrow> nat \<Rightarrow> tray_item list" where
  "group_block upper w shown hidden =
     Group w # map (session_row upper) shown
     @ (if 0 < hidden then [Overflow (''+'' @ dec hidden @ '' more in Houston'')] else [])"

definition shown_panes :: "tray_session list \<Rightarrow> string \<Rightarrow> tray_session list" where
  "shown_panes sessions w =
     take GROUP_ROW_CAP (sort_key (\<lambda>s. status_rank (ts_status s)) (panes_of sessions w))"

definition hidden_panes :: "tray_session list \<Rightarrow> string \<Rightarrow> tray_session list" where
  "hidden_panes sessions w =
     drop GROUP_ROW_CAP (sort_key (\<lambda>s. status_rank (ts_status s)) (panes_of sessions w))"

lemma separated_enumerate:
  "concat (map (\<lambda>iw. (if 0 < fst iw then [Separator] else []) @ f (snd iw)) (enumerate 0 ws)) = separated (map f ws)"
proof -
  have later: "concat (map (\<lambda>iw. (if 0 < fst iw then [Separator] else []) @ f (snd iw)) (enumerate (Suc n) vs))
      = concat (map (\<lambda>w. Separator # f w) vs)" for n vs
    by (induction vs arbitrary: n) auto
  have sep: "separated (map f (w # vs)) = f w @ concat (map (\<lambda>w. Separator # f w) vs)" for w vs
    by (induction vs arbitrary: w) auto
  show ?thesis
  proof (cases ws)
    case (Cons w vs)
    then show ?thesis using later [of 0 vs] sep [of w vs] by simp
  qed simp
qed

lemma agents_submenu_blocks:
  "agents_submenu upper sessions =
     separated (map (\<lambda>w. group_block upper w (shown_panes sessions w) (length (hidden_panes sessions w)))
       (firsts (map ts_workspace sessions)))"
proof -
  let ?block = "\<lambda>w. group_block upper w (shown_panes sessions w) (length (hidden_panes sessions w))"
  let ?groups = "\<lambda>w. if w \<in> ts_workspace ` set sessions then Some (panes_of sessions w) else None"
  have rows: "group_rows upper ?groups iw = (if 0 < fst iw then [Separator] else []) @ ?block (snd iw)"
    if "snd iw \<in> ts_workspace ` set sessions" for iw
    using that by (auto simp: group_rows_def group_block_def shown_panes_def hidden_panes_def Let_def)
  have "agents_submenu upper sessions
      = concat (map (group_rows upper ?groups) (enumerate 0 (firsts (map ts_workspace sessions))))"
    by (simp add: agents_submenu_def grouping)
  also have "\<dots> = concat (map (\<lambda>iw. (if 0 < fst iw then [Separator] else []) @ ?block (snd iw))
      (enumerate 0 (firsts (map ts_workspace sessions))))"
  proof (intro arg_cong [where f = concat] map_cong refl rows)
    fix iw assume "iw \<in> set (enumerate 0 (firsts (map ts_workspace sessions)))"
    then have "snd iw \<in> set (firsts (map ts_workspace sessions))"
      by (metis imageI list.set_map map_snd_enumerate)
    then show "snd iw \<in> ts_workspace ` set sessions" by (simp add: set_firsts)
  qed
  also have "\<dots> = separated (map ?block (firsts (map ts_workspace sessions)))"
    by (rule separated_enumerate)
  finally show ?thesis .
qed

text \<open>The submenu has one block for each workspace, in the order of first appearance. A block shows at most
  eight sessions and counts the rest; together they are all sessions of the workspace, and none that is
  hidden is more urgent than one that is shown.\<close>

theorem submenu_shows_the_most_urgent:
  "agents_submenu upper sessions =
     separated (map (\<lambda>w. group_block upper w (shown_panes sessions w) (length (hidden_panes sessions w)))
       (firsts (map ts_workspace sessions)))
   \<and> (\<forall>w. mset (shown_panes sessions w) + mset (hidden_panes sessions w) = mset (panes_of sessions w)
       \<and> length (shown_panes sessions w) = min GROUP_ROW_CAP (length (panes_of sessions w)))
   \<and> {(w, s, t). s \<in> set (shown_panes sessions w) \<and> t \<in> set (hidden_panes sessions w)
          \<and> status_rank (ts_status t) < status_rank (ts_status s)} = {}
   \<and> (\<Sum>w \<leftarrow> firsts (map ts_workspace sessions).
        length (shown_panes sessions w) + length (hidden_panes sessions w)) = length sessions"
proof (intro conjI allI)
  let ?key = "\<lambda>s. status_rank (ts_status s)"
  show "agents_submenu upper sessions =
     separated (map (\<lambda>w. group_block upper w (shown_panes sessions w) (length (hidden_panes sessions w)))
       (firsts (map ts_workspace sessions)))" by (rule agents_submenu_blocks)
  show "mset (shown_panes sessions w) + mset (hidden_panes sessions w) = mset (panes_of sessions w)" for w
    unfolding shown_panes_def hidden_panes_def by (simp flip: mset_append)
  show "length (shown_panes sessions w) = min GROUP_ROW_CAP (length (panes_of sessions w))" for w
    by (simp add: shown_panes_def min.commute)
  have "?key s \<le> ?key t" if "s \<in> set (take n (sort_key ?key xs))" "t \<in> set (drop n (sort_key ?key xs))" for n xs s t
  proof -
    have "sorted (map ?key (take n (sort_key ?key xs) @ drop n (sort_key ?key xs)))"
      unfolding append_take_drop_id by (rule sorted_sort_key)
    then have "\<forall>a \<in> set (map ?key (take n (sort_key ?key xs))).
        \<forall>b \<in> set (map ?key (drop n (sort_key ?key xs))). a \<le> b"
      unfolding map_append sorted_append by blast
    moreover have "?key s \<in> set (map ?key (take n (sort_key ?key xs)))"
      "?key t \<in> set (map ?key (drop n (sort_key ?key xs)))" using that by (metis imageI list.set_map)+
    ultimately show ?thesis by blast
  qed
  then have "\<not> ?key t < ?key s" if "s \<in> set (shown_panes sessions w)" "t \<in> set (hidden_panes sessions w)" for w s t
    using that unfolding shown_panes_def hidden_panes_def not_less by blast
  then show "{(w, s, t). s \<in> set (shown_panes sessions w) \<and> t \<in> set (hidden_panes sessions w)
      \<and> ?key t < ?key s} = {}" by blast
  have "length (shown_panes sessions w) + length (hidden_panes sessions w) = length (panes_of sessions w)" for w
    by (simp add: shown_panes_def hidden_panes_def)
  then show "(\<Sum>w \<leftarrow> firsts (map ts_workspace sessions).
      length (shown_panes sessions w) + length (hidden_panes sessions w)) = length sessions"
    by (simp add: panes_of_length)
qed

text \<open>The menu always offers the window, quitting and stopping the daemon, and holds at most twelve rows
  at its top level.\<close>

lemma menu_is_short:
  "length (menu_model upper p) \<le> 12"
  by (auto simp: menu_model_def attention_rows_def ATTENTION_ROW_CAP_def Let_def)

lemma menu_always_ends_with_quit:
  "\<exists>items. menu_model upper p = Header (header_text p) # Open # Separator # items @ [Quit, StopDaemon]"
  by (auto simp: menu_model_def Let_def)

text \<open>The icon asks for attention exactly when the menu has an attention row, and the header's counts and
  the menu agree that nothing is live.\<close>

lemma icon_agrees_with_the_menu:
  "icon_state p = Icon_Attention \<longleftrightarrow> attention_rows upper (filter is_live (tp_sessions p)) \<noteq> []"
  by (auto simp: icon_state_def attention_count_def attention_rows_def ATTENTION_ROW_CAP_def Let_def
      filter_empty_conv)

end
