(* ===== verification/Review_Triage.thy ===== *)
theory Review_Triage
  imports Rust_Std "HOL-Library.Multiset"
begin

text \<open>
  The triage of a pull request the operator was asked to review
  (\<^verbatim>\<open>core/houston-core/src/review_triage.rs\<close>). Text is UTF-8 bytes; line counts are \<open>u32\<close> and added with
  saturation. The \<open>Debug\<close> form of the base branch in a reason is the parameter \<open>dbg\<close>.
\<close>

definition REVIEW_SKIP_MAX_LINES :: u32 where "REVIEW_SKIP_MAX_LINES = 30"
definition REVIEW_SKIP_MAX_FILES :: u32 where "REVIEW_SKIP_MAX_FILES = 3"
definition REVIEW_REQUEST_TIER_C_LINES :: u32 where "REVIEW_REQUEST_TIER_C_LINES = 400"
definition REVIEW_REQUEST_TIER_C_FILES :: u32 where "REVIEW_REQUEST_TIER_C_FILES = 15"

datatype review_tier = Tier_A | Tier_B | Tier_C

record file_facts =
  ff_path :: rstring
  ff_additions :: u32
  ff_deletions :: u32

record triage_facts =
  tf_files :: "file_facts list"
  tf_base :: rstring
  tf_ci_green :: bool

record verdict =
  vd_tier :: review_tier
  vd_reasons :: "rstring list"

section \<open>Saturating sums\<close>

definition saturating_add :: "u32 \<Rightarrow> u32 \<Rightarrow> u32" where
  "saturating_add a b = (if a + b < a then - 1 else a + b)"

definition count_u32 :: "nat \<Rightarrow> u32" where
  "count_u32 n = (if n < 2 ^ 32 then word_of_nat n else - 1)"

lemma unat_saturating_add: "unat (saturating_add a b) = min (2 ^ 32 - 1) (unat a + unat b)"
proof (cases "unat a + unat b < 2 ^ 32")
  case True
  then have sum: "unat (a + b) = unat a + unat b"
    by (simp add: unat_word_ariths)
  then have "\<not> a + b < a" by (simp add: word_less_nat_alt)
  with sum True show ?thesis by (simp add: saturating_add_def)
next
  case False
  have "unat a < 2 ^ 32" "unat b < 2 ^ 32" using unsigned_less [of a] unsigned_less [of b] by simp_all
  with False have "unat (a + b) = unat a + unat b - 2 ^ 32"
    by (simp add: unat_word_ariths mod_if)
  with \<open>unat b < 2 ^ 32\<close> False have "a + b < a" by (simp add: word_less_nat_alt)
  moreover have "unat (- 1 :: u32) = 2 ^ 32 - 1" by (simp add: unsigned_minus_1_eq_mask mask_eq_exp_minus_1)
  ultimately show ?thesis using False by (simp add: saturating_add_def)
qed

lemma unat_count_u32: "unat (count_u32 n) = min (2 ^ 32 - 1) n"
proof (cases "n < 2 ^ 32")
  case True
  then show ?thesis by (simp add: count_u32_def unsigned_of_nat take_bit_eq_mod)
next
  case False
  moreover have "unat (- 1 :: u32) = 2 ^ 32 - 1" by (simp add: unsigned_minus_1_eq_mask mask_eq_exp_minus_1)
  ultimately show ?thesis by (simp add: count_u32_def)
qed

definition changed_lines :: "file_facts list \<Rightarrow> u32" where
  "changed_lines files = foldl saturating_add 0 (map (\<lambda>f. saturating_add (ff_additions f) (ff_deletions f)) files)"

lemma unat_changed_lines:
  "unat (changed_lines files)
     = min (2 ^ 32 - 1) (\<Sum>f \<leftarrow> files. min (2 ^ 32 - 1) (unat (ff_additions f) + unat (ff_deletions f)))"
  unfolding changed_lines_def
proof (induction files rule: rev_induct)
  case (snoc f files)
  then show ?case by (simp add: unat_saturating_add)
qed simp

section \<open>Paths and names\<close>

definition lower_byte :: "byte \<Rightarrow> byte" where
  "lower_byte b = (if 0x41 \<le> b \<and> b \<le> 0x5A then b + 0x20 else b)"

definition to_ascii_lowercase :: "rstring \<Rightarrow> rstring" where
  "to_ascii_lowercase s = map lower_byte s"

definition has :: "rstring \<Rightarrow> string \<Rightarrow> bool" where
  "has s needle \<longleftrightarrow> contains (bytes_of needle) s"

definition starts :: "rstring \<Rightarrow> string \<Rightarrow> bool" where
  "starts s p \<longleftrightarrow> prefix (bytes_of p) s"

definition ends_with :: "rstring \<Rightarrow> string \<Rightarrow> bool" where
  "ends_with s p \<longleftrightarrow> suffix (bytes_of p) s"

text \<open>What \<open>path.rsplit('/').next()\<close> gives.\<close>

definition file_name :: "rstring \<Rightarrow> rstring" where
  "file_name path = rev (takeWhile (\<lambda>b. b \<noteq> 0x2F) (rev path))"

definition dependency_manifest :: "rstring \<Rightarrow> bool" where
  "dependency_manifest name \<longleftrightarrow>
     name \<in> bytes_of ` {''Cargo.toml'', ''Cargo.lock'', ''package.json'', ''bun.lock'', ''bun.lockb'',
       ''yarn.lock'', ''pnpm-lock.yaml'', ''go.mod'', ''go.sum'', ''poetry.lock'', ''Pipfile.lock''}
     \<or> starts name ''requirements''"

definition config_or_secret :: "rstring \<Rightarrow> rstring \<Rightarrow> bool" where
  "config_or_secret path name \<longleftrightarrow>
     (let lower = to_ascii_lowercase path in
      has lower ''secret'' \<or> has lower ''credential'' \<or> has lower ''/config/''
      \<or> ends_with lower ''/config'' \<or> starts name ''.env'' \<or> starts name ''config.''
      \<or> name = bytes_of ''config'' \<or> ends_with name ''.pem'' \<or> ends_with name ''.key'')"

definition auth_or_policy :: "rstring \<Rightarrow> bool" where
  "auth_or_policy lower \<longleftrightarrow>
     has lower ''auth'' \<or> has lower ''policy'' \<or> has lower ''policies'' \<or> has lower ''permission''
     \<or> has lower ''oauth''"

definition payment_or_integration :: "rstring \<Rightarrow> bool" where
  "payment_or_integration lower \<longleftrightarrow>
     has lower ''payment'' \<or> has lower ''billing'' \<or> has lower ''stripe'' \<or> has lower ''checkout''
     \<or> has lower ''/integrations/''"

definition dependency_change :: "rstring \<Rightarrow> bool" where
  "dependency_change name = dependency_manifest name"

function trim_start_matches :: "rstring \<Rightarrow> rstring \<Rightarrow> rstring" where
  "trim_start_matches p s =
     (case strip_prefix p s of
        Some t \<Rightarrow> if p = [] then s else trim_start_matches p t
      | None \<Rightarrow> s)"
  by pat_completeness auto
termination
  by (relation "measure (\<lambda>(p, s). length s)") (auto simp: strip_prefix_Some_iff)

declare trim_start_matches.simps [simp del]

definition release_base :: "rstring \<Rightarrow> bool" where
  "release_base base \<longleftrightarrow>
     (let lower = to_ascii_lowercase (trim_start_matches (bytes_of ''origin/'') (trim base)) in
      starts lower ''release'' \<or> starts lower ''hotfix'')"

definition is_docs_tests_or_translation :: "rstring \<Rightarrow> bool" where
  "is_docs_tests_or_translation path \<longleftrightarrow>
     (let lower = to_ascii_lowercase path in
      starts lower ''docs/'' \<or> starts lower ''tests/'' \<or> has lower ''/tests/''
      \<or> ends_with lower ''.md'' \<or> ends_with lower ''.mdx'' \<or> ends_with lower ''.snap''
      \<or> has lower ''/locales/'' \<or> has lower ''/i18n/'' \<or> has lower ''/translations/'')"

text \<open>The strong escalators of one file, with what each is called.\<close>

definition file_checks :: "rstring \<Rightarrow> (bool \<times> string) list" where
  "file_checks path =
     (let lower = to_ascii_lowercase path; name = file_name path in
      [(has lower ''migration'', ''migration''),
       (auth_or_policy lower, ''auth or policy path''),
       (payment_or_integration lower, ''payment or integration path''),
       (config_or_secret lower name, ''config or secrets file''),
       (dependency_change name, ''dependency manifest or lockfile''),
       (starts lower ''core/houston-protocol/'' \<or> lower = bytes_of ''protocol/protocol.md'', ''protocol''),
       (lower = bytes_of ''core/houston-core/src/pid.rs'', ''PID handling''),
       (starts lower ''scripts/install'' \<or> has lower ''nsis''
          \<or> starts lower ''src-tauri/'' \<and> has lower ''installer'' \<or> ends_with lower ''tauri.conf.json'',
        ''installer or version manifest'')])"

section \<open>The verdict\<close>

definition push_reason :: "rstring \<Rightarrow> rstring list \<Rightarrow> rstring list" where
  "push_reason r reasons = (if r \<in> set reasons then reasons else reasons @ [r])"

definition check_reason :: "rstring \<Rightarrow> string \<Rightarrow> rstring" where
  "check_reason path what = path @ bytes_of '': '' @ bytes_of what"

fun run_checks :: "rstring \<Rightarrow> (bool \<times> string) list \<Rightarrow> bool \<times> rstring list \<Rightarrow> bool \<times> rstring list" where
  "run_checks path [] acc = acc"
| "run_checks path ((matched, what) # cs) (strong, reasons) =
     run_checks path cs
       (if matched then (True, push_reason (check_reason path what) reasons) else (strong, reasons))"

fun check_files :: "file_facts list \<Rightarrow> bool \<times> rstring list \<Rightarrow> bool \<times> rstring list" where
  "check_files [] acc = acc"
| "check_files (f # fs) acc = check_files fs (run_checks (ff_path f) (file_checks (ff_path f)) acc)"

definition count_reason :: "u32 \<Rightarrow> u32 \<Rightarrow> rstring" where
  "count_reason lines files =
     bytes_of (dec (unat lines) @ '' changed line(s) in '' @ dec (unat files) @ '' file(s)'')"

definition base_reason :: "(rstring \<Rightarrow> rstring) \<Rightarrow> rstring \<Rightarrow> rstring" where
  "base_reason dbg base = bytes_of ''base branch '' @ dbg base @ bytes_of '' is a release or hotfix branch''"

definition over_tier_c :: "u32 \<Rightarrow> u32 \<Rightarrow> bool" where
  "over_tier_c lines files \<longleftrightarrow> REVIEW_REQUEST_TIER_C_LINES < lines \<or> REVIEW_REQUEST_TIER_C_FILES < files"

definition tier_c_reason :: rstring where
  "tier_c_reason = bytes_of (''over the tier C size caps of '' @ dec (unat REVIEW_REQUEST_TIER_C_LINES)
     @ '' lines and '' @ dec (unat REVIEW_REQUEST_TIER_C_FILES) @ '' files'')"

definition quick_look_reason :: rstring where
  "quick_look_reason = bytes_of (''over the tier A quick-look caps of '' @ dec (unat REVIEW_SKIP_MAX_LINES)
     @ '' lines and '' @ dec (unat REVIEW_SKIP_MAX_FILES) @ '' files'')"

definition tier_a_reason :: rstring where
  "tier_a_reason = bytes_of ''qualifies for tier A, but tier A is disabled until triage is calibrated''"

text \<open>The strong part: the base branch, the files, the size.\<close>

definition escalate :: "(rstring \<Rightarrow> rstring) \<Rightarrow> triage_facts \<Rightarrow> u32 \<Rightarrow> u32 \<Rightarrow> bool \<times> rstring list" where
  "escalate dbg facts lines files =
     (let start = [count_reason lines files];
          based = (if release_base (tf_base facts) then (True, start @ [base_reason dbg (tf_base facts)])
                   else (False, start));
          (strong, reasons) = check_files (tf_files facts) based in
      if over_tier_c lines files then (True, push_reason tier_c_reason reasons) else (strong, reasons))"

text \<open>The rest: why a pull request without an escalator is not tier A.\<close>

definition tier_b :: "triage_facts \<Rightarrow> u32 \<Rightarrow> u32 \<Rightarrow> rstring list \<Rightarrow> rstring list" where
  "tier_b facts lines files reasons =
     (let docs_only = list_all (\<lambda>f. is_docs_tests_or_translation (ff_path f)) (tf_files facts);
          dependency = list_ex (\<lambda>f. dependency_manifest (file_name (ff_path f))) (tf_files facts) in
      if lines \<le> REVIEW_SKIP_MAX_LINES \<and> files \<le> REVIEW_SKIP_MAX_FILES \<and> docs_only \<and> \<not> dependency
         \<and> tf_ci_green facts
      then push_reason tier_a_reason reasons
      else (let r1 = (if docs_only then reasons
                      else push_reason (bytes_of ''code changes, not only docs, tests or translations'') reasons);
                r2 = (if dependency then push_reason (bytes_of ''a dependency manifest changed'') r1 else r1);
                r3 = (if tf_ci_green facts then r2
                      else push_reason (bytes_of ''CI is not green or has not reported'') r2) in
            if REVIEW_SKIP_MAX_LINES < lines \<or> REVIEW_SKIP_MAX_FILES < files
            then push_reason quick_look_reason r3 else r3))"

definition triage :: "(rstring \<Rightarrow> rstring) \<Rightarrow> triage_facts \<Rightarrow> verdict" where
  "triage dbg facts =
     (let lines = changed_lines (tf_files facts); files = count_u32 (length (tf_files facts));
          (strong, reasons) = escalate dbg facts lines files in
      if strong then \<lparr>vd_tier = Tier_C, vd_reasons = reasons\<rparr>
      else \<lparr>vd_tier = Tier_B, vd_reasons = tier_b facts lines files reasons\<rparr>)"

section \<open>What a verdict means\<close>

definition escalates :: "file_facts \<Rightarrow> bool" where
  "escalates f \<longleftrightarrow> list_ex fst (file_checks (ff_path f))"

definition file_reasons :: "file_facts \<Rightarrow> rstring set" where
  "file_reasons f = {check_reason (ff_path f) what | what. (True, what) \<in> set (file_checks (ff_path f))}"

lemma set_push_reason [simp]: "set (push_reason r rs) = insert r (set rs)"
  by (auto simp: push_reason_def)

lemma run_checks_result:
  "fst (run_checks path cs acc) \<longleftrightarrow> fst acc \<or> list_ex fst cs"
  "set (snd (run_checks path cs acc))
     = set (snd acc) \<union> {check_reason path what | what. (True, what) \<in> set cs}"
  by (induction path cs acc rule: run_checks.induct) auto

lemma check_files_result:
  "fst (check_files fs acc) \<longleftrightarrow> fst acc \<or> list_ex escalates fs"
  "set (snd (check_files fs acc)) = set (snd acc) \<union> (\<Union> (file_reasons ` set fs))"
  by (induction fs acc rule: check_files.induct)
    (auto simp: run_checks_result escalates_def file_reasons_def)

lemma escalate_result:
  "fst (escalate dbg facts lines files) \<longleftrightarrow>
     release_base (tf_base facts) \<or> list_ex escalates (tf_files facts) \<or> over_tier_c lines files"
  "set (snd (escalate dbg facts lines files)) =
     insert (count_reason lines files)
       ((if release_base (tf_base facts) then {base_reason dbg (tf_base facts)} else {})
        \<union> (\<Union> (file_reasons ` set (tf_files facts)))
        \<union> (if over_tier_c lines files then {tier_c_reason} else {}))"
  using check_files_result [of "tf_files facts"]
  by (auto simp: escalate_def Let_def case_prod_unfold)

text \<open>The saturating counts compare with small caps as the exact ones do.\<close>

definition exact_lines :: "file_facts list \<Rightarrow> nat" where
  "exact_lines files = (\<Sum>f \<leftarrow> files. unat (ff_additions f) + unat (ff_deletions f))"

lemma saturated_sum_caps:
  fixes g :: "'a \<Rightarrow> nat"
  assumes "k < m"
  shows "k < min m (\<Sum>x \<leftarrow> xs. min m (g x)) \<longleftrightarrow> k < (\<Sum>x \<leftarrow> xs. g x)"
proof -
  have "min m (\<Sum>x \<leftarrow> xs. min m (g x)) = min m (\<Sum>x \<leftarrow> xs. g x)"
  proof (induction xs)
    case (Cons x xs)
    have split: "min m (min m a + b) = min m (a + min m b)" "min m (a + min m b) = min m (a + b)" for a b :: nat
      by (simp_all add: min_def)
    show ?case by (simp only: list.map sum_list.Cons split Cons.IH)
  qed simp
  with assms show ?thesis by simp
qed

lemma over_tier_c_exact:
  "over_tier_c (changed_lines files) (count_u32 n) \<longleftrightarrow> 400 < exact_lines files \<or> 15 < n"
proof -
  have "REVIEW_REQUEST_TIER_C_LINES < changed_lines files \<longleftrightarrow> 400 < unat (changed_lines files)"
    by (simp add: REVIEW_REQUEST_TIER_C_LINES_def word_less_nat_alt)
  also have "\<dots> \<longleftrightarrow> 400 < exact_lines files"
    unfolding unat_changed_lines exact_lines_def by (rule saturated_sum_caps) simp
  finally have lines: "REVIEW_REQUEST_TIER_C_LINES < changed_lines files \<longleftrightarrow> 400 < exact_lines files" .
  have "REVIEW_REQUEST_TIER_C_FILES < count_u32 n \<longleftrightarrow> 15 < unat (count_u32 n)"
    by (simp add: REVIEW_REQUEST_TIER_C_FILES_def word_less_nat_alt)
  also have "\<dots> \<longleftrightarrow> 15 < n" by (simp add: unat_count_u32)
  finally show ?thesis using lines by (simp add: over_tier_c_def)
qed

lemma triage_is_exact_tier:
  "vd_tier (triage dbg facts) =
     (if release_base (tf_base facts) \<or> list_ex escalates (tf_files facts)
         \<or> 400 < exact_lines (tf_files facts) \<or> 15 < length (tf_files facts)
      then Tier_C else Tier_B)"
  using escalate_result(1) [of dbg facts]
  by (simp add: triage_def Let_def case_prod_unfold over_tier_c_exact)

text \<open>C37: A pull request is tier C exactly when its base is a release branch, some file escalates, or it is over
  400 lines or 15 files, counted exactly in spite of the saturating sums; otherwise it is tier B, never
  tier A. A tier C verdict gives the counts and names every cause and nothing else.\<close>

theorem triage_is_exact:
  "vd_tier (triage dbg facts) =
     (if release_base (tf_base facts) \<or> list_ex escalates (tf_files facts)
         \<or> 400 < exact_lines (tf_files facts) \<or> 15 < length (tf_files facts)
      then Tier_C else Tier_B)
   \<and> (if vd_tier (triage dbg facts) = Tier_C
      then set (vd_reasons (triage dbg facts)) =
        insert (count_reason (changed_lines (tf_files facts)) (count_u32 (length (tf_files facts))))
          ((if release_base (tf_base facts) then {base_reason dbg (tf_base facts)} else {})
           \<union> (\<Union> (file_reasons ` set (tf_files facts)))
           \<union> (if 400 < exact_lines (tf_files facts) \<or> 15 < length (tf_files facts)
              then {tier_c_reason} else {}))
      else True)"
proof -
  let ?lines = "changed_lines (tf_files facts)" and ?n = "count_u32 (length (tf_files facts))"
  have tier: "vd_tier (triage dbg facts) = (if fst (escalate dbg facts ?lines ?n) then Tier_C else Tier_B)"
    by (simp add: triage_def Let_def case_prod_unfold)
  have reasons: "vd_reasons (triage dbg facts) = snd (escalate dbg facts ?lines ?n)"
    if "fst (escalate dbg facts ?lines ?n)"
    using that by (simp add: triage_def Let_def case_prod_unfold)
  show ?thesis
    unfolding tier using reasons escalate_result [of dbg facts ?lines ?n]
    by (simp add: over_tier_c_exact)
qed

text \<open>Adding files, or lines to a file's counts, never takes a pull request out of tier C.\<close>

lemma more_files_never_relax:
  assumes "vd_tier (triage dbg facts) = Tier_C" and "mset (tf_files facts) \<subseteq># mset bigger"
  shows "vd_tier (triage dbg (facts\<lparr>tf_files := bigger\<rparr>)) = Tier_C"
proof -
  from assms(2) obtain rest where m: "mset bigger = mset (tf_files facts @ rest)"
    by (metis mset_append mset_subset_eq_exists_conv ex_mset)
  then have "exact_lines bigger = exact_lines (tf_files facts @ rest)"
    unfolding exact_lines_def by (metis (no_types) mset_map sum_mset_sum_list)
  moreover have "length bigger = length (tf_files facts @ rest)" using m by (metis size_mset)
  moreover have "set bigger = set (tf_files facts @ rest)" using m by (metis set_mset_mset)
  ultimately show ?thesis
    using assms(1) triage_is_exact_tier [of dbg facts] triage_is_exact_tier [of dbg "facts\<lparr>tf_files := bigger\<rparr>"]
    by (auto simp: exact_lines_def list_ex_iff split: if_splits)
qed

end
