(* ===== verification/Session_Activity.thy ===== *)
theory Session_Activity
  imports Agent_Events "HOL-Library.Multiset"
begin

text \<open>
  What a session shows of its agent (\<^verbatim>\<open>core/houston-core/src/session_activity.rs\<close>) and how the daemon sends
  it to the clients, at most every half second (\<open>note_session_activity\<close> in \<^verbatim>\<open>daemon.rs\<close>). Text is UTF-8 bytes,
  instants are nanoseconds. The redaction of secrets is the parameter \<open>redact\<close>. Hooks are handled one at a
  time, so an update and its broadcast are one step, and so are a timer's flush and its broadcast.
\<close>

definition COALESCE_WINDOW :: nat where "COALESCE_WINDOW = 500 * 1000000"

definition LAST_MESSAGE_PROVIDERS :: "agent_kind list" where
  "LAST_MESSAGE_PROVIDERS = [Claude, Codex, Opencode, Antigravity, Zcode]"

definition capability_last_message :: "agent_kind \<Rightarrow> bool" where
  "capability_last_message agent \<longleftrightarrow> agent \<in> set LAST_MESSAGE_PROVIDERS"

record session_activity =
  sa_prompt :: "rstring option"
  sa_last_message :: "rstring option"
  sa_question :: "rstring option"
  sa_tool :: "rstring option"
  sa_model :: "rstring option"

record tracker =
  tk_activity :: "session_activity option"
  tk_last_sent :: "nat option"
  tk_pending :: bool

datatype dispatch = Unchanged | SendNow | Schedule nat

text \<open>The fields of a hook's report the tracker reads.\<close>

record hook_report =
  hr_event :: string
  hr_prompt :: "rstring option"
  hr_last_message :: "rstring option"
  hr_tool_name :: "rstring option"
  hr_reason :: "rstring option"
  hr_model :: "rstring option"

section \<open>One line of a text\<close>

text \<open>\<open>chars().take(n)\<close> on UTF-8: a character is a byte that continues none, with its continuations.\<close>

fun take_chars :: "nat \<Rightarrow> rstring \<Rightarrow> rstring" where
  "take_chars n [] = []"
| "take_chars n (b # s) =
     (if is_cont b then b # take_chars n s
      else case n of 0 \<Rightarrow> [] | Suc m \<Rightarrow> b # take_chars m s)"

definition char_count :: "rstring \<Rightarrow> nat" where
  "char_count s = length (filter (\<lambda>b. \<not> is_cont b) s)"

definition first_line :: "(rstring \<Rightarrow> rstring) \<Rightarrow> rstring \<Rightarrow> rstring option" where
  "first_line redact value =
     (case str_lines (redact value) of
        [] \<Rightarrow> None
      | l # _ \<Rightarrow> (let line = trim l in if line = [] then None else Some (take_chars 160 line)))"

definition field :: "(rstring \<Rightarrow> rstring) \<Rightarrow> rstring option \<Rightarrow> rstring option" where
  "field redact v = Option.bind v (first_line redact)"

section \<open>The tracker\<close>

definition tracker_default :: tracker where
  "tracker_default = \<lparr>tk_activity = None, tk_last_sent = None, tk_pending = False\<rparr>"

definition empty_activity :: session_activity where
  "empty_activity = \<lparr>sa_prompt = None, sa_last_message = None, sa_question = None, sa_tool = None, sa_model = None\<rparr>"

definition is_tool_end :: "agent_kind \<Rightarrow> string \<Rightarrow> bool" where
  "is_tool_end provider event \<longleftrightarrow>
     provider = Claude \<and> event \<in> {''PostToolUse'', ''PostToolUseFailure''}
     \<or> provider = Codex \<and> event = ''PostToolUse''
     \<or> provider = Antigravity \<and> event = ''PostToolUse''
     \<or> provider = Opencode \<and> event \<in> {''PostToolUse'', ''PostToolUseFailure''}"

definition ends_turn :: "agent_event option \<Rightarrow> bool" where
  "ends_turn e \<longleftrightarrow> e \<in> {Some TurnEnded, Some TurnInterrupted, Some TurnFailed}"

definition next_activity ::
  "(rstring \<Rightarrow> rstring) \<Rightarrow> agent_kind \<Rightarrow> hook_report \<Rightarrow> session_activity \<Rightarrow> session_activity" where
  "next_activity redact provider h a =
     (let kind = from_provider provider (hr_event h);
          a = (if kind = Some NeedsInput then a\<lparr>sa_question := field redact (hr_reason h)\<rparr>
               else if kind \<in> {Some PromptSubmitted, Some InputResolved} \<or> ends_turn kind
               then a\<lparr>sa_question := None\<rparr> else a);
          a = (if kind = Some PromptSubmitted
               then a\<lparr>sa_prompt := field redact (hr_prompt h), sa_last_message := None, sa_tool := None\<rparr> else a);
          a = (if capability_last_message provider \<and> field redact (hr_last_message h) \<noteq> None
               then a\<lparr>sa_last_message := field redact (hr_last_message h)\<rparr> else a);
          a = (if field redact (hr_model h) \<noteq> None then a\<lparr>sa_model := field redact (hr_model h)\<rparr> else a);
          a = (if is_tool_end provider (hr_event h) then a\<lparr>sa_tool := None\<rparr>
               else if field redact (hr_tool_name h) \<noteq> None then a\<lparr>sa_tool := field redact (hr_tool_name h)\<rparr>
               else a) in
      if ends_turn kind then a\<lparr>sa_tool := None\<rparr> else a)"

definition is_empty_activity :: "session_activity \<Rightarrow> bool" where
  "is_empty_activity a \<longleftrightarrow>
     sa_prompt a = None \<and> sa_question a = None \<and> sa_last_message a = None \<and> sa_tool a = None \<and> sa_model a = None"

definition current_activity :: "tracker \<Rightarrow> session_activity" where
  "current_activity t = (case tk_activity t of Some a \<Rightarrow> a | None \<Rightarrow> empty_activity)"

definition update_with_question ::
  "(rstring \<Rightarrow> rstring) \<Rightarrow> agent_kind \<Rightarrow> hook_report \<Rightarrow> nat \<Rightarrow> tracker \<Rightarrow> dispatch \<times> tracker" where
  "update_with_question redact provider h now t =
     (let before = current_activity t; a = next_activity redact provider h before in
      if a = before then (Unchanged, t)
      else
        let t = t\<lparr>tk_activity := if is_empty_activity a then None else Some a\<rparr> in
        case tk_last_sent t of
          None \<Rightarrow> (SendNow, t\<lparr>tk_last_sent := Some now\<rparr>)
        | Some last_sent \<Rightarrow>
            (let elapsed = now - last_sent in
             if COALESCE_WINDOW \<le> elapsed
             then (SendNow, t\<lparr>tk_last_sent := Some now, tk_pending := False\<rparr>)
             else if tk_pending t then (Unchanged, t)
             else (Schedule (COALESCE_WINDOW - elapsed), t\<lparr>tk_pending := True\<rparr>)))"

definition flush :: "nat \<Rightarrow> tracker \<Rightarrow> session_activity option option \<times> tracker" where
  "flush now t =
     (if \<not> tk_pending t then (None, t)
      else (Some (tk_activity t), t\<lparr>tk_pending := False, tk_last_sent := Some now\<rparr>))"

section \<open>The daemon around it\<close>

text \<open>One session: its tracker, the instants its sleeping timers are due, what the clients last
  received, and the instants of the messages that were sent, newest first.\<close>

record activity_feed =
  af_tracker :: tracker
  af_timers :: "nat multiset"
  af_client :: "session_activity option"
  af_sent :: "nat list"

definition feed_start :: activity_feed where
  "feed_start = \<lparr>af_tracker = tracker_default, af_timers = {#}, af_client = None, af_sent = []\<rparr>"

definition note_session_activity ::
  "(rstring \<Rightarrow> rstring) \<Rightarrow> agent_kind \<Rightarrow> hook_report \<Rightarrow> nat \<Rightarrow> activity_feed \<Rightarrow> activity_feed" where
  "note_session_activity redact provider h now s =
     (let (d, t) = update_with_question redact provider h now (af_tracker s); s = s\<lparr>af_tracker := t\<rparr> in
      case d of
        Unchanged \<Rightarrow> s
      | SendNow \<Rightarrow> s\<lparr>af_client := tk_activity t, af_sent := now # af_sent s\<rparr>
      | Schedule delay \<Rightarrow> s\<lparr>af_timers := add_mset (now + delay) (af_timers s)\<rparr>)"

text \<open>A timer that is due wakes up, now or later.\<close>

definition timer_fires :: "nat \<Rightarrow> nat \<Rightarrow> activity_feed \<Rightarrow> activity_feed" where
  "timer_fires due now s =
     (let (u, t) = flush now (af_tracker s);
          s = s\<lparr>af_tracker := t, af_timers := af_timers s - {#due#}\<rparr> in
      case u of None \<Rightarrow> s | Some a \<Rightarrow> s\<lparr>af_client := a, af_sent := now # af_sent s\<rparr>)"

inductive feed_reaches :: "(rstring \<Rightarrow> rstring) \<Rightarrow> nat \<Rightarrow> activity_feed \<Rightarrow> bool" for redact where
  start: "feed_reaches redact 0 feed_start"
| hook: "feed_reaches redact now s \<Longrightarrow> now \<le> later \<Longrightarrow>
     feed_reaches redact later (note_session_activity redact provider h later s)"
| timer: "feed_reaches redact now s \<Longrightarrow> now \<le> later \<Longrightarrow> due \<in># af_timers s \<Longrightarrow> due \<le> later \<Longrightarrow>
     feed_reaches redact later (timer_fires due later s)"

section \<open>What is shown is one short line\<close>

definition text_ok :: "rstring \<Rightarrow> bool" where
  "text_ok s \<longleftrightarrow> s \<noteq> [] \<and> ws_len s = 0 \<and> 10 \<notin> set s \<and> char_count s \<le> 160"

definition activity_texts :: "session_activity \<Rightarrow> rstring set" where
  "activity_texts a = set_option (sa_prompt a) \<union> set_option (sa_last_message a) \<union> set_option (sa_question a)
     \<union> set_option (sa_tool a) \<union> set_option (sa_model a)"

lemma split_lines_no_newline: "10 \<notin> set acc \<Longrightarrow> l \<in> set (split_lines acc s) \<Longrightarrow> 10 \<notin> set l"
  by (induction acc s rule: split_lines.induct)
    (auto simp: strip_cr_def dest: in_set_butlastD split: if_splits)

lemma trim_start_subset: "set (trim_start s) \<subseteq> set s"
proof (induction s rule: trim_start.induct)
  case (1 s)
  then show ?case
    by (subst trim_start.simps) (use set_drop_subset [of "ws_len s" s] in auto)
qed

lemma trim_end_subset: "set (trim_end s) \<subseteq> set s"
proof (induction s rule: trim_end.induct)
  case (1 s)
  then show ?case
    by (subst trim_end.simps) (use set_take_subset [of "length s - ws_len_end s" s] in auto)
qed

lemma take_chars_subset: "set (take_chars n s) \<subseteq> set s"
  by (induction n s rule: take_chars.induct) (auto split: nat.splits)

lemma take_chars_count: "char_count (take_chars n s) \<le> n"
  unfolding char_count_def by (induction n s rule: take_chars.induct) (auto split: nat.splits)

lemma take_chars_nonempty: "s \<noteq> [] \<Longrightarrow> take_chars (Suc n) s \<noteq> []"
  by (cases s) auto

text \<open>What begins without white space still does when the rest is cut.\<close>

lemma ws_len_prefix: "ws_len (s @ t) = 0 \<Longrightarrow> ws_len s = 0"
  by (cases s; cases "tl s"; cases "tl (tl s)") (auto split: if_splits)

lemma trim_start_no_space: "ws_len (trim_start s) = 0"
proof (induction s rule: trim_start.induct)
  case (1 s)
  then show ?case by (subst trim_start.simps) auto
qed

lemma trim_end_prefix: "\<exists>t. s = trim_end s @ t"
proof (induction s rule: trim_end.induct)
  case (1 s)
  show ?case
  proof (cases "ws_len_end s = 0 \<or> s = []")
    case True
    then show ?thesis by (subst trim_end.simps) auto
  next
    case False
    then obtain t where "take (length s - ws_len_end s) s = trim_end (take (length s - ws_len_end s) s) @ t"
      using 1 by blast
    then have "s = trim_end (take (length s - ws_len_end s) s) @ t @ drop (length s - ws_len_end s) s"
      by (metis append.assoc append_take_drop_id)
    moreover have "trim_end s = trim_end (take (length s - ws_len_end s) s)"
      using False by (subst trim_end.simps) auto
    ultimately show ?thesis by metis
  qed
qed

lemma take_chars_prefix: "\<exists>t. s = take_chars n s @ t"
  by (induction n s rule: take_chars.induct) (auto split: nat.splits)

lemma first_line_ok:
  assumes "first_line redact v = Some s" shows "text_ok s"
proof -
  from assms obtain l ls where l: "str_lines (redact v) = l # ls" "trim l \<noteq> []" "s = take_chars 160 (trim l)"
    by (auto simp: first_line_def Let_def split: list.splits if_splits)
  have "10 \<notin> set l" using split_lines_no_newline [of "[]" l "redact v"] l(1) by (simp add: str_lines_def)
  then have "10 \<notin> set (trim l)" using trim_start_subset trim_end_subset by (fastforce simp: trim_def)
  then have "10 \<notin> set s" using take_chars_subset l(3) by fastforce
  moreover have "s \<noteq> []" using take_chars_nonempty [OF l(2), of 159] l(3) by simp
  moreover have "ws_len s = 0"
  proof -
    obtain t u where "trim_start l = trim l @ t" "trim l = s @ u"
      using trim_end_prefix [of "trim_start l"] take_chars_prefix [of "trim l" 160] l(3) by (auto simp: trim_def)
    then have "ws_len (s @ u @ t) = 0" using trim_start_no_space [of l] by simp
    then show ?thesis by (rule ws_len_prefix)
  qed
  ultimately show ?thesis using take_chars_count [of 160 "trim l"] l(3) by (simp add: text_ok_def)
qed

lemma field_ok: "field redact v = Some s \<Longrightarrow> text_ok s"
  by (auto simp: field_def bind_eq_Some_conv dest: first_line_ok)

lemma next_activity_ok:
  "(\<And>s. s \<in> activity_texts a \<Longrightarrow> text_ok s) \<Longrightarrow> s \<in> activity_texts (next_activity redact provider h a) \<Longrightarrow> text_ok s"
  by (auto simp: next_activity_def activity_texts_def Let_def elem_set dest: field_ok split: if_splits)

lemma empty_is_no_text: "is_empty_activity a \<longleftrightarrow> activity_texts a = {}"
  by (auto simp: is_empty_activity_def activity_texts_def)

definition tracker_ok :: "tracker \<Rightarrow> bool" where
  "tracker_ok t \<longleftrightarrow> (\<forall>a. tk_activity t = Some a \<longrightarrow> activity_texts a \<noteq> {} \<and> Ball (activity_texts a) text_ok)"

lemma update_activity:
  "tk_activity (snd (update_with_question redact provider h now t)) =
     (let a = next_activity redact provider h (current_activity t) in
      if a = current_activity t then tk_activity t else if is_empty_activity a then None else Some a)"
  by (simp add: update_with_question_def Let_def split: option.split)

lemma flush_activity [simp]: "tk_activity (snd (flush now t)) = tk_activity t"
  by (simp add: flush_def)

lemma update_keeps_ok:
  assumes "tracker_ok t" shows "tracker_ok (snd (update_with_question redact provider h now t))"
proof -
  have "Ball (activity_texts (current_activity t)) text_ok"
    using assms by (cases "tk_activity t") (auto simp: tracker_ok_def current_activity_def activity_texts_def empty_activity_def)
  then have "Ball (activity_texts (next_activity redact provider h (current_activity t))) text_ok"
    using next_activity_ok by blast
  with assms show ?thesis
    by (auto simp: tracker_ok_def update_activity Let_def empty_is_no_text split: if_splits)
qed

lemma feed_tracker:
  "af_tracker (note_session_activity redact provider h now s)
     = snd (update_with_question redact provider h now (af_tracker s))"
  "af_tracker (timer_fires due now s) = snd (flush now (af_tracker s))"
  by (simp_all add: note_session_activity_def timer_fires_def Let_def case_prod_unfold split: dispatch.split option.split)

lemma feed_tracker_ok: "feed_reaches redact now s \<Longrightarrow> tracker_ok (af_tracker s)"
proof (induction rule: feed_reaches.induct)
  case start
  then show ?case by (simp add: feed_start_def tracker_default_def tracker_ok_def)
next
  case (hook now s later provider h)
  then show ?case by (simp add: feed_tracker update_keeps_ok)
next
  case (timer now s later due)
  then show ?case by (simp add: feed_tracker tracker_ok_def)
qed

section \<open>The clients' copy\<close>

text \<open>A change the clients do not have yet is pending, and a timer for it is due within the window.\<close>

definition feed_ok :: "activity_feed \<Rightarrow> bool" where
  "feed_ok s \<longleftrightarrow>
     (if tk_pending (af_tracker s)
      then \<exists>last due. tk_last_sent (af_tracker s) = Some last \<and> due \<in># af_timers s \<and> due \<le> last + COALESCE_WINDOW
      else af_client s = tk_activity (af_tracker s))"

lemma hook_keeps_feed_ok:
  assumes "feed_ok s"
  shows "feed_ok (note_session_activity redact provider h now s)"
proof -
  let ?t = "af_tracker s"
  let ?a = "next_activity redact provider h (current_activity ?t)"
  show ?thesis
  proof (cases "?a = current_activity ?t")
    case True
    then show ?thesis using assms
      by (simp add: note_session_activity_def update_with_question_def Let_def)
  next
    case changed: False
    show ?thesis
    proof (cases "tk_last_sent ?t")
      case None
      then have "\<not> tk_pending ?t" using assms by (auto simp: feed_ok_def split: if_splits)
      with None changed show ?thesis
        by (simp add: note_session_activity_def update_with_question_def feed_ok_def Let_def)
    next
      case (Some last)
      consider "COALESCE_WINDOW \<le> now - last" | "now - last < COALESCE_WINDOW" "tk_pending ?t"
        | "now - last < COALESCE_WINDOW" "\<not> tk_pending ?t" by linarith
      then show ?thesis
      proof cases
        case 1
        with Some changed show ?thesis
          by (simp add: note_session_activity_def update_with_question_def feed_ok_def Let_def)
      next
        case 2
        with Some changed assms show ?thesis
          by (simp add: note_session_activity_def update_with_question_def feed_ok_def Let_def)
      next
        case 3
        with Some changed show ?thesis
          by (auto simp: note_session_activity_def update_with_question_def feed_ok_def Let_def
              intro!: exI [of _ "now + (COALESCE_WINDOW - (now - last))"])
      qed
    qed
  qed
qed

lemma timer_keeps_feed_ok: "feed_ok s \<Longrightarrow> feed_ok (timer_fires due now s)"
  by (simp add: timer_fires_def flush_def feed_ok_def Let_def)

lemma feed_reaches_ok: "feed_reaches redact now s \<Longrightarrow> feed_ok s"
proof (induction rule: feed_reaches.induct)
  case start
  then show ?case by (simp add: feed_start_def feed_ok_def tracker_default_def)
next
  case (hook now s later provider h)
  then show ?case by (simp add: hook_keeps_feed_ok)
next
  case (timer now s later due)
  then show ?case by (simp add: timer_keeps_feed_ok)
qed

section \<open>Properties\<close>

text \<open>C24: Whatever hooks arrive and however late timers wake up, the clients either have the session's
  activity as it is, or a timer is set that sends it no later than half a second after the last message;
  once no timer is left they have it.\<close>

theorem clients_catch_up:
  assumes "feed_reaches redact now s"
  shows "(af_client s = tk_activity (af_tracker s)
          \<or> (\<exists>last due. tk_last_sent (af_tracker s) = Some last \<and> due \<in># af_timers s
              \<and> due \<le> last + COALESCE_WINDOW
              \<and> (\<forall>late. af_client (timer_fires due late s) = tk_activity (af_tracker (timer_fires due late s)))))
         \<and> (af_timers s \<noteq> {#} \<or> af_client s = tk_activity (af_tracker s))"
proof (cases "tk_pending (af_tracker s)")
  case True
  then have "\<exists>last due. tk_last_sent (af_tracker s) = Some last \<and> due \<in># af_timers s \<and> due \<le> last + COALESCE_WINDOW"
    using feed_reaches_ok [OF assms] by (simp add: feed_ok_def)
  moreover have "af_client (timer_fires due late s) = tk_activity (af_tracker (timer_fires due late s))" for due late
    using True by (simp add: timer_fires_def flush_def Let_def)
  ultimately show ?thesis by fastforce
next
  case False
  then show ?thesis using feed_reaches_ok [OF assms] by (simp add: feed_ok_def)
qed

definition model_hook :: "rstring \<Rightarrow> hook_report" where
  "model_hook m = \<lparr>hr_event = ''Hook'', hr_prompt = None, hr_last_message = None, hr_tool_name = None,
     hr_reason = None, hr_model = Some m\<rparr>"

text \<open>Two reports of a model, the second 400 milliseconds after the first.\<close>

definition two_hooks :: activity_feed where
  "two_hooks = note_session_activity id Shell (model_hook [98]) 400000000
     (note_session_activity id Shell (model_hook [97]) 0 feed_start)"

lemma two_hooks_reached: "feed_reaches id 400000000 two_hooks"
  unfolding two_hooks_def
  by (rule feed_reaches.hook [of _ 0], rule feed_reaches.hook [OF feed_reaches.start]) simp_all

lemma first_line_letter: "97 \<le> b \<Longrightarrow> b \<le> 122 \<Longrightarrow> first_line id [b] = Some [b]"
proof -
  assume b: "97 \<le> b" "b \<le> 122"
  then have n: "b \<noteq> 10" "b \<noteq> 13" "b \<noteq> 32" "\<not> b \<le> 13" "\<not> is_cont b"
    by (auto simp: is_cont_def word_le_nat_alt)
  have w: "ws_len [b] = 0" using n by simp
  have "ws_len_end [b] = 0" using w by (simp add: ws_len_end_def)
  then have "trim [b] = [b]" using w by (simp add: trim_def trim_start.simps trim_end.simps)
  moreover have "take_chars 160 [b] = [b]" using n by (simp add: numeral_eq_Suc)
  ultimately show ?thesis using n by (simp add: first_line_def str_lines_def)
qed

lemma next_activity_model:
  "97 \<le> b \<Longrightarrow> b \<le> 122 \<Longrightarrow> next_activity id Shell (model_hook [b]) a = a\<lparr>sa_model := Some [b]\<rparr>"
  by (simp add: next_activity_def model_hook_def field_def first_line_letter from_provider_def ends_turn_def
      is_tool_end_def Let_def)

lemma two_hooks_state:
  "two_hooks = \<lparr>af_tracker = \<lparr>tk_activity = Some (empty_activity\<lparr>sa_model := Some [98]\<rparr>), tk_last_sent = Some 0,
       tk_pending = True\<rparr>,
     af_timers = {#500000000#}, af_client = Some (empty_activity\<lparr>sa_model := Some [97]\<rparr>), af_sent = [0]\<rparr>"
  by (simp add: two_hooks_def note_session_activity_def update_with_question_def feed_start_def tracker_default_def
      current_activity_def next_activity_model empty_activity_def is_empty_activity_def COALESCE_WINDOW_def Let_def)

theorem clients_catch_up_witness:
  "\<exists>due. due \<in># af_timers two_hooks \<and> due \<le> COALESCE_WINDOW"
  using clients_catch_up [OF two_hooks_reached] by (auto simp: two_hooks_state empty_activity_def)

text \<open>C38: Every text a session shows is one line of at most 160 characters that begins with something other
  than white space, so is not blank, and an activity that is shown shows something.\<close>

theorem shown_texts_are_short_lines:
  assumes "feed_reaches redact now s" and "tk_activity (af_tracker s) = Some a"
  shows "activity_texts a \<noteq> {} \<and> activity_texts a \<subseteq> {t. t \<noteq> [] \<and> ws_len t = 0 \<and> 10 \<notin> set t \<and> char_count t \<le> 160}"
  using feed_tracker_ok [OF assms(1)] assms(2) by (auto simp: tracker_ok_def text_ok_def)

theorem shown_texts_are_short_lines_witness:
  "activity_texts (empty_activity\<lparr>sa_model := Some [98]\<rparr>) \<noteq> {}
   \<and> activity_texts (empty_activity\<lparr>sa_model := Some [98]\<rparr>) \<subseteq> {t. t \<noteq> [] \<and> ws_len t = 0 \<and> 10 \<notin> set t \<and> char_count t \<le> 160}"
  by (rule shown_texts_are_short_lines [OF two_hooks_reached]) (simp add: two_hooks_state)

text \<open>A timer that wakes up late, after an update has sent in its place, cuts the next window short: the
  clients get two messages a millisecond apart.\<close>

lemma late_timer_cuts_a_window_short:
  "af_sent (timer_fires 500000000 506000000
     (note_session_activity id Shell (model_hook [100]) 505500000
       (note_session_activity id Shell (model_hook [99]) 505000000 two_hooks))) = [506000000, 505000000, 0]"
  by (simp add: two_hooks_state note_session_activity_def update_with_question_def current_activity_def
      next_activity_model empty_activity_def is_empty_activity_def COALESCE_WINDOW_def timer_fires_def flush_def
      Let_def)

text \<open>ZCode reports \<open>PostToolUse\<close> like the others, but is not among the providers of \<open>is_tool_end\<close>: the
  report that a tool has ended shows the tool instead of clearing it.\<close>

lemma zcode_tool_end_shows_the_tool:
  assumes "hr_event h \<in> {''PostToolUse'', ''PostToolUseFailure''}" and "field redact (hr_tool_name h) = Some tool"
  shows "sa_tool (next_activity redact Zcode h a) = Some tool"
    and "sa_tool (next_activity redact Opencode h a) = None"
  using assms
  by (auto simp: next_activity_def Let_def is_tool_end_def ends_turn_def from_provider_def event_tables)

end
