(* ===== verification/Phone_Text.thy ===== *)
theory Phone_Text
  imports Rust_Std
begin

text \<open>
  Text as the conversation feed of a paired device handles it
  (\<^verbatim>\<open>core/houston-core/src/remote/feed.rs\<close>, \<^verbatim>\<open>remote/mod.rs\<close>): a Rust \<open>String\<close> is here the list of its
  characters, by code point, and its length in bytes is the length of its UTF-8 encoding. The masking of
  secrets (regular expressions) is the parameter \<open>redact\<close>.
\<close>

type_synonym ctext = "nat list"

section \<open>UTF-8\<close>

definition char_bytes :: "nat \<Rightarrow> nat" where
  "char_bytes c = (if c < 0x80 then 1 else if c < 0x800 then 2 else if c < 0x10000 then 3 else 4)"

definition text_len :: "ctext \<Rightarrow> nat" where
  "text_len s = sum_list (map char_bytes s)"

definition encode_char :: "nat \<Rightarrow> byte list" where
  "encode_char c = map word_of_nat
     (if c < 0x80 then [c]
      else if c < 0x800 then [0xC0 + c div 64, 0x80 + c mod 64]
      else if c < 0x10000 then [0xE0 + c div 4096, 0x80 + c div 64 mod 64, 0x80 + c mod 64]
      else [0xF0 + c div 262144, 0x80 + c div 4096 mod 64, 0x80 + c div 64 mod 64, 0x80 + c mod 64])"

definition into_bytes :: "ctext \<Rightarrow> byte list" where
  "into_bytes s = concat (map encode_char s)"

lemma text_len_append [simp]: "text_len (s @ t) = text_len s + text_len t"
  by (simp add: text_len_def)

lemma text_len_simps [simp]: "text_len [] = 0" "text_len (c # s) = char_bytes c + text_len s"
  by (simp_all add: text_len_def)

lemma length_encode_char: "length (encode_char c) = char_bytes c"
  by (simp add: encode_char_def char_bytes_def)

lemma length_into_bytes: "length (into_bytes s) = text_len s"
  by (induction s) (simp_all add: into_bytes_def length_encode_char)

text \<open>The encoding can be read back: no character's bytes begin another's.\<close>

definition encode_nats :: "nat \<Rightarrow> nat list" where
  "encode_nats c =
     (if c < 0x80 then [c]
      else if c < 0x800 then [0xC0 + c div 64, 0x80 + c mod 64]
      else if c < 0x10000 then [0xE0 + c div 4096, 0x80 + c div 64 mod 64, 0x80 + c mod 64]
      else [0xF0 + c div 262144, 0x80 + c div 4096 mod 64, 0x80 + c div 64 mod 64, 0x80 + c mod 64])"

definition scalar :: "nat \<Rightarrow> bool" where "scalar c \<longleftrightarrow> c < 0x110000"

lemma encode_char_nats: "encode_char c = map word_of_nat (encode_nats c)"
  by (simp add: encode_char_def encode_nats_def)

lemma encode_nats_bytes:
  assumes "scalar c" shows "\<forall>x \<in> set (encode_nats c). x < 256"
proof -
  have "c div 64 < 32" if "c < 0x800" using that by simp
  moreover have "c div 4096 < 16" if "c < 0x10000" using that by simp
  moreover have "c div 262144 < 5" using assms by (simp add: scalar_def)
  moreover have "x mod 64 < 64" for x :: nat by simp
  ultimately show ?thesis by (auto simp: encode_nats_def)
qed

lemma two_parts: "c div 64 = d div 64 \<Longrightarrow> c mod 64 = d mod 64 \<Longrightarrow> c = (d :: nat)"
  by (metis div_mult_mod_eq)

lemma encode_nats_prefix:
  assumes "scalar c" and "scalar d" and eq: "encode_nats c @ r = encode_nats d @ r'"
  shows "c = d \<and> r = r'"
proof -
  have h: "hd (encode_nats x) = (if x < 0x80 then x else if x < 0x800 then 0xC0 + x div 64
      else if x < 0x10000 then 0xE0 + x div 4096 else 0xF0 + x div 262144)" for x
    by (simp add: encode_nats_def)
  have "hd (encode_nats c) = hd (encode_nats d)"
    using eq by (metis (no_types) append_is_Nil_conv encode_nats_def hd_append2 list.distinct(1))
  then have class': "(c < 0x80 \<longleftrightarrow> d < 0x80) \<and> (c < 0x800 \<longleftrightarrow> d < 0x800) \<and> (c < 0x10000 \<longleftrightarrow> d < 0x10000)"
  proof -
    have b: "x div 64 < 32" if "x < 0x800" for x :: nat using that by simp
    have b2: "x div 4096 < 16" if "x < 0x10000" for x :: nat using that by simp
    show ?thesis using \<open>hd (encode_nats c) = hd (encode_nats d)\<close> b [of c] b [of d] b2 [of c] b2 [of d]
      unfolding h by (auto split: if_splits)
  qed
  have parts: "x div 64 div 64 = x div 4096" "x div 4096 div 64 = x div 262144" for x :: nat
    by (simp_all add: div_mult2_eq [symmetric])
  consider "c < 0x80" | "\<not> c < 0x80" "c < 0x800" | "\<not> c < 0x800" "c < 0x10000" | "\<not> c < 0x10000" by blast
  then show ?thesis
  proof cases
    case 1
    then show ?thesis using eq class' by (simp add: encode_nats_def)
  next
    case 2
    then have "c div 64 = d div 64" "c mod 64 = d mod 64" "r = r'" using eq class' by (auto simp: encode_nats_def)
    then show ?thesis using two_parts by blast
  next
    case 3
    then have "c div 64 div 64 = d div 64 div 64" "c div 64 mod 64 = d div 64 mod 64" "c mod 64 = d mod 64" "r = r'"
      using eq class' unfolding parts by (auto simp: encode_nats_def)
    then show ?thesis using two_parts by blast
  next
    case 4
    then have "c div 4096 div 64 = d div 4096 div 64" "c div 4096 mod 64 = d div 4096 mod 64"
      "c div 64 mod 64 = d div 64 mod 64" "c mod 64 = d mod 64" "r = r'"
      using eq class' unfolding parts by (auto simp: encode_nats_def)
    then show ?thesis using two_parts parts(1) by metis
  qed
qed

lemma map_word_inj:
  assumes "\<forall>x \<in> set xs. x < 256" and "\<forall>y \<in> set ys. y < 256" and "map word_of_nat xs = (map word_of_nat ys :: byte list)"
  shows "xs = ys"
proof -
  have "map unat (map word_of_nat xs :: byte list) = xs" if "\<forall>x \<in> set xs. x < 256" for xs
    using that by (auto simp: unat_word_of_nat_byte intro!: map_idI)
  with assms show ?thesis by metis
qed

lemma into_bytes_nats: "into_bytes s = map word_of_nat (concat (map encode_nats s))"
  unfolding into_bytes_def encode_char_nats [abs_def] by (induction s) simp_all

lemma into_bytes_inj:
  assumes "\<forall>c \<in> set s. scalar c" and "\<forall>c \<in> set t. scalar c" and "into_bytes s = into_bytes t"
  shows "s = t"
proof -
  have bytes: "\<forall>x \<in> set (concat (map encode_nats u)). x < 256" if "\<forall>c \<in> set u. scalar c" for u
    using that encode_nats_bytes by auto
  have nonempty: "encode_nats c \<noteq> []" for c by (simp add: encode_nats_def)
  have "concat (map encode_nats s) = concat (map encode_nats t)"
    using map_word_inj [OF bytes [OF assms(1)] bytes [OF assms(2)]] assms(3) by (simp add: into_bytes_nats)
  then show ?thesis using assms(1,2)
  proof (induction s arbitrary: t)
    case Nil
    then show ?case using nonempty by (cases t) auto
  next
    case (Cons c s)
    then obtain d u where t: "t = d # u" using nonempty [of c] by (cases t) auto
    with Cons.prems encode_nats_prefix [of c d] have "c = d \<and> concat (map encode_nats s) = concat (map encode_nats u)"
      by simp
    with Cons t show ?case by simp
  qed
qed

section \<open>Characters\<close>

definition is_control :: "nat \<Rightarrow> bool" where
  "is_control c \<longleftrightarrow> c < 0x20 \<or> 0x7F \<le> c \<and> c \<le> 0x9F"

definition is_whitespace :: "nat \<Rightarrow> bool" where
  "is_whitespace c \<longleftrightarrow>
     9 \<le> c \<and> c \<le> 13 \<or> c = 0x20 \<or> c = 0x85 \<or> c = 0xA0 \<or> c = 0x1680 \<or> 0x2000 \<le> c \<and> c \<le> 0x200A
     \<or> c = 0x2028 \<or> c = 0x2029 \<or> c = 0x202F \<or> c = 0x205F \<or> c = 0x3000"

definition is_format_char :: "nat \<Rightarrow> bool" where
  "is_format_char c \<longleftrightarrow>
     c = 0xAD \<or> 0x600 \<le> c \<and> c \<le> 0x605 \<or> c = 0x61C \<or> c = 0x6DD \<or> c = 0x70F
     \<or> c = 0x180E \<or> 0x200B \<le> c \<and> c \<le> 0x200F \<or> 0x202A \<le> c \<and> c \<le> 0x202E
     \<or> 0x2060 \<le> c \<and> c \<le> 0x2064 \<or> 0x2066 \<le> c \<and> c \<le> 0x206F \<or> c = 0xFEFF
     \<or> 0xFFF9 \<le> c \<and> c \<le> 0xFFFB \<or> c = 0xE0001 \<or> 0xE0020 \<le> c \<and> c \<le> 0xE007F"

definition trim_text :: "ctext \<Rightarrow> ctext" where
  "trim_text s = rev (dropWhile is_whitespace (rev (dropWhile is_whitespace s)))"

text \<open>\<open>replace\<close> of a carriage return and newline by a newline.\<close>

fun replace_crlf :: "ctext \<Rightarrow> ctext" where
  "replace_crlf (c # d # s) = (if c = 13 \<and> d = 10 then 10 # replace_crlf s else c # replace_crlf (d # s))"
| "replace_crlf s = s"

section \<open>Cutting and flattening\<close>

definition ellipsis_char :: nat where "ellipsis_char = 0x2026"

definition cut_chars :: "ctext \<Rightarrow> nat \<Rightarrow> ctext" where
  "cut_chars s limit = (if length s \<le> limit then s else take (limit - 1) s @ [ellipsis_char])"

text \<open>The characters that lie wholly within the first \<open>n\<close> bytes.\<close>

fun fit_bytes :: "nat \<Rightarrow> ctext \<Rightarrow> ctext" where
  "fit_bytes n [] = []"
| "fit_bytes n (c # s) = (if char_bytes c \<le> n then c # fit_bytes (n - char_bytes c) s else [])"

definition cut_bytes :: "ctext \<Rightarrow> nat \<Rightarrow> ctext" where
  "cut_bytes s limit = (if text_len s \<le> limit then s else fit_bytes (limit - 3) s @ [ellipsis_char])"

fun plain_loop :: "bool \<Rightarrow> ctext \<Rightarrow> ctext \<Rightarrow> bool \<Rightarrow> ctext \<times> bool" where
  "plain_loop keep_newlines [] out hidden = (out, hidden)"
| "plain_loop keep_newlines (c # s) out hidden =
     (if (c = 10 \<or> c = 9) \<and> keep_newlines then plain_loop keep_newlines s (out @ [c]) hidden
      else if c = 10 \<or> c = 13 \<or> c = 9
      then plain_loop keep_newlines s (if out \<noteq> [] \<and> last out = 0x20 then out else out @ [0x20]) hidden
      else if is_control c then plain_loop keep_newlines s out hidden
      else if is_format_char c then plain_loop keep_newlines s out True
      else plain_loop keep_newlines s (out @ [c]) hidden)"

definition plain_text :: "ctext \<Rightarrow> bool \<Rightarrow> ctext \<times> bool" where
  "plain_text s keep_newlines =
     (let (out, hidden) = plain_loop keep_newlines (replace_crlf s) [] False in (trim_text out, hidden))"

definition one_line :: "ctext \<Rightarrow> ctext" where
  "one_line s = fst (plain_text s False)"

definition mask_text :: "(ctext \<Rightarrow> ctext) \<Rightarrow> ctext \<Rightarrow> ctext" where
  "mask_text redact s = redact (fst (plain_text s True))"

definition plain_target :: "(ctext \<Rightarrow> ctext) \<Rightarrow> ctext \<Rightarrow> nat \<Rightarrow> bool \<Rightarrow> ctext \<times> bool" where
  "plain_target redact raw limit keep_newlines =
     (let (text, hidden) = plain_text (redact raw) keep_newlines; cut = limit < length text in
      (cut_chars text limit, cut \<or> hidden))"

section \<open>Text a device types\<close>

definition INPUT_TEXT_MAX :: nat where "INPUT_TEXT_MAX = 4096"

datatype input_error = Text_Too_Long nat | Control_Character nat

definition validate_input_text :: "ctext \<Rightarrow> input_error + ctext" where
  "validate_input_text raw =
     (if INPUT_TEXT_MAX < length raw then Inl (Text_Too_Long (length raw))
      else let text = map (\<lambda>c. if c = 13 then 10 else c) (replace_crlf raw) in
        case List.find (\<lambda>c. is_control c \<and> c \<noteq> 10) text of
          Some bad \<Rightarrow> Inl (Control_Character bad)
        | None \<Rightarrow> Inr text)"

section \<open>What a device is shown\<close>

lemma cut_chars_bound: "0 < limit \<Longrightarrow> length (cut_chars s limit) \<le> limit"
  by (simp add: cut_chars_def)

lemma fit_bytes_bound: "text_len (fit_bytes n s) \<le> n"
  by (induction n s rule: fit_bytes.induct) auto

lemma cut_bytes_bound: "3 \<le> limit \<Longrightarrow> text_len (cut_bytes s limit) \<le> limit"
  using fit_bytes_bound [of "limit - 3" s] by (auto simp: cut_bytes_def ellipsis_char_def char_bytes_def)

lemma trim_text_subset: "set (trim_text s) \<subseteq> set s"
  unfolding trim_text_def using set_dropWhileD by (fastforce dest: set_dropWhileD)

definition shown :: "bool \<Rightarrow> nat \<Rightarrow> bool" where
  "shown keep c \<longleftrightarrow> \<not> is_format_char c \<and> (is_control c \<longrightarrow> keep \<and> c \<in> {9, 10})"

lemma shown_simps: "shown keep 0x20" "keep \<Longrightarrow> shown keep 10" "keep \<Longrightarrow> shown keep 9"
  "\<not> is_control c \<Longrightarrow> \<not> is_format_char c \<Longrightarrow> shown keep c"
  by (simp_all add: shown_def is_format_char_def is_control_def)

lemma plain_loop_chars:
  "Ball (set out) (shown keep) \<Longrightarrow> Ball (set (fst (plain_loop keep s out hidden))) (shown keep)"
proof (induction keep s out hidden rule: plain_loop.induct)
  case (2 keep c s out hidden)
  show ?case
  proof (cases "(c = 10 \<or> c = 9) \<and> keep")
    case True
    then have "Ball (set (out @ [c])) (shown keep)" using "2.prems" shown_simps(2,3) by auto
    with "2.IH"(1) [OF True this] True show ?thesis by simp
  next
    case n1: False
    show ?thesis
    proof (cases "c = 10 \<or> c = 13 \<or> c = 9")
      case True
      have "Ball (set (if out \<noteq> [] \<and> last out = 0x20 then out else out @ [0x20])) (shown keep)"
        using "2.prems" shown_simps(1) by simp
      with "2.IH"(2) [OF n1 True this] show ?thesis
        unfolding plain_loop.simps if_not_P [OF n1] if_P [OF True] by blast
    next
      case n2: False
      have snoc: "\<not> is_control c \<Longrightarrow> \<not> is_format_char c \<Longrightarrow> Ball (set (out @ [c])) (shown keep)"
        using "2.prems" shown_simps(4) by simp
      show ?thesis
        using "2.IH"(3) [OF n1 n2] "2.IH"(4) [OF n1 n2] "2.IH"(5) [OF n1 n2] snoc "2.prems"
        unfolding plain_loop.simps if_not_P [OF n1] if_not_P [OF n2] by simp
    qed
  qed
qed simp

text \<open>No bidirectional or invisible format character reaches a device, no control character but a kept
  newline or tab, and whoever shows the text knows when one was taken out.\<close>

lemma plain_text_is_plain:
  "\<forall>c \<in> set (fst (plain_text s keep)). \<not> is_format_char c \<and> (is_control c \<longrightarrow> keep \<and> c \<in> {9, 10})"
proof -
  have "Ball (set (fst (plain_text s keep))) (shown keep)"
    using plain_loop_chars [of "[]" keep "replace_crlf s" False] trim_text_subset
    unfolding plain_text_def case_prod_unfold Let_def by auto
  then show ?thesis unfolding shown_def by blast
qed

lemma plain_loop_hidden:
  "snd (plain_loop keep s out hidden) \<longleftrightarrow> hidden \<or> list_ex is_format_char s"
proof (induction keep s out hidden rule: plain_loop.induct)
  case (2 keep c s out hidden)
  have "\<not> is_format_char c" if "c = 10 \<or> c = 13 \<or> c = 9 \<or> is_control c"
    using that by (auto simp: is_format_char_def is_control_def)
  with 2 show ?case by auto
qed simp

lemma replace_crlf_set: "c \<noteq> 13 \<Longrightarrow> c \<in> set (replace_crlf s) \<longleftrightarrow> c \<in> set s"
  by (induction s rule: replace_crlf.induct) auto

lemma plain_text_reports_hidden: "snd (plain_text s keep) \<longleftrightarrow> (\<exists>c \<in> set s. is_format_char c)"
proof -
  have "\<not> is_format_char 13" by (simp add: is_format_char_def)
  then have "list_ex is_format_char (replace_crlf s) \<longleftrightarrow> (\<exists>c \<in> set s. is_format_char c)"
    unfolding list_ex_iff using replace_crlf_set by metis
  then show ?thesis
    using plain_loop_hidden [of keep "replace_crlf s" "[]" False] by (simp add: plain_text_def case_prod_unfold)
qed

text \<open>Typed text that is one line and passes the check is typed as it is.\<close>

lemma replace_crlf_same: "13 \<notin> set s \<Longrightarrow> replace_crlf s = s"
  by (induction s rule: replace_crlf.induct) auto

lemma replace_crlf_keeps_break: "13 \<in> set s \<Longrightarrow> 13 \<in> set (replace_crlf s) \<or> 10 \<in> set (replace_crlf s)"
  by (induction s rule: replace_crlf.induct) auto

lemma validated_line:
  assumes "validate_input_text raw = Inr text" and "10 \<notin> set text"
  shows "text = raw \<and> (\<forall>c \<in> set raw. \<not> is_control c) \<and> length raw \<le> INPUT_TEXT_MAX"
proof -
  let ?t = "map (\<lambda>c. if c = 13 then 10 else c) (replace_crlf raw)"
  from assms(1) have t: "text = ?t" and f: "List.find (\<lambda>c. is_control c \<and> c \<noteq> 10) ?t = None"
    and len: "length raw \<le> INPUT_TEXT_MAX"
    by (auto simp: validate_input_text_def Let_def split: if_splits option.splits)
  from t assms(2) have "13 \<notin> set (replace_crlf raw)" "10 \<notin> set (replace_crlf raw)" by auto
  with replace_crlf_keeps_break have no: "13 \<notin> set raw" by blast
  then have same: "?t = raw" using replace_crlf_same [OF no] by (auto intro: map_idI)
  with f have "\<forall>c \<in> set raw. \<not> (is_control c \<and> c \<noteq> 10)" by (simp add: find_None_iff)
  with assms(2) t same len show ?thesis by auto
qed

text \<open>A target is masked before its invisible characters are taken out, every other text after: an
  invisible character inside a secret hides it from the mask and the target is shown in clear.\<close>

lemma invisible_character_defeats_the_mask:
  fixes secret :: ctext
  defines "redact \<equiv> \<lambda>s. if contains secret s then [42] else s"
  assumes "secret = [115, 107, 45, 49]"
  shows "fst (plain_target redact [115, 107, 0x200B, 45, 49] 300 True) = secret"
    and "mask_text redact [115, 107, 0x200B, 45, 49] = [42]"
  by (simp_all add: redact_def assms plain_target_def plain_text_def mask_text_def cut_chars_def trim_text_def
      is_whitespace_def is_format_char_def is_control_def)

end
