(* ===== verification/Phone_Feed.thy ===== *)
theory Phone_Feed
  imports Phone_Text Agent_Events "HOL-Library.AList"
begin

text \<open>
  The conversation a paired device reads, held by the daemon in memory
  (\<^verbatim>\<open>Store\<close> in \<^verbatim>\<open>core/houston-core/src/remote/feed.rs\<close>): one bounded ring of entries per session, with the card
  the pane is blocked on. The hash map is a list of pairs in the order it happens to iterate; sizes are
  \<open>nat\<close>, and an operation whose subtraction goes below zero is \<open>None\<close> (Rust panics there in a debug build and
  wraps around in a release build). \<open>redact\<close> masks secrets. The random epoch is an argument.
\<close>

definition SUMMARY_MAX_CHARS :: nat where "SUMMARY_MAX_CHARS = 300"
definition STEP_MAX_CHARS :: nat where "STEP_MAX_CHARS = 120"
definition EXCERPT_MAX_CHARS :: nat where "EXCERPT_MAX_CHARS = 160"
definition ENTRIES_PER_SESSION :: nat where "ENTRIES_PER_SESSION = 200"
definition BYTES_PER_SESSION :: nat where "BYTES_PER_SESSION = 512 * 1024"
definition BYTES_TOTAL :: nat where "BYTES_TOTAL = 32 * 1024 * 1024"
definition TURN_FILES_MAX :: nat where "TURN_FILES_MAX = 32"
definition TURN_PATH_MAX_CHARS :: nat where "TURN_PATH_MAX_CHARS = 300"
definition ACTIVITY_MAX_ENTRIES :: nat where "ACTIVITY_MAX_ENTRIES = 500"
definition ACTIVITY_TITLE_MAX_CHARS :: nat where "ACTIVITY_TITLE_MAX_CHARS = 300"

section \<open>Entries and cards\<close>

record turn_counts =
  tc_read :: nat
  tc_search :: nat
  tc_edit :: nat
  tc_run :: nat
  tc_other :: nat

record feed_turn =
  tn_prompted_at :: "nat option"
  tn_counts :: turn_counts
  tn_files :: "ctext list"

record edit_diff =
  ed_path :: ctext
  ed_lines :: "(ctext \<times> ctext) list"
  ed_truncated :: bool

record question_option =
  qo_label :: ctext
  qo_description :: ctext

record question =
  qu_header :: ctext
  qu_question :: ctext
  qu_options :: "question_option list"
  qu_multi_select :: bool
  qu_previews :: bool
  qu_free_text :: bool

datatype feed_item =
    Item_Prompt ctext
  | Item_Reply ctext
  | Item_Question "ctext option" "question list" "ctext list option"
  | Item_Answer "ctext list"
  | Item_Permission ctext ctext bool bool "string option" "edit_diff option"
  | Item_Step ctext ctext bool
  | Item_Status string
  | Item_Turn_End nat string turn_counts "ctext list"

definition len_sum :: "ctext list \<Rightarrow> nat" where
  "len_sum ts = sum_list (map text_len ts)"

definition question_weight :: "question \<Rightarrow> nat" where
  "question_weight q = text_len (qu_question q) + text_len (qu_header q)
     + sum_list (map (\<lambda>o'. text_len (qo_label o') + text_len (qo_description o')) (qu_options q))"

fun weight :: "feed_item \<Rightarrow> nat" where
  "weight (Item_Prompt text) = 64 + text_len text"
| "weight (Item_Reply text) = 64 + text_len text"
| "weight (Item_Question _ questions answers) =
     64 + (sum_list (map question_weight questions) + (case answers of Some a \<Rightarrow> len_sum a | None \<Rightarrow> 0))"
| "weight (Item_Answer answers) = 64 + len_sum answers"
| "weight (Item_Permission tool target _ _ _ diff) =
     64 + (text_len tool + text_len target
       + (case diff of
            Some d \<Rightarrow> text_len (ed_path d) + sum_list (map (\<lambda>(op', t). text_len op' + text_len t + 32) (ed_lines d))
          | None \<Rightarrow> 0))"
| "weight (Item_Step tool target _) = 64 + (text_len tool + text_len target)"
| "weight (Item_Status _) = 64 + 0"
| "weight (Item_Turn_End _ _ _ files) = 64 + (64 + len_sum files)"

record feed_entry =
  fe_seq :: nat
  fe_at :: nat
  fe_item :: feed_item

datatype card =
    Card_Permission bool
  | Card_Question "ctext option" "question list"
  | Card_Input

datatype answered = Sent | Elsewhere

record pending_card =
  pd_seq :: nat
  pd_card :: card
  pd_title :: ctext
  pd_detail :: ctext
  pd_truncated :: bool
  pd_diff :: "edit_diff option"
  pd_provider :: agent_kind
  pd_since_ms :: nat
  pd_answered :: "answered option"

record session_feed =
  sf_next_seq :: nat
  sf_entries :: "feed_entry list"
  sf_bytes :: nat
  sf_pending :: "pending_card option"
  sf_last_reply_excerpt :: "ctext option"
  sf_last_step :: "ctext option"
  sf_turn :: feed_turn

record activity_entry =
  ac_seq :: nat
  ac_at :: nat
  ac_session :: nat
  ac_kind :: string
  ac_title :: ctext
  ac_excerpt :: "ctext option"
  ac_action :: "string option"
  ac_device :: "ctext option"

record store =
  st_sessions :: "(nat \<times> session_feed) list"
  st_bytes :: nat
  st_collecting :: bool
  st_epoch :: string
  st_activity :: "activity_entry list"
  st_activity_seq :: nat

definition no_counts :: turn_counts where
  "no_counts = \<lparr>tc_read = 0, tc_search = 0, tc_edit = 0, tc_run = 0, tc_other = 0\<rparr>"

definition turn_default :: feed_turn where
  "turn_default = \<lparr>tn_prompted_at = None, tn_counts = no_counts, tn_files = []\<rparr>"

definition session_feed_default :: session_feed where
  "session_feed_default = \<lparr>sf_next_seq = 0, sf_entries = [], sf_bytes = 0, sf_pending = None,
     sf_last_reply_excerpt = None, sf_last_step = None, sf_turn = turn_default\<rparr>"

definition store_default :: "string \<Rightarrow> store" where
  "store_default epoch = \<lparr>st_sessions = [], st_bytes = 0, st_collecting = False, st_epoch = epoch,
     st_activity = [], st_activity_seq = 0\<rparr>"

section \<open>Sessions of the store\<close>

abbreviation feed_of :: "store \<Rightarrow> nat \<Rightarrow> session_feed option" where
  "feed_of s \<equiv> map_of (st_sessions s)"

text \<open>\<open>entry(session).or_default()\<close>.\<close>

definition feed_or_default :: "store \<Rightarrow> nat \<Rightarrow> session_feed" where
  "feed_or_default s session = (case feed_of s session of Some f \<Rightarrow> f | None \<Rightarrow> session_feed_default)"

definition put_feed :: "nat \<Rightarrow> session_feed \<Rightarrow> store \<Rightarrow> store" where
  "put_feed session f s = s\<lparr>st_sessions := AList.update session f (st_sessions s)\<rparr>"

section \<open>Pushing an entry\<close>

definition checked_sub :: "nat \<Rightarrow> nat \<Rightarrow> nat option" where
  "checked_sub a b = (if b \<le> a then Some (a - b) else None)"

definition saturating_inc64 :: "nat \<Rightarrow> nat" where
  "saturating_inc64 n = min (2 ^ 64 - 1) (n + 1)"

definition step_category :: "ctext \<Rightarrow> string" where
  "step_category tool =
     (let named = (\<lambda>names. tool \<in> (\<lambda>n. map of_char n) ` set names) in
      if named [''Read'', ''read_file'', ''read'', ''view_file'', ''read_url_content''] then ''read''
      else if named [''Grep'', ''Glob'', ''WebSearch'', ''search'', ''grep'', ''glob'', ''grep_search'',
        ''find_by_name'', ''list_dir'', ''search_web''] then ''search''
      else if named [''Edit'', ''MultiEdit'', ''Write'', ''NotebookEdit'', ''edit'', ''write'', ''edit_file'',
        ''write_file'', ''apply_patch'', ''write_to_file'', ''replace_file_content'',
        ''multi_replace_file_content''] then ''edit''
      else if named [''Bash'', ''Shell'', ''shell'', ''run_command'', ''exec_command'', ''bash''] then ''run''
      else ''other'')"

definition count_step :: "ctext \<Rightarrow> turn_counts \<Rightarrow> turn_counts" where
  "count_step tool c =
     (let k = step_category tool in
      if k = ''read'' then c\<lparr>tc_read := saturating_inc64 (tc_read c)\<rparr>
      else if k = ''search'' then c\<lparr>tc_search := saturating_inc64 (tc_search c)\<rparr>
      else if k = ''edit'' then c\<lparr>tc_edit := saturating_inc64 (tc_edit c)\<rparr>
      else if k = ''run'' then c\<lparr>tc_run := saturating_inc64 (tc_run c)\<rparr>
      else c\<lparr>tc_other := saturating_inc64 (tc_other c)\<rparr>)"

fun note_item :: "feed_item \<Rightarrow> nat \<Rightarrow> session_feed \<Rightarrow> session_feed" where
  "note_item (Item_Reply text) now_ms f =
     f\<lparr>sf_last_reply_excerpt := Some (cut_chars (one_line text) EXCERPT_MAX_CHARS)\<rparr>"
| "note_item (Item_Step tool target _) now_ms f =
     f\<lparr>sf_turn := (sf_turn f)\<lparr>tn_counts := count_step tool (tn_counts (sf_turn f))\<rparr>,
       sf_last_step := Some (cut_chars (if target = [] then tool else tool @ 0x20 # target) STEP_MAX_CHARS)\<rparr>"
| "note_item (Item_Prompt _) now_ms f =
     f\<lparr>sf_last_step := None, sf_turn := turn_default\<lparr>tn_prompted_at := Some now_ms\<rparr>\<rparr>"
| "note_item _ now_ms f = f"

text \<open>Takes the oldest entry out; the result is what it freed.\<close>

definition evict_oldest :: "session_feed \<Rightarrow> (nat \<times> session_feed) option" where
  "evict_oldest f =
     (case sf_entries f of
        [] \<Rightarrow> Some (0, f)
      | e # es \<Rightarrow>
          map_option (\<lambda>bytes. (weight (fe_item e), f\<lparr>sf_entries := es, sf_bytes := bytes\<rparr>))
            (checked_sub (sf_bytes f) (weight (fe_item e))))"

definition session_over :: "session_feed \<Rightarrow> bool" where
  "session_over f \<longleftrightarrow>
     ENTRIES_PER_SESSION < length (sf_entries f) \<or> BYTES_PER_SESSION < sf_bytes f \<and> 1 < length (sf_entries f)"

lemma evict_oldest_shorter:
  assumes "evict_oldest f = Some (w, g)" and "session_over f"
  shows "length (sf_entries g) < length (sf_entries f)"
  using assms by (auto simp: evict_oldest_def session_over_def checked_sub_def ENTRIES_PER_SESSION_def
      split: list.splits if_splits)

function evict_session :: "nat \<Rightarrow> session_feed \<Rightarrow> (nat \<times> session_feed) option" where
  "evict_session freed f =
     (if session_over f
      then case evict_oldest f of
          None \<Rightarrow> None
        | Some (w, g) \<Rightarrow> evict_session (freed + w) g
      else Some (freed, f))"
  by pat_completeness auto
termination
  by (relation "measure (\<lambda>(freed, f). length (sf_entries f))") (auto simp: evict_oldest_shorter)

declare evict_session.simps [simp del]

text \<open>\<open>max_by_key\<close> over the sessions that hold more than one entry: the last of the largest.\<close>

definition largest_index :: "(nat \<times> session_feed) list \<Rightarrow> nat option" where
  "largest_index ss =
     (case filter (\<lambda>i. 1 < length (sf_entries (snd (ss ! i)))) [0..<length ss] of
        [] \<Rightarrow> None
      | i # is \<Rightarrow>
          Some (foldl (\<lambda>best j. if sf_bytes (snd (ss ! best)) \<le> sf_bytes (snd (ss ! j)) then j else best) i is))"

lemma foldl_picks: "(\<And>a b. h a b \<in> {a, b}) \<Longrightarrow> foldl h b js \<in> insert b (set js)"
proof (induction js arbitrary: b)
  case (Cons j js)
  have "foldl h (h b j) js \<in> insert (h b j) (set js)" by (rule Cons.IH [OF Cons.prems])
  with Cons.prems [of b j] show ?case by auto
qed simp

lemma largest_index_SomeD:
  assumes "largest_index ss = Some i"
  shows "i < length ss" and "1 < length (sf_entries (snd (ss ! i)))"
proof -
  let ?c = "filter (\<lambda>i. 1 < length (sf_entries (snd (ss ! i)))) [0..<length ss]"
  from assms obtain b js where c: "?c = b # js"
    and i: "i = foldl (\<lambda>best j. if sf_bytes (snd (ss ! best)) \<le> sf_bytes (snd (ss ! j)) then j else best) b js"
    by (auto simp: largest_index_def split: list.splits)
  have "i \<in> set ?c" unfolding c i list.set(2) by (rule foldl_picks) simp
  then show "i < length ss" "1 < length (sf_entries (snd (ss ! i)))" by auto
qed

definition entries_held :: "(nat \<times> session_feed) list \<Rightarrow> nat" where
  "entries_held ss = sum_list (map (\<lambda>x. length (sf_entries (snd x))) ss)"

lemma sum_list_list_update:
  fixes g :: "'a \<Rightarrow> nat"
  assumes "i < length xs"
  shows "sum_list (map g (xs[i := y])) + g (xs ! i) = sum_list (map g xs) + g y"
  using assms
proof (induction xs arbitrary: i)
  case (Cons x xs)
  then show ?case by (cases i) (auto simp: algebra_simps)
qed simp

function evict_total :: "nat \<Rightarrow> (nat \<times> session_feed) list \<Rightarrow> (nat \<times> (nat \<times> session_feed) list) option" where
  "evict_total bytes ss =
     (if bytes \<le> BYTES_TOTAL then Some (bytes, ss)
      else case largest_index ss of
          None \<Rightarrow> Some (bytes, ss)
        | Some i \<Rightarrow>
            (case evict_oldest (snd (ss ! i)) of
               None \<Rightarrow> None
             | Some (w, g) \<Rightarrow>
                 (case checked_sub bytes w of
                    None \<Rightarrow> None
                  | Some b \<Rightarrow> evict_total b (ss[i := (fst (ss ! i), g)]))))"
  by pat_completeness auto
termination
proof (relation "measure (\<lambda>(bytes, ss). entries_held ss)")
  fix bytes ss i x w g b
  assume i: "largest_index ss = Some i" and e: "evict_oldest (snd (ss ! i)) = Some x" "(w, g) = x"
  have "length (sf_entries g) < length (sf_entries (snd (ss ! i)))"
    using e largest_index_SomeD(2) [OF i]
    by (auto simp: evict_oldest_def checked_sub_def split: list.splits if_splits)
  with sum_list_list_update [OF largest_index_SomeD(1) [OF i],
      of "\<lambda>x. length (sf_entries (snd x))" "(fst (ss ! i), g)"]
  show "((b, ss[i := (fst (ss ! i), g)]), (bytes, ss)) \<in> measure (\<lambda>(bytes, ss). entries_held ss)"
    by (simp add: entries_held_def)
qed simp

declare evict_total.simps [simp del]

definition append_item :: "feed_item \<Rightarrow> nat \<Rightarrow> session_feed \<Rightarrow> session_feed" where
  "append_item item now_ms f =
     f\<lparr>sf_next_seq := sf_next_seq f + 1,
       sf_entries := sf_entries f @ [\<lparr>fe_seq = sf_next_seq f + 1, fe_at = now_ms, fe_item = item\<rparr>],
       sf_bytes := sf_bytes f + weight item\<rparr>"

definition feed_push :: "nat \<Rightarrow> feed_item \<Rightarrow> nat \<Rightarrow> store \<Rightarrow> (nat option \<times> store) option" where
  "feed_push session item now_ms s =
     (if \<not> st_collecting s then Some (None, s)
      else
        let f = append_item item now_ms (note_item item now_ms (feed_or_default s session)) in
        case evict_session 0 f of
          None \<Rightarrow> None
        | Some (freed, g) \<Rightarrow>
            (case checked_sub (st_bytes s + weight item) freed of
               None \<Rightarrow> None
             | Some bytes \<Rightarrow>
                 map_option (\<lambda>(b, ss). (Some (sf_next_seq f), s\<lparr>st_sessions := ss, st_bytes := b\<rparr>))
                   (evict_total bytes (AList.update session g (st_sessions s)))))"

section \<open>The other operations\<close>

definition set_collecting :: "bool \<Rightarrow> string \<Rightarrow> store \<Rightarrow> store" where
  "set_collecting on new_epoch s =
     (if on = st_collecting s then s
      else s\<lparr>st_collecting := on, st_sessions := [], st_activity := [], st_activity_seq := 0, st_bytes := 0,
             st_epoch := new_epoch\<rparr>)"

definition activity_add ::
  "(ctext \<Rightarrow> ctext) \<Rightarrow> nat \<Rightarrow> string \<Rightarrow> ctext \<Rightarrow> ctext option \<Rightarrow> (string \<times> ctext option) option \<Rightarrow> nat
     \<Rightarrow> store \<Rightarrow> store" where
  "activity_add redact session kind title excerpt by' now_ms s =
     (if \<not> st_collecting s then s
      else
        let seq = st_activity_seq s + 1;
            entry = \<lparr>ac_seq = seq, ac_at = now_ms, ac_session = session, ac_kind = kind,
              ac_title = cut_chars (mask_text redact title) ACTIVITY_TITLE_MAX_CHARS,
              ac_excerpt = map_option (\<lambda>t. cut_chars (mask_text redact t) EXCERPT_MAX_CHARS) excerpt,
              ac_action = map_option fst by', ac_device = Option.bind by' snd\<rparr>;
            all = st_activity s @ [entry] in
        s\<lparr>st_activity_seq := seq, st_activity := drop (length all - ACTIVITY_MAX_ENTRIES) all\<rparr>)"

definition activity_push ::
  "(ctext \<Rightarrow> ctext) \<Rightarrow> nat \<Rightarrow> string \<Rightarrow> ctext \<Rightarrow> ctext option \<Rightarrow> nat \<Rightarrow> store \<Rightarrow> store" where
  "activity_push redact session kind title excerpt now_ms s =
     activity_add redact session kind title excerpt None now_ms s"

definition activity_action ::
  "(ctext \<Rightarrow> ctext) \<Rightarrow> nat \<Rightarrow> string \<Rightarrow> ctext \<Rightarrow> ctext \<Rightarrow> nat \<Rightarrow> store \<Rightarrow> store" where
  "activity_action redact session action device title now_ms s =
     activity_add redact session ''action'' title None
       (Some (action, Some (cut_chars (mask_text redact device) ACTIVITY_TITLE_MAX_CHARS))) now_ms s"

definition page_gap :: "nat \<Rightarrow> nat \<Rightarrow> nat \<Rightarrow> bool" where
  "page_gap after first_seq last_seq \<longleftrightarrow> min (2 ^ 64 - 1) (after + 1) < first_seq \<and> after < last_seq"

definition activity_page :: "nat \<Rightarrow> store \<Rightarrow> string \<times> activity_entry list \<times> bool" where
  "activity_page after s =
     (st_epoch s, filter (\<lambda>e. after < ac_seq e) (st_activity s),
      (case st_activity s of [] \<Rightarrow> False | e # _ \<Rightarrow> page_gap after (ac_seq e) (st_activity_seq s)))"

definition note_edited_path :: "(ctext \<Rightarrow> ctext) \<Rightarrow> nat \<Rightarrow> ctext \<Rightarrow> store \<Rightarrow> store" where
  "note_edited_path redact session path s =
     (if \<not> st_collecting s then s
      else
        let f = feed_or_default s session; files = tn_files (sf_turn f);
            path = cut_chars (mask_text redact path) TURN_PATH_MAX_CHARS in
        put_feed session
          (if path \<noteq> [] \<and> length files < TURN_FILES_MAX \<and> path \<notin> set files
           then f\<lparr>sf_turn := (sf_turn f)\<lparr>tn_files := files @ [path]\<rparr>\<rparr> else f) s)"

definition repeats_turn_end :: "nat \<Rightarrow> ctext option \<Rightarrow> store \<Rightarrow> bool" where
  "repeats_turn_end session reply s =
     (case feed_of s session of
        None \<Rightarrow> False
      | Some f \<Rightarrow>
          (case map fe_item (rev (sf_entries f)) of
             Item_Status status # Item_Turn_End _ _ _ _ # rest \<Rightarrow>
               status = ''finished''
               \<and> (reply = None
                  \<or> reply = (case rest of Item_Reply text # _ \<Rightarrow> Some text | _ \<Rightarrow> None))
           | _ \<Rightarrow> False))"

definition end_turn :: "nat \<Rightarrow> string \<Rightarrow> nat \<Rightarrow> store \<Rightarrow> feed_item option \<times> store" where
  "end_turn session outcome now_ms s =
     (if \<not> st_collecting s then (None, s)
      else
        let f = feed_or_default s session; turn = sf_turn f in
        (Some (Item_Turn_End (case tn_prompted_at turn of Some at \<Rightarrow> now_ms - at | None \<Rightarrow> 0) outcome
           (tn_counts turn) (tn_files turn)),
         put_feed session (f\<lparr>sf_turn := turn_default\<rparr>) s))"

definition set_pending :: "nat \<Rightarrow> pending_card \<Rightarrow> store \<Rightarrow> bool \<times> store" where
  "set_pending session p s =
     (if \<not> st_collecting s then (False, s)
      else
        let f = feed_or_default s session in
        if pd_card p = Card_Input \<and> sf_pending f \<noteq> None then (False, put_feed session f s)
        else (True, put_feed session (f\<lparr>sf_pending := Some p\<rparr>) s))"

text \<open>Changes the first entry with a sequence number.\<close>

fun update_entry :: "nat \<Rightarrow> (feed_item \<Rightarrow> feed_item) \<Rightarrow> feed_entry list \<Rightarrow> feed_entry list" where
  "update_entry seq h [] = []"
| "update_entry seq h (e # es) =
     (if fe_seq e = seq then e\<lparr>fe_item := h (fe_item e)\<rparr> # es else e # update_entry seq h es)"

fun resolved_item :: "feed_item \<Rightarrow> feed_item" where
  "resolved_item (Item_Permission tool target always truncated _ diff) =
     Item_Permission tool target always truncated (Some ''resolved'') diff"
| "resolved_item item = item"

fun answered_item :: "ctext list \<Rightarrow> feed_item \<Rightarrow> feed_item" where
  "answered_item answers (Item_Question tool_use_id questions _) = Item_Question tool_use_id questions (Some answers)"
| "answered_item answers item = item"

definition resolve_pending :: "nat \<Rightarrow> store \<Rightarrow> bool \<times> store" where
  "resolve_pending session s =
     (case feed_of s session of
        None \<Rightarrow> (False, s)
      | Some f \<Rightarrow>
          (case sf_pending f of
             None \<Rightarrow> (False, s)
           | Some p \<Rightarrow>
               (True, put_feed session
                  (f\<lparr>sf_pending := None, sf_entries := update_entry (pd_seq p) resolved_item (sf_entries f)\<rparr>) s)))"

definition id_matches :: "ctext option \<Rightarrow> ctext option \<Rightarrow> bool" where
  "id_matches tool_use_id i \<longleftrightarrow> tool_use_id = None \<or> i = tool_use_id"

definition card_target :: "ctext option \<Rightarrow> session_feed \<Rightarrow> nat option" where
  "card_target tool_use_id f =
     (case sf_pending f of
        Some p \<Rightarrow>
          (case pd_card p of
             Card_Question i _ \<Rightarrow> if id_matches tool_use_id i then Some (pd_seq p) else None
           | _ \<Rightarrow> None)
      | None \<Rightarrow> None)"

definition open_question :: "ctext option \<Rightarrow> feed_entry \<Rightarrow> bool" where
  "open_question tool_use_id e \<longleftrightarrow>
     (case fe_item e of Item_Question i _ None \<Rightarrow> id_matches tool_use_id i | _ \<Rightarrow> False)"

definition answer_target :: "ctext option \<Rightarrow> session_feed \<Rightarrow> nat option" where
  "answer_target tool_use_id f =
     or_else (card_target tool_use_id f)
       (map_option fe_seq (List.find (open_question tool_use_id) (rev (sf_entries f))))"

definition answer_question :: "nat \<Rightarrow> ctext option \<Rightarrow> ctext list \<Rightarrow> store \<Rightarrow> bool \<times> store" where
  "answer_question session tool_use_id answers s =
     (case feed_of s session of
        None \<Rightarrow> (False, s)
      | Some f \<Rightarrow>
          let f1 = (if card_target tool_use_id f \<noteq> None then f\<lparr>sf_pending := None\<rparr> else f) in
          (case answer_target tool_use_id f of
             None \<Rightarrow> (False, s)
           | Some seq \<Rightarrow>
               (True, put_feed session
                  (f1\<lparr>sf_entries := update_entry seq (answered_item answers) (sf_entries f1)\<rparr>) s)))"

definition forget :: "nat \<Rightarrow> store \<Rightarrow> store option" where
  "forget session s =
     (case feed_of s session of
        None \<Rightarrow> Some s
      | Some f \<Rightarrow>
          map_option (\<lambda>b. s\<lparr>st_sessions := AList.delete session (st_sessions s), st_bytes := b\<rparr>)
            (checked_sub (st_bytes s) (sf_bytes f)))"

definition prune :: "nat \<Rightarrow> (nat \<Rightarrow> bool) \<Rightarrow> store \<Rightarrow> store option" where
  "prune at keep s =
     (if length (st_sessions s) \<le> at then Some s
      else
        let freed = sum_list (map (\<lambda>x. sf_bytes (snd x)) (filter (\<lambda>x. \<not> keep (fst x)) (st_sessions s))) in
        map_option (\<lambda>b. s\<lparr>st_sessions := filter (\<lambda>x. keep (fst x)) (st_sessions s), st_bytes := b\<rparr>)
          (checked_sub (st_bytes s) freed))"

end
