(* ===== verification/Phone_Decision.thy ===== *)
theory Phone_Decision
  imports Phone_Feed
begin

text \<open>
  Answering a card from a paired device (\<^verbatim>\<open>core/houston-core/src/remote/feed.rs\<close>): the device's choice, the
  keys a provider's prompt takes for it, and the step that checks a card and consumes it. Refusals are
  constructors; the sentences they are printed with are left out.
\<close>

section \<open>The choice\<close>

datatype choice = Approve | Always | Deny | Option_Number nat | Other_Text ctext

datatype choice_error = Other_Needs_Text | Not_Recognised ctext

definition ctext_of :: "string \<Rightarrow> ctext" where
  "ctext_of s = map of_char s"

text \<open>\<open>parse::<usize>\<close>: decimal digits, an optional plus sign, and no overflow.\<close>

definition digits_value :: "ctext \<Rightarrow> nat" where
  "digits_value ds = foldl (\<lambda>acc d. acc * 10 + (d - 48)) 0 ds"

definition parse_usize :: "ctext \<Rightarrow> nat option" where
  "parse_usize t =
     (let ds = (case t of c # r \<Rightarrow> if c = 43 then r else t | [] \<Rightarrow> []) in
      if ds \<noteq> [] \<and> list_all (\<lambda>d. 48 \<le> d \<and> d \<le> 57) ds \<and> digits_value ds < 2 ^ 64
      then Some (digits_value ds) else None)"

definition choice_parse :: "ctext \<Rightarrow> ctext option \<Rightarrow> choice_error + choice" where
  "choice_parse raw text =
     (let t = trim_text raw in
      if t = ctext_of ''approve'' then Inr Approve
      else if t = ctext_of ''always'' then Inr Always
      else if t = ctext_of ''deny'' then Inr Deny
      else if t = ctext_of ''other''
      then case filter_option (\<lambda>x. x \<noteq> []) (map_option trim_text text) of
          Some x \<Rightarrow> Inr (Other_Text x)
        | None \<Rightarrow> Inl Other_Needs_Text
      else case parse_usize t of
          Some i \<Rightarrow> if 1 \<le> i then Inr (Option_Number i) else Inl (Not_Recognised raw)
        | None \<Rightarrow> Inl (Not_Recognised raw))"

section \<open>Keys\<close>

record key_plan =
  kp_writes :: "byte list list"
  kp_settle_ms :: nat

definition SETTLE_MS :: nat where "SETTLE_MS = 120"
definition OPTIONS_MAX :: nat where "OPTIONS_MAX = 9"

definition DOWN :: "byte list" where "DOWN = [0x1B, 0x5B, 0x42]"
definition RIGHT :: "byte list" where "RIGHT = [0x1B, 0x5B, 0x43]"
definition ENTER :: "byte list" where "ENTER = [0x0D]"
definition ESC :: "byte list" where "ESC = [0x1B]"

definition downs :: "nat \<Rightarrow> byte list list" where
  "downs n = replicate n DOWN"

datatype unsupported =
    No_Structured_Request agent_kind
  | Several_Answers agent_kind ctext
  | Several_Questions agent_kind nat
  | Antigravity_Not_Verified
  | No_Key_Mapping agent_kind

datatype key_error =
    Key_Unsupported unsupported
  | Offers_No_Always agent_kind
  | Option_Out_Of_Range nat nat
  | Takes_No_Typed_Answer agent_kind ctext nat
  | Previews_Without_Text
  | Beyond_One_Digit nat
  | Bad_Text input_error
  | Several_Lines
  | Not_For_A_Permission choice
  | Not_For_A_Question choice

definition decision_support :: "agent_kind \<Rightarrow> card \<Rightarrow> unsupported + unit" where
  "decision_support provider c =
     (case c of
        Card_Input \<Rightarrow> Inl (No_Structured_Request provider)
      | Card_Permission _ \<Rightarrow>
          if provider \<in> {Claude, Codex, Opencode} then Inr ()
          else if provider = Antigravity then Inl Antigravity_Not_Verified
          else Inl (No_Key_Mapping provider)
      | Card_Question _ questions \<Rightarrow>
          if provider \<in> {Claude, Codex, Opencode}
          then case questions of
              [q] \<Rightarrow> if \<not> qu_multi_select q then Inr () else Inl (Several_Answers provider (qu_question q))
            | qs \<Rightarrow> Inl (Several_Questions provider (length qs))
          else if provider = Antigravity then Inl Antigravity_Not_Verified
          else Inl (No_Key_Mapping provider))"

definition permission_keys :: "agent_kind \<Rightarrow> bool \<Rightarrow> choice \<Rightarrow> key_error + byte list list" where
  "permission_keys provider always choice =
     (case choice of
        Approve \<Rightarrow> Inr (if provider = Codex then [[0x79]] else if provider = Opencode then [ENTER] else [[0x31]])
      | Always \<Rightarrow>
          if always
          then Inr (if provider = Codex then [[0x61]]
                    else if provider = Opencode then [RIGHT, ENTER, ENTER] else [[0x32]])
          else Inl (Offers_No_Always provider)
      | Deny \<Rightarrow> Inr (if provider = Codex then [[0x64]] else [ESC])
      | _ \<Rightarrow> Inl (Not_For_A_Permission choice))"

definition typed_answer_keys :: "agent_kind \<Rightarrow> question \<Rightarrow> ctext \<Rightarrow> key_error + byte list list" where
  "typed_answer_keys provider q raw =
     (let other = length (qu_options q) + 1 in
      if \<not> qu_free_text q
      then Inl (Takes_No_Typed_Answer provider (qu_question q) (length (qu_options q)))
      else if qu_previews q then Inl Previews_Without_Text
      else if provider = Claude \<and> OPTIONS_MAX < other then Inl (Beyond_One_Digit other)
      else case validate_input_text raw of
          Inl e \<Rightarrow> Inl (Bad_Text e)
        | Inr text \<Rightarrow>
            if 10 \<in> set text then Inl Several_Lines
            else Inr (if provider \<in> {Codex, Opencode}
                      then downs (length (qu_options q)) @ [ENTER, into_bytes text, ENTER]
                      else [bytes_of (dec other), into_bytes text, ENTER]))"

definition question_keys :: "agent_kind \<Rightarrow> question \<Rightarrow> choice \<Rightarrow> key_error + byte list list" where
  "question_keys provider q choice =
     (case choice of
        Option_Number n \<Rightarrow>
          if length (qu_options q) < n then Inl (Option_Out_Of_Range n (length (qu_options q)))
          else Inr (if provider = Codex then [bytes_of (dec n)]
                    else if provider = Opencode then downs (n - 1) @ [ENTER]
                    else if qu_previews q then [bytes_of (dec n), ENTER] else [bytes_of (dec n)])
      | Other_Text raw \<Rightarrow> typed_answer_keys provider q raw
      | _ \<Rightarrow> Inl (Not_For_A_Question choice))"

definition decision_keys :: "agent_kind \<Rightarrow> card \<Rightarrow> choice \<Rightarrow> key_error + key_plan" where
  "decision_keys provider c choice =
     (case decision_support provider c of
        Inl e \<Rightarrow> Inl (Key_Unsupported e)
      | Inr _ \<Rightarrow>
          map_sum id (\<lambda>writes. \<lparr>kp_writes = writes, kp_settle_ms = SETTLE_MS\<rparr>)
            (case c of
               Card_Permission always \<Rightarrow> permission_keys provider always choice
             | Card_Question _ questions \<Rightarrow> question_keys provider (hd questions) choice
             | Card_Input \<Rightarrow> Inl (Key_Unsupported (No_Structured_Request provider))))"

definition card_title :: "card \<Rightarrow> ctext option \<Rightarrow> ctext" where
  "card_title c tool =
     (case c of
        Card_Permission _ \<Rightarrow> (case tool of Some t \<Rightarrow> t | None \<Rightarrow> ctext_of ''tool'')
      | Card_Question _ questions \<Rightarrow> (case questions of q # _ \<Rightarrow> cut_chars (qu_question q) 80 | [] \<Rightarrow> [])
      | Card_Input \<Rightarrow> ctext_of ''Needs you'')"

section \<open>Consuming a card\<close>

datatype refusal =
    Refused_Epoch
  | Not_Pending "nat option"
  | Refused_Answered answered
  | Refused_Unsupported unsupported
  | Partial_Target
  | Partial_Diff nat nat
  | Refused_Choice key_error

definition begin_decision ::
  "nat \<Rightarrow> string \<Rightarrow> nat \<Rightarrow> choice \<Rightarrow> bool \<Rightarrow> store \<Rightarrow> (refusal + key_plan) \<times> store" where
  "begin_decision session epoch seq choice waiting s =
     (if st_epoch s \<noteq> epoch then (Inl Refused_Epoch, s)
      else if \<not> waiting then (Inl (Not_Pending None), s)
      else
        case Option.bind (feed_of s session) (\<lambda>f. map_option (Pair f) (sf_pending f)) of
          None \<Rightarrow> (Inl (Not_Pending None), s)
        | Some (f, p) \<Rightarrow>
            if \<not> (pd_seq p = seq \<and> pd_seq p \<noteq> 0)
            then (Inl (Not_Pending (if pd_seq p \<noteq> 0 then Some (pd_seq p) else None)), s)
            else case pd_answered p of
              Some a \<Rightarrow> (Inl (Refused_Answered a), s)
            | None \<Rightarrow>
                (case decision_support (pd_provider p) (pd_card p) of
                   Inl e \<Rightarrow> (Inl (Refused_Unsupported e), s)
                 | Inr _ \<Rightarrow>
                     (case (if choice \<in> {Approve, Always} then filter_option ed_truncated (pd_diff p) else None) of
                        Some d \<Rightarrow>
                          (Inl (Partial_Diff (length (ed_lines d))
                             (fold max (map (\<lambda>(_, t). length t) (ed_lines d)) 0)), s)
                      | None \<Rightarrow>
                          if choice \<in> {Approve, Always} \<and> pd_truncated p then (Inl Partial_Target, s)
                          else (case decision_keys (pd_provider p) (pd_card p) choice of
                                  Inl e \<Rightarrow> (Inl (Refused_Choice e), s)
                                | Inr plan \<Rightarrow>
                                    (Inr plan, put_feed session
                                       (f\<lparr>sf_pending := Some (p\<lparr>pd_answered := Some Sent\<rparr>)\<rparr>) s)))))"

text \<open>The operations that only look at the pending card of a session and may change how it was answered.\<close>

definition on_pending :: "nat \<Rightarrow> (pending_card \<Rightarrow> bool) \<Rightarrow> answered option \<Rightarrow> store \<Rightarrow> bool \<times> store" where
  "on_pending session applies a s =
     (case feed_of s session of
        None \<Rightarrow> (False, s)
      | Some f \<Rightarrow>
          (case sf_pending f of
             None \<Rightarrow> (False, s)
           | Some p \<Rightarrow>
               if applies p then (True, put_feed session (f\<lparr>sf_pending := Some (p\<lparr>pd_answered := a\<rparr>)\<rparr>) s)
               else (False, s)))"

definition clear_sent :: "nat \<Rightarrow> nat \<Rightarrow> store \<Rightarrow> store" where
  "clear_sent session seq s =
     snd (on_pending session (\<lambda>p. pd_seq p = seq \<and> pd_answered p = Some Sent) None s)"

definition note_keystroke :: "nat \<Rightarrow> store \<Rightarrow> bool \<times> store" where
  "note_keystroke session s =
     on_pending session (\<lambda>p. pd_seq p \<noteq> 0 \<and> pd_answered p = None) (Some Elsewhere) s"

definition note_input_answer :: "nat \<Rightarrow> store \<Rightarrow> bool \<times> store" where
  "note_input_answer session s =
     on_pending session (\<lambda>p. pd_card p = Card_Input \<and> pd_answered p = None) (Some Elsewhere) s"

section \<open>What a device reads\<close>

record pending_view =
  pv_epoch :: string
  pv_seq :: nat
  pv_kind :: string
  pv_title :: ctext
  pv_detail :: ctext
  pv_truncated :: bool
  pv_diff :: "edit_diff option"
  pv_since :: nat
  pv_decidable :: bool
  pv_sent :: bool
  pv_answered_elsewhere :: bool

definition pending_view_of :: "string \<Rightarrow> pending_card \<Rightarrow> pending_view" where
  "pending_view_of epoch p =
     \<lparr>pv_epoch = epoch, pv_seq = pd_seq p,
      pv_kind = (case pd_card p of
          Card_Permission _ \<Rightarrow> ''permission'' | Card_Question _ _ \<Rightarrow> ''question'' | Card_Input \<Rightarrow> ''input''),
      pv_title = pd_title p, pv_detail = pd_detail p, pv_truncated = pd_truncated p, pv_diff = pd_diff p,
      pv_since = pd_since_ms p,
      pv_decidable = (decision_support (pd_provider p) (pd_card p) = Inr ()),
      pv_sent = (pd_answered p = Some Sent), pv_answered_elsewhere = (pd_answered p = Some Elsewhere)\<rparr>"

record feed_page =
  fp_epoch :: string
  fp_entries :: "feed_entry list"
  fp_first_seq :: nat
  fp_last_seq :: nat
  fp_truncated :: bool
  fp_pending :: "pending_view option"

definition page :: "nat \<Rightarrow> nat \<Rightarrow> store \<Rightarrow> feed_page" where
  "page session after s =
     (case feed_of s session of
        None \<Rightarrow> \<lparr>fp_epoch = st_epoch s, fp_entries = [], fp_first_seq = 0, fp_last_seq = 0, fp_truncated = False,
                 fp_pending = None\<rparr>
      | Some f \<Rightarrow>
          let first_seq = (case sf_entries f of e # _ \<Rightarrow> fe_seq e | [] \<Rightarrow> sf_next_seq f + 1) in
          \<lparr>fp_epoch = st_epoch s, fp_entries = filter (\<lambda>e. after < fe_seq e) (sf_entries f),
           fp_first_seq = first_seq, fp_last_seq = sf_next_seq f,
           fp_truncated = page_gap after first_seq (sf_next_seq f),
           fp_pending = map_option (pending_view_of (st_epoch s)) (sf_pending f)\<rparr>)"

record session_summary =
  ss_pending :: "pending_view option"
  ss_last_reply_excerpt :: "ctext option"
  ss_last_step :: "ctext option"

definition summary :: "nat \<Rightarrow> store \<Rightarrow> session_summary" where
  "summary session s =
     (case feed_of s session of
        Some f \<Rightarrow> \<lparr>ss_pending = map_option (pending_view_of (st_epoch s)) (sf_pending f),
          ss_last_reply_excerpt = sf_last_reply_excerpt f, ss_last_step = sf_last_step f\<rparr>
      | None \<Rightarrow> \<lparr>ss_pending = None, ss_last_reply_excerpt = None, ss_last_step = None\<rparr>)"

section \<open>Different choices type different keys\<close>

lemma dec_bytes_inj: "bytes_of (dec n) = bytes_of (dec m) \<Longrightarrow> n = m"
  by (metis of_nat_eq_iff option.inject parse_dec_bytes)

definition choice_chars :: "choice \<Rightarrow> bool" where
  "choice_chars x \<longleftrightarrow> (case x of Other_Text t \<Rightarrow> \<forall>c \<in> set t. scalar c | _ \<Rightarrow> True)"

lemma permission_keys_InrD:
  assumes "permission_keys provider always x = Inr k"
  shows "(x, k) \<in> (if provider = Codex then {(Approve, [[0x79]]), (Always, [[0x61]]), (Deny, [[0x64]])}
     else if provider = Opencode then {(Approve, [ENTER]), (Always, [RIGHT, ENTER, ENTER]), (Deny, [ESC])}
     else {(Approve, [[0x31]]), (Always, [[0x32]]), (Deny, [ESC])})"
  using assms by (cases x) (simp_all add: permission_keys_def split: if_split_asm)

lemma permission_keys_inj:
  assumes "permission_keys provider always x = Inr k" and "permission_keys provider always y = Inr k"
  shows "x = y"
proof -
  have keys: "ENTER \<noteq> ESC" "ENTER \<noteq> RIGHT" "ESC \<noteq> RIGHT" "ESC \<noteq> [0x31]" "ESC \<noteq> [0x32]"
    by (simp_all add: ENTER_def ESC_def RIGHT_def)
  show ?thesis
    using permission_keys_InrD [OF assms(1)] permission_keys_InrD [OF assms(2)] keys
    by (cases "provider = Codex"; cases "provider = Opencode") auto
qed

lemma typed_answer_text:
  assumes "typed_answer_keys provider q raw = Inr k"
  shows "k = (if provider \<in> {Codex, Opencode}
              then downs (length (qu_options q)) @ [ENTER, into_bytes raw, ENTER]
              else [bytes_of (dec (length (qu_options q) + 1)), into_bytes raw, ENTER])"
    and "\<not> qu_previews q" and "\<forall>c \<in> set raw. \<not> is_control c"
proof -
  from assms obtain line where t: "validate_input_text raw = Inr line" "10 \<notin> set line"
    and k: "k = (if provider \<in> {Codex, Opencode}
              then downs (length (qu_options q)) @ [ENTER, into_bytes line, ENTER]
              else [bytes_of (dec (length (qu_options q) + 1)), into_bytes line, ENTER])"
    and "\<not> qu_previews q"
    by (auto simp: typed_answer_keys_def Let_def split: if_splits sum.splits)
  with validated_line [OF t] show "k = (if provider \<in> {Codex, Opencode}
              then downs (length (qu_options q)) @ [ENTER, into_bytes raw, ENTER]
              else [bytes_of (dec (length (qu_options q) + 1)), into_bytes raw, ENTER])"
    "\<not> qu_previews q" "\<forall>c \<in> set raw. \<not> is_control c" by simp_all
qed

lemma downs_differ: "downs (n - 1) @ [ENTER] = downs m @ ENTER # t # u \<Longrightarrow> False"
proof (induction "n - 1" arbitrary: n m)
  case 0
  then show ?case by (cases m) (auto simp: downs_def DOWN_def ENTER_def)
next
  case (Suc i)
  then have "n - 1 = Suc i" by simp
  with Suc.prems obtain m' where "m = Suc m'" by (cases m) (auto simp: downs_def DOWN_def ENTER_def)
  with Suc.prems \<open>n - 1 = Suc i\<close> have "downs (Suc i - 0 - 1 + 1 - 1) @ [ENTER] = downs m' @ ENTER # t # u"
    by (simp add: downs_def)
  then show ?case using Suc.hyps(1) [of "Suc i" m'] by (simp add: downs_def)
qed

lemma question_keys_inj:
  assumes "question_keys provider q x = Inr k" and "question_keys provider q y = Inr k"
    and "Option_Number 0 \<notin> {x, y}" and "choice_chars x" and "choice_chars y"
  shows "x = y"
proof -
  have opt: "m = n" if "question_keys provider q (Option_Number m) = Inr k"
    "question_keys provider q (Option_Number n) = Inr k" "m \<noteq> 0" "n \<noteq> 0" for m n
    using that dec_bytes_inj by (auto simp: question_keys_def downs_def split: if_splits)
  have typed: "s = t" if "question_keys provider q (Other_Text s) = Inr k" "question_keys provider q (Other_Text t) = Inr k"
    "choice_chars (Other_Text s)" "choice_chars (Other_Text t)" for s t
    using that into_bytes_inj [of s t] typed_answer_text(1) [of provider q s k] typed_answer_text(1) [of provider q t k]
    by (auto simp: question_keys_def choice_chars_def split: if_splits)
  have mixed: False if "question_keys provider q (Option_Number n) = Inr k"
    "question_keys provider q (Other_Text t) = Inr k" for n t
    using that typed_answer_text(1,2) [of provider q t k] downs_differ [of n]
    by (auto simp: question_keys_def downs_def split: if_splits)
  show ?thesis
    using assms opt typed mixed by (cases x; cases y) (auto simp: question_keys_def)
qed

lemma decision_keysD:
  assumes "decision_keys provider c x = Inr k"
  shows "decision_support provider c = Inr ()"
    and "(\<exists>always. c = Card_Permission always \<and> permission_keys provider always x = Inr (kp_writes k))
       \<or> (\<exists>i q. c = Card_Question i [q] \<and> question_keys provider q x = Inr (kp_writes k))"
proof -
  from assms show s: "decision_support provider c = Inr ()"
    by (auto simp: decision_keys_def split: sum.splits)
  show "(\<exists>always. c = Card_Permission always \<and> permission_keys provider always x = Inr (kp_writes k))
       \<or> (\<exists>i q. c = Card_Question i [q] \<and> question_keys provider q x = Inr (kp_writes k))"
  proof (cases c)
    case (Card_Permission always)
    then show ?thesis using assms s
      by (cases "permission_keys provider always x") (auto simp: decision_keys_def)
  next
    case (Card_Question i questions)
    then obtain q where "questions = [q]"
      using s by (auto simp: decision_support_def split: if_splits list.splits)
    then show ?thesis using Card_Question assms s
      by (cases "question_keys provider q x") (auto simp: decision_keys_def)
  next
    case Card_Input
    then show ?thesis using s by (simp add: decision_support_def)
  qed
qed

text \<open>C21: On one card of one provider, two choices that are both accepted and type the same keys are the same
  choice: no tap can be taken for another, whatever text is typed.\<close>

theorem different_choices_type_different_keys:
  assumes "decision_keys provider c x = Inr k" and "decision_keys provider c y = Inr k"
    and "Option_Number 0 \<notin> {x, y}" and "choice_chars x" and "choice_chars y"
  shows "x = y"
  using decision_keysD(2) [OF assms(1)] decision_keysD(2) [OF assms(2)] permission_keys_inj
    question_keys_inj [OF _ _ assms(3-5)] by blast

lemma different_choices_type_different_keys_witness:
  "decision_keys Claude (Card_Permission True) Approve \<noteq> decision_keys Claude (Card_Permission True) Always"
proof
  assume eq: "decision_keys Claude (Card_Permission True) Approve = decision_keys Claude (Card_Permission True) Always"
  have k: "decision_keys Claude (Card_Permission True) Always = Inr \<lparr>kp_writes = [[0x32]], kp_settle_ms = 120\<rparr>"
    by (simp add: decision_keys_def decision_support_def permission_keys_def SETTLE_MS_def)
  have "Approve = Always"
    by (rule different_choices_type_different_keys [OF trans [OF eq k] k]) (simp_all add: choice_chars_def)
  then show False by simp
qed

text \<open>A choice read from a device is never the option number nought.\<close>

lemma parsed_choices_are_numbered_from_one: "choice_parse raw text \<noteq> Inr (Option_Number 0)"
  by (auto simp: choice_parse_def Let_def split: option.splits if_splits)

end
