(* ===== verification/Phone_Hooks.thy ===== *)
theory Phone_Hooks
  imports Phone_Decision
begin

text \<open>
  How the daemon drives the conversation feed (\<^verbatim>\<open>core/houston-core/src/daemon/remote.rs\<close>): what a hook's
  report, a change of status, an exit, a keystroke, a device's decision and the switch of remote access do
  to the store. Each runs under one lock. A pane's title is an argument, \<open>None\<close> for a pane a device cannot
  see; remote access is on exactly while the store collects.
\<close>

definition REPLY_MAX_BYTES :: nat where "REPLY_MAX_BYTES = 16 * 1024"
definition SEEN_PRUNE_AT :: nat where "SEEN_PRUNE_AT = 256"

datatype hook_feed =
    Hook_Prompt ctext
  | Hook_Question "ctext option" "question list"
  | Hook_Answered "ctext option" "ctext list"
  | Hook_Permission ctext ctext bool bool "edit_diff option"
  | Hook_Step ctext ctext bool "ctext list"

text \<open>The fields of a hook's report that concern the feed.\<close>

record feed_drop =
  fd_session :: nat
  fd_provider :: agent_kind
  fd_event :: string
  fd_feed :: "hook_feed option"
  fd_internal_prompt :: bool
  fd_fully_idle :: "bool option"
  fd_subagent :: bool
  fd_last_message :: "ctext option"

definition submit_note :: ctext where
  "submit_note = 10 # 0x2026 # ctext_of ''[submit truncated:''"

definition reply_text :: "(ctext \<Rightarrow> ctext) \<Rightarrow> ctext \<Rightarrow> ctext" where
  "reply_text redact message =
     (let body = (case find_index (\<lambda>i. prefix submit_note (drop i message)) [0..<length message] of
                    Some at \<Rightarrow> take at message @ [ellipsis_char]
                  | None \<Rightarrow> message) in
      cut_bytes (trim_text (mask_text redact body)) REPLY_MAX_BYTES)"

section \<open>Steps of the daemon\<close>

definition remote_activity ::
  "(ctext \<Rightarrow> ctext) \<Rightarrow> nat \<Rightarrow> string \<Rightarrow> ctext option \<Rightarrow> ctext option \<Rightarrow> nat \<Rightarrow> store \<Rightarrow> store" where
  "remote_activity redact session kind excerpt title now_ms s =
     (case title of None \<Rightarrow> s | Some t \<Rightarrow> activity_push redact session kind t excerpt now_ms s)"

definition push_item :: "nat \<Rightarrow> feed_item \<Rightarrow> nat \<Rightarrow> store \<Rightarrow> store option" where
  "push_item session item now_ms s = map_option snd (feed_push session item now_ms s)"

text \<open>An entry with the card built from it.\<close>

definition push_card ::
  "nat \<Rightarrow> feed_item \<Rightarrow> (nat \<Rightarrow> pending_card) \<Rightarrow> nat \<Rightarrow> store \<Rightarrow> store option" where
  "push_card session item build now_ms s =
     map_option (\<lambda>(seq, t). case seq of None \<Rightarrow> t | Some n \<Rightarrow> snd (set_pending session (build n) t))
       (feed_push session item now_ms s)"

definition question_pending ::
  "ctext option \<Rightarrow> question list \<Rightarrow> agent_kind \<Rightarrow> nat \<Rightarrow> nat \<Rightarrow> pending_card" where
  "question_pending tool_use_id questions provider now_ms seq =
     \<lparr>pd_seq = seq, pd_card = Card_Question tool_use_id questions,
      pd_title = card_title (Card_Question tool_use_id questions) None, pd_detail = [], pd_truncated = False,
      pd_diff = None, pd_provider = provider, pd_since_ms = now_ms, pd_answered = None\<rparr>"

definition permission_pending ::
  "ctext \<Rightarrow> ctext \<Rightarrow> bool \<Rightarrow> bool \<Rightarrow> edit_diff option \<Rightarrow> agent_kind \<Rightarrow> nat \<Rightarrow> nat \<Rightarrow> pending_card" where
  "permission_pending tool target always truncated diff provider now_ms seq =
     \<lparr>pd_seq = seq, pd_card = Card_Permission always, pd_title = card_title (Card_Permission always) (Some tool),
      pd_detail = target, pd_truncated = truncated, pd_diff = diff, pd_provider = provider,
      pd_since_ms = now_ms, pd_answered = None\<rparr>"

definition input_pending :: "agent_kind \<Rightarrow> nat \<Rightarrow> pending_card" where
  "input_pending provider now_ms =
     \<lparr>pd_seq = 0, pd_card = Card_Input, pd_title = card_title Card_Input None, pd_detail = [],
      pd_truncated = False, pd_diff = None, pd_provider = provider, pd_since_ms = now_ms, pd_answered = None\<rparr>"

definition apply_feed ::
  "(ctext \<Rightarrow> ctext) \<Rightarrow> feed_drop \<Rightarrow> nat \<Rightarrow> store \<Rightarrow> store option" where
  "apply_feed redact d now_ms s =
     (let session = fd_session d; provider = fd_provider d in
      case fd_feed d of
        None \<Rightarrow> Some s
      | Some (Hook_Prompt text) \<Rightarrow>
          if fd_internal_prompt d then Some s else push_item session (Item_Prompt text) now_ms s
      | Some (Hook_Question i questions) \<Rightarrow>
          push_card session (Item_Question i questions None) (question_pending i questions provider now_ms) now_ms s
      | Some (Hook_Answered i answers) \<Rightarrow>
          (let (done, t) = answer_question session i answers s in
           if done \<and> answers \<noteq> [] then push_item session (Item_Answer answers) now_ms t else Some t)
      | Some (Hook_Permission tool target always truncated diff) \<Rightarrow>
          push_card session (Item_Permission tool target always truncated None diff)
            (permission_pending tool target always truncated diff provider now_ms) now_ms s
      | Some (Hook_Step tool target failed paths) \<Rightarrow>
          push_item session (Item_Step tool target failed) now_ms
            (fold (note_edited_path redact session) paths s))"

definition turn_outcome :: "agent_event option \<Rightarrow> string" where
  "turn_outcome e =
     (if e = Some TurnFailed then ''failed'' else if e = Some TurnInterrupted then ''stopped'' else ''done'')"

definition finish_turn ::
  "(ctext \<Rightarrow> ctext) \<Rightarrow> feed_drop \<Rightarrow> ctext option \<Rightarrow> ctext option \<Rightarrow> nat \<Rightarrow> store \<Rightarrow> store option" where
  "finish_turn redact d reply title now_ms s =
     (let session = fd_session d in
      Option.bind (case reply of Some t \<Rightarrow> push_item session (Item_Reply t) now_ms s | None \<Rightarrow> Some s) (\<lambda>s1.
      let (summary, s2) = end_turn session (turn_outcome (from_provider (fd_provider d) (fd_event d))) now_ms s1 in
      Option.bind (case summary of Some item \<Rightarrow> push_item session item now_ms s2 | None \<Rightarrow> Some s2) (\<lambda>s3.
      map_option
        (remote_activity redact session ''finished'' (map_option (reply_text redact) (fd_last_message d)) title now_ms)
        (push_item session (Item_Status ''finished'') now_ms s3))))"

definition remote_feed_hook ::
  "(ctext \<Rightarrow> ctext) \<Rightarrow> (nat \<Rightarrow> bool) \<Rightarrow> feed_drop \<Rightarrow> ctext option \<Rightarrow> nat \<Rightarrow> store \<Rightarrow> store option" where
  "remote_feed_hook redact live d title now_ms s =
     (if \<not> st_collecting s \<or> \<not> live (fd_session d) then Some s
      else Option.bind (apply_feed redact d now_ms s) (\<lambda>t.
        let event = from_provider (fd_provider d) (fd_event d);
            turn_ended = (event \<in> {Some TurnEnded, Some TurnFailed, Some TurnInterrupted}
              \<and> fd_fully_idle d \<noteq> Some False \<and> \<not> fd_subagent d);
            reply = filter_option (\<lambda>r. r \<noteq> []) (map_option (reply_text redact) (fd_last_message d)) in
        Option.bind
          (if turn_ended \<and> \<not> repeats_turn_end (fd_session d) reply t
           then finish_turn redact d reply title now_ms t else Some t) (\<lambda>u.
        if SEEN_PRUNE_AT < length (st_sessions u) then prune SEEN_PRUNE_AT live u else Some u)))"

definition remote_note_status ::
  "(ctext \<Rightarrow> ctext) \<Rightarrow> nat \<Rightarrow> agent_status \<Rightarrow> agent_status option \<Rightarrow> agent_kind \<Rightarrow> ctext option \<Rightarrow> nat
     \<Rightarrow> store \<Rightarrow> store" where
  "remote_note_status redact session status previous provider title now_ms s =
     (let t = (if status = Agent_NeedsInput then s
               else
                 let open' = (case Option.bind (feed_of s session) sf_pending of
                                Some p \<Rightarrow> pd_answered p = None | None \<Rightarrow> False);
                     u = (if status = Agent_Working \<and> open'
                          then remote_activity redact session ''answered'' (Some (ctext_of ''in the terminal''))
                                 title now_ms s else s) in
                 snd (resolve_pending session u)) in
      if \<not> st_collecting t \<or> status \<noteq> Agent_NeedsInput then t
      else
        let u = (if previous \<noteq> Some status
                 then remote_activity redact session ''needs_you'' None title now_ms t else t) in
        snd (set_pending session (input_pending provider now_ms) u))"

definition remote_note_exit :: "nat \<Rightarrow> nat \<Rightarrow> store \<Rightarrow> store option" where
  "remote_note_exit session now_ms s =
     (if \<not> st_collecting s then Some s
      else push_item session (Item_Status ''exited'') now_ms (snd (resolve_pending session s)))"

definition remote_note_keystroke ::
  "(ctext \<Rightarrow> ctext) \<Rightarrow> nat \<Rightarrow> ctext \<Rightarrow> ctext option \<Rightarrow> nat \<Rightarrow> store \<Rightarrow> store" where
  "remote_note_keystroke redact session origin title now_ms s =
     (let (changed, t) = note_keystroke session s;
          (changed', u) = (if changed then (True, t) else note_input_answer session t) in
      if changed' then remote_activity redact session ''answered'' (Some origin) title now_ms u else u)"

text \<open>The page a device is sent: the card only while the pane waits for input.\<close>

definition remote_feed :: "nat \<Rightarrow> nat \<Rightarrow> bool \<Rightarrow> store \<Rightarrow> feed_page" where
  "remote_feed session after waiting s =
     (let p = page session after s in p\<lparr>fp_pending := filter_option (\<lambda>_. waiting) (fp_pending p)\<rparr>)"

section \<open>Runs\<close>

text \<open>\<^verbatim>\<open>remote_decide\<close> holds no lock from its check to its last key, so other operations may come between its
  steps: \<open>Decide\<close> takes the card, \<open>Keystroke\<close> notes each key it types, \<open>Undo\<close> follows a write that failed and
  \<open>Decision_Typed\<close> the last one.\<close>

datatype feed_op =
    Hook_Drop feed_drop "ctext option" nat
  | Status_Change nat agent_status "agent_status option" agent_kind "ctext option" nat
  | Exited nat nat
  | Closed nat
  | Keystroke nat ctext "ctext option" nat
  | Decide nat string nat choice bool
  | Undo nat nat
  | Decision_Typed nat "ctext option" nat
  | Device_Action nat string ctext ctext nat
  | Switch bool string

fun feed_step :: "(ctext \<Rightarrow> ctext) \<Rightarrow> (nat \<Rightarrow> bool) \<Rightarrow> feed_op \<Rightarrow> store \<Rightarrow> store option" where
  "feed_step redact live (Hook_Drop d title now_ms) s = remote_feed_hook redact live d title now_ms s"
| "feed_step redact live (Status_Change session status previous provider title now_ms) s =
     (if live session then Some (remote_note_status redact session status previous provider title now_ms s) else Some s)"
| "feed_step redact live (Exited session now_ms) s =
     (if live session then remote_note_exit session now_ms s else Some s)"
| "feed_step redact live (Closed session) s = forget session s"
| "feed_step redact live (Keystroke session origin title now_ms) s =
     Some (remote_note_keystroke redact session origin title now_ms s)"
| "feed_step redact live (Decide session epoch seq choice waiting) s =
     Some (snd (begin_decision session epoch seq choice waiting s))"
| "feed_step redact live (Undo session seq) s = Some (clear_sent session seq s)"
| "feed_step redact live (Decision_Typed session title now_ms) s =
     Some (remote_activity redact session ''answered'' (Some (ctext_of ''from this phone'')) title now_ms s)"
| "feed_step redact live (Device_Action session action device title now_ms) s =
     Some (activity_action redact session action device title now_ms s)"
| "feed_step redact live (Switch on epoch) s = Some (set_collecting on epoch s)"

fun feed_run :: "(ctext \<Rightarrow> ctext) \<Rightarrow> ((nat \<Rightarrow> bool) \<times> feed_op) list \<Rightarrow> store \<Rightarrow> store option" where
  "feed_run redact [] s = Some s"
| "feed_run redact ((live, op') # ops) s = Option.bind (feed_step redact live op' s) (feed_run redact ops)"

end
