(* ===== verification/Phone_Feed_Bounds.thy ===== *)
theory Phone_Feed_Bounds
  imports Phone_Hooks
begin

text \<open>
  The bounds of the conversation feed: the bytes that are booked are the bytes that are held, the caps of a
  session and of the whole store hold after every operation, and the sequence numbers of a ring are
  consecutive up to its newest, so a page tells a device exactly what it missed. Recording the answers of a
  question breaks the booking: the entry grows and its bytes are never booked.
\<close>

section \<open>The invariant\<close>

definition held_bytes :: "feed_entry list \<Rightarrow> nat" where
  "held_bytes es = sum_list (map (\<lambda>e. weight (fe_item e)) es)"

definition booked :: "session_feed \<Rightarrow> bool" where
  "booked f \<longleftrightarrow> sf_bytes f = held_bytes (sf_entries f)"

definition in_order :: "session_feed \<Rightarrow> bool" where
  "in_order f \<longleftrightarrow> length (sf_entries f) \<le> sf_next_seq f
     \<and> map fe_seq (sf_entries f) = [sf_next_seq f - length (sf_entries f) + 1..<sf_next_seq f + 1]"

definition session_ok :: "session_feed \<Rightarrow> bool" where
  "session_ok f \<longleftrightarrow> booked f \<and> in_order f \<and> \<not> session_over f"

definition booked_total :: "(nat \<times> session_feed) list \<Rightarrow> nat" where
  "booked_total ss = sum_list (map (\<lambda>x. sf_bytes (snd x)) ss)"

definition feeds_ok :: "(nat \<times> session_feed) list \<Rightarrow> bool" where
  "feeds_ok ss \<longleftrightarrow> distinct (map fst ss) \<and> Ball (snd ` set ss) session_ok"

definition store_ok :: "store \<Rightarrow> bool" where
  "store_ok s \<longleftrightarrow> feeds_ok (st_sessions s) \<and> st_bytes s = booked_total (st_sessions s)
     \<and> (st_bytes s \<le> BYTES_TOTAL \<or> Ball (snd ` set (st_sessions s)) (\<lambda>f. length (sf_entries f) \<le> 1))
     \<and> length (st_activity s) \<le> ACTIVITY_MAX_ENTRIES"

lemma held_bytes_simps [simp]:
  "held_bytes [] = 0" "held_bytes (e # es) = weight (fe_item e) + held_bytes es"
  "held_bytes (es @ es') = held_bytes es + held_bytes es'"
  by (simp_all add: held_bytes_def)

lemma weight_pos: "64 \<le> weight i"
  by (cases i) auto

section \<open>Evicting\<close>

lemma evict_oldest_booked:
  assumes "booked f" and "in_order f" and "sf_entries f \<noteq> []"
  obtains w g where "evict_oldest f = Some (w, g)" "booked g" "in_order g" "sf_bytes f = w + sf_bytes g"
    "sf_next_seq g = sf_next_seq f" "length (sf_entries f) = Suc (length (sf_entries g))"
    "sf_pending g = sf_pending f"
proof -
  obtain e es where es: "sf_entries f = e # es" using assms(3) by (cases "sf_entries f") auto
  let ?g = "f\<lparr>sf_entries := es, sf_bytes := held_bytes es\<rparr>"
  have "evict_oldest f = Some (weight (fe_item e), ?g)"
    using assms(1) by (simp add: evict_oldest_def es booked_def checked_sub_def)
  moreover have "in_order ?g"
    using assms(2) es by (auto simp: in_order_def upt_conv_Cons Suc_diff_Suc)
  ultimately show thesis using that [of "weight (fe_item e)" ?g] assms(1) es by (simp add: booked_def)
qed

lemma evict_session_booked:
  assumes "booked f" and "in_order f"
  shows "\<exists>g. evict_session freed f = Some (freed + (sf_bytes f - sf_bytes g), g) \<and> sf_bytes g \<le> sf_bytes f
     \<and> session_ok g \<and> sf_next_seq g = sf_next_seq f \<and> sf_pending g = sf_pending f"
  using assms
proof (induction "length (sf_entries f)" arbitrary: f freed rule: less_induct)
  case less
  show ?case
  proof (cases "session_over f")
    case False
    then show ?thesis using less.prems
      by (subst evict_session.simps) (auto simp: session_ok_def)
  next
    case True
    then have "sf_entries f \<noteq> []" by (auto simp: session_over_def ENTRIES_PER_SESSION_def)
    then obtain w h where h: "evict_oldest f = Some (w, h)" "booked h" "in_order h" "sf_bytes f = w + sf_bytes h"
      "sf_next_seq h = sf_next_seq f" "length (sf_entries f) = Suc (length (sf_entries h))"
      "sf_pending h = sf_pending f"
      using evict_oldest_booked [OF less.prems] by metis
    from less.hyps [of h "freed + w"] h obtain g where g:
      "evict_session (freed + w) h = Some (freed + w + (sf_bytes h - sf_bytes g), g)"
      "sf_bytes g \<le> sf_bytes h" "session_ok g" "sf_next_seq g = sf_next_seq h" "sf_pending g = sf_pending h" by auto
    have "evict_session freed f = evict_session (freed + w) h"
      using True h(1) by (subst evict_session.simps) simp
    with g h show ?thesis by (intro exI [of _ g]) auto
  qed
qed

lemma booked_total_update:
  "i < length ss \<Longrightarrow> booked_total (ss[i := (k, g)]) + sf_bytes (snd (ss ! i)) = booked_total ss + sf_bytes g"
  unfolding booked_total_def using sum_list_list_update [of i ss "\<lambda>x. sf_bytes (snd x)" "(k, g)"] by simp

lemma feeds_ok_update:
  assumes "feeds_ok ss" and "i < length ss" and "session_ok g"
  shows "feeds_ok (ss[i := (fst (ss ! i), g)])"
proof -
  have "map fst (ss[i := (fst (ss ! i), g)]) = map fst ss"
    using assms(2) by (simp add: map_update list_update_same_conv)
  moreover have "set (ss[i := (fst (ss ! i), g)]) \<subseteq> insert (fst (ss ! i), g) (set ss)"
    by (rule set_update_subset_insert)
  ultimately show ?thesis using assms unfolding feeds_ok_def by auto
qed

lemma shorter_not_over:
  assumes "\<not> session_over f" and "sf_bytes g \<le> sf_bytes f" and "length (sf_entries g) \<le> length (sf_entries f)"
  shows "\<not> session_over g"
  using assms by (auto simp: session_over_def)

lemma largest_index_None:
  assumes "largest_index ss = None" shows "Ball (snd ` set ss) (\<lambda>f. length (sf_entries f) \<le> 1)"
proof -
  from assms have "filter (\<lambda>i. 1 < length (sf_entries (snd (ss ! i)))) [0..<length ss] = []"
    by (simp add: largest_index_def split: list.splits)
  then have "\<forall>i < length ss. \<not> 1 < length (sf_entries (snd (ss ! i)))"
    by (simp add: filter_empty_conv)
  then show ?thesis by (simp add: all_set_conv_all_nth not_less)
qed

lemma evict_total_ok:
  assumes "feeds_ok ss" and "bytes = booked_total ss"
  shows "\<exists>ss'. evict_total bytes ss = Some (booked_total ss', ss') \<and> feeds_ok ss' \<and> map fst ss' = map fst ss
     \<and> (booked_total ss' \<le> BYTES_TOTAL \<or> Ball (snd ` set ss') (\<lambda>f. length (sf_entries f) \<le> 1))
     \<and> list_all2 (\<lambda>x y. sf_next_seq (snd x) = sf_next_seq (snd y) \<and> sf_pending (snd x) = sf_pending (snd y)) ss' ss"
  using assms
proof (induction "entries_held ss" arbitrary: bytes ss rule: less_induct)
  case less
  show ?case
  proof (cases "bytes \<le> BYTES_TOTAL")
    case True
    then show ?thesis using less.prems
      by (subst evict_total.simps) (auto simp: list_all2_same)
  next
    case over: False
    show ?thesis
    proof (cases "largest_index ss")
      case None
      then show ?thesis using less.prems over largest_index_None [OF None]
        by (subst evict_total.simps) (auto simp: list_all2_same)
    next
      case (Some i)
      note i = largest_index_SomeD [OF Some]
      let ?f = "snd (ss ! i)"
      have f: "session_ok ?f" using less.prems(1) i(1) by (auto simp: feeds_ok_def)
      have ne: "sf_entries ?f \<noteq> []" using i(2) by auto
      obtain w g where g: "evict_oldest ?f = Some (w, g)" "booked g" "in_order g" "sf_bytes ?f = w + sf_bytes g"
        "sf_next_seq g = sf_next_seq ?f" "length (sf_entries ?f) = Suc (length (sf_entries g))"
        "sf_pending g = sf_pending ?f"
        using evict_oldest_booked [of ?f] f ne unfolding session_ok_def by metis
      let ?ss = "ss[i := (fst (ss ! i), g)]"
      have fg: "session_ok g" using f g shorter_not_over [of ?f g] by (auto simp: session_ok_def)
      have total: "booked_total ss = w + booked_total ?ss"
        using booked_total_update [OF i(1), of "fst (ss ! i)" g] g(4) by simp
      have "entries_held ?ss < entries_held ss"
        using sum_list_list_update [OF i(1), of "\<lambda>x. length (sf_entries (snd x))" "(fst (ss ! i), g)"] g(6)
        by (simp add: entries_held_def)
      from less.hyps [OF this feeds_ok_update [OF less.prems(1) i(1) fg] refl] obtain ss' where ss':
        "evict_total (booked_total ?ss) ?ss = Some (booked_total ss', ss')" "feeds_ok ss'"
        "map fst ss' = map fst ?ss"
        "booked_total ss' \<le> BYTES_TOTAL \<or> Ball (snd ` set ss') (\<lambda>f. length (sf_entries f) \<le> 1)"
        "list_all2 (\<lambda>x y. sf_next_seq (snd x) = sf_next_seq (snd y) \<and> sf_pending (snd x) = sf_pending (snd y)) ss' ?ss"
        by blast
      have keys: "map fst ?ss = map fst ss" using i(1) by (simp add: map_update list_update_same_conv)
      have same: "list_all2 (\<lambda>x y. sf_next_seq (snd x) = sf_next_seq (snd y) \<and> sf_pending (snd x) = sf_pending (snd y)) ?ss ss"
        using g(5,7) i(1) by (auto simp: list_all2_conv_all_nth nth_list_update)
      have "evict_total bytes ss = evict_total (booked_total ?ss) ?ss"
        using over Some g(1) less.prems(2) total
        by (subst evict_total.simps) (simp add: checked_sub_def)
      moreover have "list_all2 (\<lambda>x y. sf_next_seq (snd x) = sf_next_seq (snd y) \<and> sf_pending (snd x) = sf_pending (snd y)) ss' ss"
        using list_all2_trans [OF _ ss'(5) same] by fastforce
      ultimately show ?thesis using ss' keys by auto
    qed
  qed
qed

section \<open>Pushing\<close>

lemma note_item_same [simp]:
  "sf_bytes (note_item i t f) = sf_bytes f" "sf_entries (note_item i t f) = sf_entries f"
  "sf_next_seq (note_item i t f) = sf_next_seq f" "sf_pending (note_item i t f) = sf_pending f"
  by (cases i; simp)+

lemma append_item_booked: "booked f \<Longrightarrow> booked (append_item i t (note_item i t f))"
  by (simp add: booked_def append_item_def)

lemma append_item_in_order:
  assumes "in_order f" shows "in_order (append_item i t (note_item i t f))"
proof -
  have "Suc (sf_next_seq f) - length (sf_entries f) = Suc (sf_next_seq f - length (sf_entries f))"
    using assms by (simp add: in_order_def Suc_diff_le)
  then show ?thesis using assms by (auto simp: in_order_def append_item_def)
qed

lemma feed_or_default_ok: "feeds_ok (st_sessions s) \<Longrightarrow> session_ok (feed_or_default s k)"
  by (auto simp: feed_or_default_def feeds_ok_def session_ok_def booked_def in_order_def session_over_def
      session_feed_default_def BYTES_PER_SESSION_def ENTRIES_PER_SESSION_def dest!: map_of_SomeD
      split: option.split)

lemma booked_total_put:
  assumes "distinct (map fst ss)"
  shows "booked_total (AList.update k g ss) + (case map_of ss k of Some f \<Rightarrow> sf_bytes f | None \<Rightarrow> 0)
    = booked_total ss + sf_bytes g"
  using assms
proof (induction ss)
  case (Cons x ss)
  have "map_of ss (fst x) = None" using Cons.prems by (simp add: map_of_eq_None_iff)
  with Cons show ?case by (cases x) (auto simp: booked_total_def)
qed (simp add: booked_total_def)

lemma update_values: "snd ` set (AList.update k g ss) \<subseteq> insert g (snd ` set ss)"
  by (induction ss) auto

lemma feeds_ok_put: "feeds_ok ss \<Longrightarrow> session_ok g \<Longrightarrow> feeds_ok (AList.update k g ss)"
  unfolding feeds_ok_def
proof (elim conjE, intro conjI)
  assume d: "distinct (map fst ss)" and ok: "Ball (snd ` set ss) session_ok" and g: "session_ok g"
  show "distinct (map fst (AList.update k g ss))" using d by (rule distinct_update)
  from update_values [of k g ss] ok g show "Ball (snd ` set (AList.update k g ss)) session_ok" by blast
qed

lemma booked_of_default: "sf_bytes (feed_or_default s k) = (case feed_of s k of Some f \<Rightarrow> sf_bytes f | None \<Rightarrow> 0)"
  by (simp add: feed_or_default_def session_feed_default_def split: option.split)

text \<open>What every operation but the recording of answers keeps: a store of which a push cannot fail.\<close>

lemma push_ok:
  assumes "store_ok s"
  obtains seq t where "feed_push k item now s = Some (seq, t)" "store_ok t" "st_epoch t = st_epoch s"
    "st_collecting t = st_collecting s"
    "seq = (if st_collecting s then Some (sf_next_seq (feed_or_default s k) + 1) else None)"
proof (cases "st_collecting s")
  case False
  then show thesis using that [of None s] assms by (simp add: feed_push_def)
next
  case True
  from assms have ok: "feeds_ok (st_sessions s)" "st_bytes s = booked_total (st_sessions s)"
    "length (st_activity s) \<le> ACTIVITY_MAX_ENTRIES" by (auto simp: store_ok_def)
  let ?d = "feed_or_default s k"
  let ?f = "append_item item now (note_item item now ?d)"
  have d: "session_ok ?d" by (rule feed_or_default_ok [OF ok(1)])
  have f: "booked ?f" "in_order ?f"
    using d append_item_booked append_item_in_order by (auto simp: session_ok_def)
  obtain g where g: "evict_session 0 ?f = Some (0 + (sf_bytes ?f - sf_bytes g), g)" "sf_bytes g \<le> sf_bytes ?f"
    "session_ok g" using evict_session_booked [OF f, of 0] by blast
  have fb: "sf_bytes ?f = sf_bytes ?d + weight item" by (simp add: append_item_def)
  have put: "booked_total (AList.update k g (st_sessions s)) + sf_bytes ?d = st_bytes s + sf_bytes g"
    using booked_total_put [of "st_sessions s" k g] ok(1,2) booked_of_default [of s k] by (simp add: feeds_ok_def)
  have sub: "checked_sub (st_bytes s + weight item) (sf_bytes ?f - sf_bytes g)
      = Some (booked_total (AList.update k g (st_sessions s)))"
    using put fb g(2) by (auto simp: checked_sub_def)
  obtain ss' where ss': "evict_total (booked_total (AList.update k g (st_sessions s))) (AList.update k g (st_sessions s))
      = Some (booked_total ss', ss')" "feeds_ok ss'"
    "booked_total ss' \<le> BYTES_TOTAL \<or> Ball (snd ` set ss') (\<lambda>f. length (sf_entries f) \<le> 1)"
    using evict_total_ok [OF feeds_ok_put [OF ok(1) g(3)] refl] by blast
  let ?t = "s\<lparr>st_sessions := ss', st_bytes := booked_total ss'\<rparr>"
  have "feed_push k item now s = Some (Some (sf_next_seq ?f), ?t)"
    using True g(1) sub ss'(1) by (simp add: feed_push_def Let_def)
  moreover have "store_ok ?t" using ss' ok(3) by (simp add: store_ok_def)
  moreover have "sf_next_seq ?f = sf_next_seq ?d + 1" by (simp add: append_item_def)
  ultimately show thesis using True that [of "Some (sf_next_seq ?f)" ?t] by simp
qed

section \<open>The other operations keep it\<close>

lemma store_ok_put:
  assumes "store_ok s" and "session_ok g" and "sf_bytes g = sf_bytes (feed_or_default s k)"
    and "length (sf_entries g) = length (sf_entries (feed_or_default s k))"
  shows "store_ok (put_feed k g s)"
proof -
  let ?ss = "AList.update k g (st_sessions s)"
  from assms(1) have ok: "feeds_ok (st_sessions s)" "st_bytes s = booked_total (st_sessions s)"
    by (auto simp: store_ok_def)
  have total: "booked_total ?ss = booked_total (st_sessions s)"
    using booked_total_put [of "st_sessions s" k g] ok(1) booked_of_default [of s k] assms(3)
    by (simp add: feeds_ok_def)
  note sub = update_values [of k g "st_sessions s"]
  have "length (sf_entries g) \<le> 1" if "Ball (snd ` set (st_sessions s)) (\<lambda>f. length (sf_entries f) \<le> 1)"
  proof (cases "feed_of s k")
    case None
    then show ?thesis using assms(4) by (simp add: feed_or_default_def session_feed_default_def)
  next
    case (Some f)
    then have "f \<in> snd ` set (st_sessions s)" using map_of_SomeD by force
    then show ?thesis using that assms(4) Some by (auto simp: feed_or_default_def)
  qed
  then have "Ball (snd ` set ?ss) (\<lambda>f. length (sf_entries f) \<le> 1)"
    if "Ball (snd ` set (st_sessions s)) (\<lambda>f. length (sf_entries f) \<le> 1)" using that sub by blast
  then show ?thesis
    using assms(1) total ok feeds_ok_put [OF ok(1) assms(2)] by (auto simp: store_ok_def put_feed_def)
qed

lemma session_ok_cong:
  "sf_bytes g = sf_bytes f \<Longrightarrow> sf_entries g = sf_entries f \<Longrightarrow> sf_next_seq g = sf_next_seq f \<Longrightarrow> session_ok g = session_ok f"
  by (simp add: session_ok_def booked_def in_order_def session_over_def)

lemma store_ok_default: "store_ok s \<Longrightarrow> session_ok (feed_or_default s k)"
  by (simp add: store_ok_def feed_or_default_ok)

lemma store_ok_put_same:
  assumes "store_ok s" and "sf_bytes g = sf_bytes (feed_or_default s k)"
    and "sf_entries g = sf_entries (feed_or_default s k)" and "sf_next_seq g = sf_next_seq (feed_or_default s k)"
  shows "store_ok (put_feed k g s)"
  using store_ok_put [OF assms(1), of g k] session_ok_cong [OF assms(2-4)] store_ok_default [OF assms(1)] assms by simp

lemma set_pending_ok: "store_ok s \<Longrightarrow> store_ok (snd (set_pending k p s))"
  by (auto simp: set_pending_def Let_def intro!: store_ok_put_same)

lemma note_edited_path_ok: "store_ok s \<Longrightarrow> store_ok (note_edited_path redact k path s)"
  by (auto simp: note_edited_path_def Let_def intro!: store_ok_put_same)

lemma end_turn_ok: "store_ok s \<Longrightarrow> store_ok (snd (end_turn k outcome now s))"
  by (auto simp: end_turn_def Let_def intro!: store_ok_put_same)

lemma on_pending_ok: "store_ok s \<Longrightarrow> store_ok (snd (on_pending k applies a s))"
  by (auto simp: on_pending_def feed_or_default_def split: option.split intro!: store_ok_put_same)

lemma begin_decision_ok: "store_ok s \<Longrightarrow> store_ok (snd (begin_decision k epoch seq choice waiting s))"
  by (auto simp: begin_decision_def bind_eq_Some_conv feed_or_default_def split: option.split sum.split
      intro!: store_ok_put_same)

lemma store_default_ok: "store_ok (store_default e)"
  by (simp add: store_default_def store_ok_def feeds_ok_def booked_total_def)

lemma set_collecting_ok: "store_ok s \<Longrightarrow> store_ok (set_collecting on e s)"
  by (auto simp: set_collecting_def store_ok_def feeds_ok_def booked_total_def)

lemma activity_add_ok: "store_ok s \<Longrightarrow> store_ok (activity_add redact k kind title excerpt by' now s)"
  by (auto simp: activity_add_def store_ok_def Let_def ACTIVITY_MAX_ENTRIES_def)

lemma remote_activity_ok: "store_ok s \<Longrightarrow> store_ok (remote_activity redact k kind excerpt title now s)"
  by (simp add: remote_activity_def activity_push_def activity_add_ok split: option.split)

lemma update_entry_same:
  assumes "\<And>i. weight (h i) = weight i"
  shows "held_bytes (update_entry seq h es) = held_bytes es"
  using assms by (induction es) auto

lemma update_entry_seqs [simp]: "map fe_seq (update_entry seq h es) = map fe_seq es"
  by (induction es) auto

lemma update_entry_length [simp]: "length (update_entry seq h es) = length es"
  by (induction es) auto

lemma resolved_weight: "weight (resolved_item i) = weight i"
  by (cases i) auto

lemma resolve_pending_ok: "store_ok s \<Longrightarrow> store_ok (snd (resolve_pending k s))"
proof (cases "feed_of s k")
  case (Some f)
  assume ok: "store_ok s"
  have f: "feed_or_default s k = f" using Some by (simp add: feed_or_default_def)
  have fok: "session_ok f" using store_ok_default [OF ok, of k] f by simp
  show ?thesis
  proof (cases "sf_pending f")
    case (Some p)
    let ?g = "f\<lparr>sf_pending := None, sf_entries := update_entry (pd_seq p) resolved_item (sf_entries f)\<rparr>"
    have "session_ok ?g" using fok
      by (simp add: session_ok_def booked_def in_order_def session_over_def update_entry_same resolved_weight)
    then have "store_ok (put_feed k ?g s)" using store_ok_put [OF ok, of ?g k] f by simp
    with Some \<open>feed_of s k = Some f\<close> show ?thesis by (simp add: resolve_pending_def)
  qed (use ok Some in \<open>simp add: resolve_pending_def\<close>)
qed (simp add: resolve_pending_def)

lemma store_ok_sub:
  assumes "store_ok s" and "booked_total ss \<le> booked_total (st_sessions s)" and "set ss \<subseteq> set (st_sessions s)"
    and "distinct (map fst ss)"
  shows "store_ok (s\<lparr>st_sessions := ss, st_bytes := booked_total ss\<rparr>)"
  using assms unfolding store_ok_def feeds_ok_def by (auto simp: subset_eq)

lemma delete_filter: "AList.delete k ss = filter (\<lambda>x. fst x \<noteq> k) ss"
  by (induction ss) auto

lemma booked_total_filter: "booked_total (filter P ss) + booked_total (filter (\<lambda>x. \<not> P x) ss) = booked_total ss"
  by (induction ss) (auto simp: booked_total_def)

lemma filter_ok:
  assumes "store_ok s"
  shows "store_ok (s\<lparr>st_sessions := filter P (st_sessions s), st_bytes := booked_total (filter P (st_sessions s))\<rparr>)"
  using assms booked_total_filter [of P "st_sessions s"]
  by (intro store_ok_sub) (auto simp: store_ok_def feeds_ok_def distinct_map_filter)

lemma booked_single:
  assumes "distinct (map fst ss)" and "map_of ss k = Some f"
  shows "booked_total (filter (\<lambda>x. \<not> fst x \<noteq> k) ss) = sf_bytes f"
  using assms
proof (induction ss)
  case (Cons x ss)
  have "filter (\<lambda>y. fst y = k) ss = []" if "fst x = k"
    using Cons.prems(1) that by (auto simp: filter_empty_conv image_iff)
  with Cons show ?case by (cases "fst x = k") (auto simp: booked_total_def)
qed simp

lemma forget_ok:
  assumes "store_ok s" shows "\<exists>t. forget k s = Some t \<and> store_ok t"
proof (cases "feed_of s k")
  case (Some f)
  have d: "distinct (map fst (st_sessions s))" "st_bytes s = booked_total (st_sessions s)"
    using assms by (auto simp: store_ok_def feeds_ok_def)
  have "st_bytes s = booked_total (filter (\<lambda>x. fst x \<noteq> k) (st_sessions s)) + sf_bytes f"
    using booked_total_filter [of "\<lambda>x. fst x \<noteq> k" "st_sessions s"] booked_single [OF d(1) Some] d(2) by simp
  then have "forget k s = Some (s\<lparr>st_sessions := filter (\<lambda>x. fst x \<noteq> k) (st_sessions s),
      st_bytes := booked_total (filter (\<lambda>x. fst x \<noteq> k) (st_sessions s))\<rparr>)"
    using Some by (simp add: forget_def checked_sub_def delete_filter)
  with filter_ok [OF assms, of "\<lambda>x. fst x \<noteq> k"] show ?thesis by blast
qed (use assms in \<open>simp add: forget_def\<close>)

lemma prune_ok:
  assumes "store_ok s" shows "\<exists>t. prune at keep s = Some t \<and> store_ok t"
proof (cases "length (st_sessions s) \<le> at")
  case False
  have "st_bytes s = booked_total (filter (\<lambda>x. keep (fst x)) (st_sessions s))
      + booked_total (filter (\<lambda>x. \<not> keep (fst x)) (st_sessions s))"
    using assms booked_total_filter [of "\<lambda>x. keep (fst x)" "st_sessions s"] by (simp add: store_ok_def)
  then have "prune at keep s = Some (s\<lparr>st_sessions := filter (\<lambda>x. keep (fst x)) (st_sessions s),
      st_bytes := booked_total (filter (\<lambda>x. keep (fst x)) (st_sessions s))\<rparr>)"
    using False by (simp add: prune_def checked_sub_def booked_total_def Let_def)
  with filter_ok [OF assms, of "\<lambda>x. keep (fst x)"] show ?thesis by blast
qed (use assms in \<open>simp add: prune_def\<close>)

section \<open>Runs\<close>

definition records_answers :: "feed_op \<Rightarrow> bool" where
  "records_answers op' \<longleftrightarrow> (case op' of
     Hook_Drop d _ _ \<Rightarrow> (case fd_feed d of Some (Hook_Answered _ _) \<Rightarrow> True | _ \<Rightarrow> False)
   | _ \<Rightarrow> False)"

lemma push_item_ok: "store_ok s \<Longrightarrow> \<exists>t. push_item k item now s = Some t \<and> store_ok t"
  using push_ok [of s k item now] by (metis push_item_def option.simps(9) snd_conv)

lemma push_card_ok: "store_ok s \<Longrightarrow> \<exists>t. push_card k item build now s = Some t \<and> store_ok t"
proof -
  assume "store_ok s"
  then obtain seq t where "feed_push k item now s = Some (seq, t)" "store_ok t" using push_ok by metis
  then show ?thesis by (auto simp: push_card_def set_pending_ok split: option.split)
qed

lemma note_edited_paths_ok: "store_ok s \<Longrightarrow> store_ok (fold (note_edited_path redact k) paths s)"
  by (induction paths arbitrary: s) (auto simp: note_edited_path_ok)

lemma apply_session_ok:
  assumes "store_ok s" and "\<And>i answers. fd_feed d \<noteq> Some (Hook_Answered i answers)"
  shows "\<exists>t. apply_feed redact d now s = Some t \<and> store_ok t"
  using assms push_item_ok push_card_ok note_edited_paths_ok
  by (auto simp: apply_feed_def Let_def split: option.splits hook_feed.splits)

lemma finish_turn_ok:
  assumes "store_ok s" shows "\<exists>t. finish_turn redact d reply title now s = Some t \<and> store_ok t"
proof -
  let ?k = "fd_session d"
  let ?o = "turn_outcome (from_provider (fd_provider d) (fd_event d))"
  obtain s1 where s1: "(case reply of Some t \<Rightarrow> push_item ?k (Item_Reply t) now s | None \<Rightarrow> Some s) = Some s1" "store_ok s1"
  proof (cases reply)
    case (Some t)
    then show thesis using push_item_ok [OF assms, of ?k "Item_Reply t" now] that by auto
  qed (use assms that in simp)
  obtain item s2 where s2: "end_turn ?k ?o now s1 = (item, s2)" "store_ok s2"
    using end_turn_ok [OF s1(2), of ?k ?o now] by (cases "end_turn ?k ?o now s1") auto
  obtain s3 where s3: "(case item of Some i \<Rightarrow> push_item ?k i now s2 | None \<Rightarrow> Some s2) = Some s3" "store_ok s3"
  proof (cases item)
    case (Some i)
    then show thesis using push_item_ok [OF s2(2), of ?k i now] that by auto
  qed (use s2(2) that in simp)
  obtain s4 where "push_item ?k (Item_Status ''finished'') now s3 = Some s4" "store_ok s4"
    using push_item_ok [OF s3(2)] by blast
  then show ?thesis
    using s1(1) s2(1) s3(1) by (simp add: finish_turn_def Let_def remote_activity_ok)
qed

lemma chain:
  "\<exists>u. m = Some u \<and> P u \<Longrightarrow> (\<And>u. P u \<Longrightarrow> \<exists>v. f u = Some v \<and> Q v) \<Longrightarrow> \<exists>v. Option.bind m f = Some v \<and> Q v"
  by auto

lemma remote_feed_hook_ok:
  assumes "store_ok s" and "\<And>i answers. fd_feed d \<noteq> Some (Hook_Answered i answers)"
  shows "\<exists>t. remote_feed_hook redact live d title now s = Some t \<and> store_ok t"
proof (cases "\<not> st_collecting s \<or> \<not> live (fd_session d)")
  case False
  obtain t where t: "apply_feed redact d now s = Some t" "store_ok t" using apply_session_ok [OF assms] by blast
  have pruned: "\<exists>v. (if SEEN_PRUNE_AT < length (st_sessions u) then prune SEEN_PRUNE_AT live u else Some u) = Some v
      \<and> store_ok v" if "store_ok u" for u using prune_ok [OF that] that by simp
  have ended: "\<exists>u. (if c then finish_turn redact d r title now t else Some t) = Some u \<and> store_ok u" for c r
    using finish_turn_ok [OF t(2)] t(2) by simp
  show ?thesis using False t(1) chain [OF ended pruned]
    by (simp only: remote_feed_hook_def Let_def if_False bind.bind_lunit)
qed (use assms in \<open>auto simp: remote_feed_hook_def\<close>)

lemma remote_note_status_ok:
  "store_ok s \<Longrightarrow> store_ok (remote_note_status redact k status previous provider title now s)"
  unfolding remote_note_status_def Let_def
  by (simp add: remote_activity_ok resolve_pending_ok set_pending_ok split: option.split)

lemma remote_note_exit_ok: "store_ok s \<Longrightarrow> \<exists>t. remote_note_exit k now s = Some t \<and> store_ok t"
  by (simp add: remote_note_exit_def push_item_ok resolve_pending_ok)

lemma remote_note_keystroke_ok: "store_ok s \<Longrightarrow> store_ok (remote_note_keystroke redact k origin title now s)"
  using on_pending_ok [of s k "\<lambda>p. pd_seq p \<noteq> 0 \<and> pd_answered p = None" "Some Elsewhere"]
    on_pending_ok [of "snd (note_keystroke k s)" k "\<lambda>p. pd_card p = Card_Input \<and> pd_answered p = None" "Some Elsewhere"]
  by (auto simp: remote_note_keystroke_def note_keystroke_def note_input_answer_def remote_activity_ok
      split: prod.split if_splits)

lemma feed_step_ok:
  assumes "store_ok s" and "\<not> records_answers op'"
  shows "\<exists>t. feed_step redact live op' s = Some t \<and> store_ok t"
proof (cases op')
  case (Hook_Drop d title now)
  then have "fd_feed d \<noteq> Some (Hook_Answered i answers)" for i answers
    using assms(2) by (auto simp: records_answers_def)
  with Hook_Drop show ?thesis using remote_feed_hook_ok [OF assms(1), of d] by simp
qed (use assms(1) in \<open>simp_all add: remote_note_status_ok remote_note_exit_ok forget_ok remote_note_keystroke_ok
    begin_decision_ok clear_sent_def on_pending_ok remote_activity_ok activity_action_def activity_add_ok set_collecting_ok\<close>)

lemma feed_run_ok:
  assumes "store_ok s" and "list_all (\<lambda>x. \<not> records_answers (snd x)) ops"
  shows "\<exists>t. feed_run redact ops s = Some t \<and> store_ok t"
  using assms
proof (induction ops arbitrary: s)
  case (Cons x ops)
  obtain live op' where x: "x = (live, op')" by (cases x)
  obtain u where "feed_step redact live op' s = Some u" "store_ok u"
    using feed_step_ok [of s op'] Cons.prems x by auto
  with Cons x show ?case by simp
qed simp

end
