(* ===== verification/Phone_Runs.thy ===== *)
theory Phone_Runs
  imports Phone_Feed_Bounds "HOL-Library.Sublist"
begin

text \<open>
  What every run of the daemon's operations keeps of one session's feed. Whatever happens to other sessions,
  a feed is only evicted from its oldest end; a law of the feeds that trimming, appending and the changes of
  the card keep holds after every run. The laws: the sequence numbers of a ring are consecutive up to the
  newest, and a card that was answered stays answered.
\<close>

section \<open>Trimming\<close>

text \<open>The feed \<open>g\<close> is \<open>f\<close> without some of its oldest entries, their weights taken off.\<close>

definition evicted :: "session_feed \<Rightarrow> session_feed \<Rightarrow> bool" where
  "evicted g f \<longleftrightarrow> suffix (sf_entries g) (sf_entries f)
     \<and> held_bytes (sf_entries g) + sf_bytes f = held_bytes (sf_entries f) + sf_bytes g
     \<and> sf_next_seq g = sf_next_seq f \<and> sf_pending g = sf_pending f"

lemma evicted_refl [simp]: "evicted f f"
  by (simp add: evicted_def)

lemma evicted_trans: "evicted h g \<Longrightarrow> evicted g f \<Longrightarrow> evicted h f"
  unfolding evicted_def by (auto intro: suffix_order.trans)

lemma evict_oldest_evicted: "evict_oldest f = Some (w, g) \<Longrightarrow> evicted g f"
  by (auto simp: evict_oldest_def evicted_def checked_sub_def suffix_ConsI split: list.splits if_splits)

lemma evict_session_evicted: "evict_session freed f = Some (w, g) \<Longrightarrow> evicted g f \<and> \<not> session_over g"
proof (induction freed f rule: evict_session.induct)
  case (1 freed f)
  show ?case
  proof (cases "session_over f")
    case True
    with 1 obtain v h where h: "evict_oldest f = Some (v, h)" "evict_session (freed + v) h = Some (w, g)"
      by (subst (asm) (2) evict_session.simps) (auto split: option.splits)
    have "evicted g h \<and> \<not> session_over g" using "1.IH" [OF True h(1) refl h(2)] .
    then show ?thesis using evict_oldest_evicted [OF h(1)] evicted_trans by blast
  qed (use 1 in \<open>subst (asm) (2) evict_session.simps, auto\<close>)
qed

abbreviation same_key_evicted :: "nat \<times> session_feed \<Rightarrow> nat \<times> session_feed \<Rightarrow> bool" where
  "same_key_evicted x y \<equiv> fst x = fst y \<and> evicted (snd x) (snd y)"

lemma evict_total_evicted: "evict_total b ss = Some (b', ss') \<Longrightarrow> list_all2 same_key_evicted ss' ss"
proof (induction b ss rule: evict_total.induct)
  case (1 b ss)
  show ?case
  proof (cases "b \<le> BYTES_TOTAL \<or> largest_index ss = None")
    case True
    with "1.prems" show ?thesis by (subst (asm) evict_total.simps) (auto simp: list_all2_same split: if_splits)
  next
    case False
    then obtain i where i: "largest_index ss = Some i" by auto
    from "1.prems" False i obtain w g c where g: "evict_oldest (snd (ss ! i)) = Some (w, g)" "checked_sub b w = Some c"
      "evict_total c (ss[i := (fst (ss ! i), g)]) = Some (b', ss')"
      by (subst (asm) evict_total.simps) (auto split: option.splits)
    have "list_all2 same_key_evicted ss' (ss[i := (fst (ss ! i), g)])"
      using "1.IH" False i g by auto
    moreover have "list_all2 same_key_evicted (ss[i := (fst (ss ! i), g)]) ss"
    proof (intro list_all2_all_nthI)
      fix j assume "j < length (ss[i := (fst (ss ! i), g)])"
      then show "same_key_evicted (ss[i := (fst (ss ! i), g)] ! j) (ss ! j)"
        using evict_oldest_evicted [OF g(1)] by (cases "j = i") auto
    qed simp
    ultimately show ?thesis using list_all2_trans [of same_key_evicted same_key_evicted same_key_evicted]
      evicted_trans by (metis (no_types, lifting))
  qed
qed

lemma map_of_evicted:
  "list_all2 same_key_evicted ss' ss \<Longrightarrow> rel_option evicted (map_of ss' k) (map_of ss k)"
  by (induction rule: list_all2_induct) auto

section \<open>Operations on one session\<close>

lemma feed_or_default_put [simp]:
  "feed_or_default (put_feed k' g s) k = (if k = k' then g else feed_or_default s k)"
  by (simp add: feed_or_default_def put_feed_def update_conv)

lemma put_feed_epoch [simp]: "st_epoch (put_feed k g s) = st_epoch s"
  by (simp add: put_feed_def)

lemma feed_of_or_default: "feed_of s k = Some f \<Longrightarrow> feed_or_default s k = f"
  by (simp add: feed_or_default_def)

lemma feed_or_default_cong: "st_sessions t = st_sessions s \<Longrightarrow> feed_or_default t k = feed_or_default s k"
  by (simp add: feed_or_default_def)

lemma feed_pushD:
  assumes "feed_push k' item now s = Some (n, t)"
  shows "st_epoch t = st_epoch s \<and> st_collecting t = st_collecting s"
    and "k \<noteq> k' \<Longrightarrow> evicted (feed_or_default t k) (feed_or_default s k)"
    and "\<not> st_collecting s \<Longrightarrow> n = None \<and> t = s"
    and "st_collecting s \<Longrightarrow> n = Some (sf_next_seq (feed_or_default t k')) \<and>
      evicted (feed_or_default t k') (append_item item now (note_item item now (feed_or_default s k')))"
    and "st_collecting s \<Longrightarrow> length (sf_entries (feed_or_default t k')) \<le> ENTRIES_PER_SESSION"
proof -
  let ?f = "append_item item now (note_item item now (feed_or_default s k'))"
  have *: "st_epoch t = st_epoch s \<and> st_collecting t = st_collecting s
    \<and> (k \<noteq> k' \<longrightarrow> evicted (feed_or_default t k) (feed_or_default s k))
    \<and> n = Some (sf_next_seq (feed_or_default t k')) \<and> evicted (feed_or_default t k') ?f
    \<and> length (sf_entries (feed_or_default t k')) \<le> ENTRIES_PER_SESSION" if c: "st_collecting s"
  proof -
    from assms c obtain freed g b b' ss where
      g: "evict_session 0 ?f = Some (freed, g)"
      and ss: "evict_total b (AList.update k' g (st_sessions s)) = Some (b', ss)"
      and t: "n = Some (sf_next_seq ?f)" "t = s\<lparr>st_sessions := ss, st_bytes := b'\<rparr>"
      by (auto simp: feed_push_def Let_def split: option.splits)
    have r: "rel_option evicted (map_of ss j) (map_of (AList.update k' g (st_sessions s)) j)" for j
      by (rule map_of_evicted [OF evict_total_evicted [OF ss]])
    have g': "evicted g ?f" "length (sf_entries g) \<le> ENTRIES_PER_SESSION"
      using evict_session_evicted [OF g] by (auto simp: session_over_def)
    have tg: "evicted (feed_or_default t k') g"
      using r [of k'] t(2) by (auto simp: feed_or_default_def update_conv elim: option.rel_cases)
    then have own: "evicted (feed_or_default t k') ?f" using g'(1) by (rule evicted_trans)
    have "length (sf_entries (feed_or_default t k')) \<le> ENTRIES_PER_SESSION"
      using tg g'(2) by (auto simp: evicted_def dest!: suffix_length_le)
    note own = own this
    have "evicted (feed_or_default t k) (feed_or_default s k)" if "k \<noteq> k'"
      using r [of k] t(2) that by (auto simp: feed_or_default_def update_conv elim: option.rel_cases)
    with own t show ?thesis by (simp add: evicted_def)
  qed
  have off: "n = None \<and> t = s" if "\<not> st_collecting s" using assms that by (simp add: feed_push_def)
  show "st_epoch t = st_epoch s \<and> st_collecting t = st_collecting s" using * off by blast
  show "k \<noteq> k' \<Longrightarrow> evicted (feed_or_default t k) (feed_or_default s k)" using * off by fastforce
  show "\<not> st_collecting s \<Longrightarrow> n = None \<and> t = s" by (rule off)
  show "st_collecting s \<Longrightarrow> n = Some (sf_next_seq (feed_or_default t k')) \<and> evicted (feed_or_default t k') ?f"
    using * by blast
  show "st_collecting s \<Longrightarrow> length (sf_entries (feed_or_default t k')) \<le> ENTRIES_PER_SESSION" using * by blast
qed

lemma begin_decision_InrD:
  assumes "begin_decision k epoch seq choice waiting s = (Inr plan, t)"
  obtains f p where "st_epoch s = epoch" "waiting" "feed_of s k = Some f" "sf_pending f = Some p" "pd_seq p = seq"
    "seq \<noteq> 0" "pd_answered p = None" "decision_keys (pd_provider p) (pd_card p) choice = Inr plan"
    "choice \<in> {Approve, Always} \<Longrightarrow> \<not> pd_truncated p \<and> (\<forall>d. pd_diff p = Some d \<longrightarrow> \<not> ed_truncated d)"
    "t = put_feed k (f\<lparr>sf_pending := Some (p\<lparr>pd_answered := Some Sent\<rparr>)\<rparr>) s"
proof -
  from assms obtain f p where e: "st_epoch s = epoch" "waiting" and f: "feed_of s k = Some f" "sf_pending f = Some p"
    and q: "pd_seq p = seq" "seq \<noteq> 0" "pd_answered p = None"
    by (auto simp: begin_decision_def split: if_splits option.splits elim!: bind_eq_Some_conv [THEN iffD1, elim_format])
  obtain u where u: "decision_support (pd_provider p) (pd_card p) = Inr u"
    using assms e f q by (auto simp: begin_decision_def split: sum.splits)
  let ?d = "if choice \<in> {Approve, Always} then filter_option ed_truncated (pd_diff p) else None"
  have d: "?d = None" and tr: "\<not> (choice \<in> {Approve, Always} \<and> pd_truncated p)"
    using assms e f q u by (auto simp: begin_decision_def simp del: insert_iff split: option.splits if_splits)
  obtain plan' where k: "decision_keys (pd_provider p) (pd_card p) choice = Inr plan'"
    using assms e f q u d tr by (auto simp: begin_decision_def simp del: insert_iff split: sum.splits)
  have "plan' = plan" "t = put_feed k (f\<lparr>sf_pending := Some (p\<lparr>pd_answered := Some Sent\<rparr>)\<rparr>) s"
    using assms e f q u d tr k by (auto simp: begin_decision_def simp del: insert_iff)
  moreover have "\<not> pd_truncated p \<and> (\<forall>d. pd_diff p = Some d \<longrightarrow> \<not> ed_truncated d)"
    if "choice \<in> {Approve, Always}" using d tr that by (auto split: if_splits)
  ultimately show thesis using that [OF e f q] k by simp
qed

lemma begin_decision_InlD: "begin_decision k epoch seq choice waiting s = (Inl e, t) \<Longrightarrow> t = s"
  by (auto simp: begin_decision_def split: if_splits option.splits sum.splits)

section \<open>Laws of one session's feed\<close>

text \<open>\<open>undone\<close> says of which cards an answer may be taken back.\<close>

locale feed_law =
  fixes P :: "string \<Rightarrow> session_feed \<Rightarrow> bool" and undone :: "nat \<Rightarrow> bool"
  assumes trim: "P e f \<Longrightarrow> evicted g f \<Longrightarrow> P e g"
    and same: "P e f \<Longrightarrow> sf_next_seq g = sf_next_seq f \<Longrightarrow> map fe_seq (sf_entries g) = map fe_seq (sf_entries f)
      \<Longrightarrow> sf_pending g = None \<or> sf_pending g = sf_pending f \<Longrightarrow> P e g"
    and grow: "P e f \<Longrightarrow> P e (append_item i now f)"
    and asked: "P e f \<Longrightarrow> pd_seq p = 0 \<Longrightarrow> P e (f\<lparr>sf_pending := Some p\<rparr>)"
    and dealt: "P e f \<Longrightarrow> evicted g (append_item i now f) \<Longrightarrow> pd_seq p = sf_next_seq g \<Longrightarrow> P e (g\<lparr>sf_pending := Some p\<rparr>)"
    and marked: "P e f \<Longrightarrow> sf_pending f = Some p \<Longrightarrow> a \<noteq> None \<or> undone (pd_seq p)
      \<Longrightarrow> P e (f\<lparr>sf_pending := Some (p\<lparr>pd_answered := a\<rparr>)\<rparr>)"
begin

abbreviation holds :: "nat \<Rightarrow> store \<Rightarrow> bool" where
  "holds k s \<equiv> P (st_epoch s) (feed_or_default s k)"

lemma noted: "P e f \<Longrightarrow> P e (note_item i now f)"
  by (rule same) auto

lemma push:
  assumes "holds k s" and "feed_push k' item now s = Some (n, t)"
  shows "holds k t"
proof (cases "st_collecting s")
  case True
  show ?thesis
  proof (cases "k = k'")
    case False
    then show ?thesis using trim [OF assms(1)] feed_pushD(1,2) [OF assms(2)] by simp
  next
    case True
    then show ?thesis using feed_pushD(4) [OF assms(2) \<open>st_collecting s\<close>] trim [OF grow [OF noted [OF assms(1)]]]
      feed_pushD(1) [OF assms(2)] by auto
  qed
qed (use assms feed_pushD(3) [OF assms(2)] in simp)

lemma push_item: "holds k s \<Longrightarrow> push_item k' item now s = Some t \<Longrightarrow> holds k t"
  using push by (auto simp: push_item_def)

lemma push_card:
  assumes "holds k s" and "push_card k' item build now s = Some t"
    and "\<And>n. pd_seq (build n) = n" and "\<And>n. pd_card (build n) \<noteq> Card_Input"
  shows "holds k t"
proof -
  from assms(2) obtain n u where u: "feed_push k' item now s = Some (n, u)"
    and t: "t = (case n of None \<Rightarrow> u | Some n \<Rightarrow> snd (set_pending k' (build n) u))"
    by (auto simp: push_card_def)
  have hu: "holds k u" by (rule push [OF assms(1) u])
  show ?thesis
  proof (cases "st_collecting s \<and> k = k'")
    case True
    then have "n = Some (sf_next_seq (feed_or_default u k))"
      "evicted (feed_or_default u k) (append_item item now (note_item item now (feed_or_default s k)))"
      using feed_pushD(4) [OF u] by auto
    then show ?thesis using True t hu assms(3,4) dealt [OF noted [OF assms(1)]] feed_pushD(1) [OF u]
      by (simp add: set_pending_def Let_def)
  next
    case False
    then show ?thesis using t hu feed_pushD(3) [OF u]
      by (auto simp: set_pending_def Let_def split: option.split)
  qed
qed

lemma note_edited_path: "holds k s \<Longrightarrow> holds k (note_edited_path redact k' path s)"
  by (auto simp: note_edited_path_def Let_def elim!: same)

lemma note_edited_paths: "holds k s \<Longrightarrow> holds k (fold (note_edited_path redact k') paths s)"
  by (induction paths arbitrary: s) (auto simp: note_edited_path)

lemma end_turn: "holds k s \<Longrightarrow> holds k (snd (end_turn k' outcome now s))"
  by (auto simp: end_turn_def Let_def elim!: same)

lemma resolve: "holds k s \<Longrightarrow> holds k (snd (resolve_pending k' s))"
  by (auto simp: resolve_pending_def feed_of_or_default split: option.split elim!: same)

lemma answer: "holds k s \<Longrightarrow> holds k (snd (answer_question k' i answers s))"
  by (auto simp: answer_question_def Let_def feed_of_or_default split: option.split elim!: same)

lemma activity: "holds k s \<Longrightarrow> holds k (activity_add redact k' kind title excerpt by' now s)"
  by (simp add: activity_add_def Let_def feed_or_default_def)

lemma remote_activity: "holds k s \<Longrightarrow> holds k (remote_activity redact k' kind excerpt title now s)"
  by (simp add: remote_activity_def activity_push_def activity split: option.split)

lemma set_input: "holds k s \<Longrightarrow> holds k (snd (set_pending k' (input_pending provider now) s))"
  using asked by (auto simp: set_pending_def Let_def input_pending_def)

lemma mark:
  assumes "holds k s" and "\<And>p. k' = k \<Longrightarrow> applies p \<Longrightarrow> a \<noteq> None \<or> undone (pd_seq p)"
  shows "holds k (snd (on_pending k' applies a s))"
  using assms marked by (auto simp: on_pending_def feed_of_or_default split: option.split)

lemma decide: "holds k s \<Longrightarrow> holds k (snd (begin_decision k' epoch seq choice waiting s))"
proof -
  assume h: "holds k s"
  obtain r t where d: "begin_decision k' epoch seq choice waiting s = (r, t)" by fastforce
  show ?thesis
  proof (cases r)
    case (Inr plan)
    from begin_decision_InrD [OF d [unfolded Inr]] obtain f p where f: "feed_of s k' = Some f" "sf_pending f = Some p"
      "t = put_feed k' (f\<lparr>sf_pending := Some (p\<lparr>pd_answered := Some Sent\<rparr>)\<rparr>) s" by blast
    then show ?thesis using h d marked [OF _ f(2)] by (auto simp: feed_of_or_default)
  qed (use d h begin_decision_InlD in fastforce)
qed

lemma applied:
  assumes "holds k s" and "apply_feed redact d now s = Some t"
  shows "holds k t"
proof -
  have q: "\<And>i qs pr n. pd_seq (question_pending i qs pr now n) = n"
    "\<And>i qs pr n. pd_card (question_pending i qs pr now n) \<noteq> Card_Input"
    by (simp_all add: question_pending_def)
  have p: "\<And>a b c e f pr n. pd_seq (permission_pending a b c e f pr now n) = n"
    "\<And>a b c e f pr n. pd_card (permission_pending a b c e f pr now n) \<noteq> Card_Input"
    by (simp_all add: permission_pending_def)
  show ?thesis
  proof (cases "fd_feed d")
    case (Some h)
    show ?thesis
    proof (cases h)
      case (Hook_Prompt prompt)
      then show ?thesis using assms Some push_item by (auto simp: apply_feed_def split: if_splits)
    next
      case (Hook_Question i qs)
      then show ?thesis using assms Some push_card [OF _ _ q] by (simp add: apply_feed_def)
    next
      case (Hook_Answered i answers)
      obtain asked u where u: "answer_question (fd_session d) i answers s = (asked, u)" by fastforce
      then have "holds k u" using answer [OF assms(1), of "fd_session d" i answers] by simp
      then show ?thesis using assms(2) Some Hook_Answered u push_item
        by (auto simp: apply_feed_def split: if_splits)
    next
      case (Hook_Permission tool target always truncated diff)
      then show ?thesis using assms Some push_card [OF _ _ p] by (simp add: apply_feed_def)
    next
      case (Hook_Step tool target failed paths)
      then show ?thesis using assms Some push_item [OF note_edited_paths] by (auto simp: apply_feed_def Let_def)
    qed
  qed (use assms in \<open>simp add: apply_feed_def\<close>)
qed

lemma finish:
  assumes "holds k s" and "finish_turn redact d reply title now s = Some t"
  shows "holds k t"
proof -
  let ?k = "fd_session d"
  let ?o = "turn_outcome (from_provider (fd_provider d) (fd_event d))"
  obtain s1 where
    s1: "(case reply of Some t \<Rightarrow> push_item ?k (Item_Reply t) now s | None \<Rightarrow> Some s) = Some s1"
    using assms(2) by (auto simp: finish_turn_def Let_def bind_eq_Some_conv)
  obtain item s2 where s2: "end_turn ?k ?o now s1 = (item, s2)" by fastforce
  obtain s3 s4 where
    s3: "(case item of Some i \<Rightarrow> push_item ?k i now s2 | None \<Rightarrow> Some s2) = Some s3"
    and s4: "push_item ?k (Item_Status ''finished'') now s3 = Some s4"
    and t: "t = remote_activity redact ?k ''finished'' (map_option (reply_text redact) (fd_last_message d)) title now s4"
    using assms(2) s1 s2 by (auto simp: finish_turn_def Let_def bind_eq_Some_conv)
  have "holds k s1" using s1 assms(1) push_item by (auto split: option.splits)
  then have "holds k s2" using end_turn [of s1 k ?k ?o now] s2 by simp
  then have "holds k s3" using s3 push_item by (auto split: option.splits)
  then have "holds k s4" using s4 push_item by blast
  then show ?thesis using t remote_activity by simp
qed

lemma pruned:
  assumes "holds k s" and "prune at keep s = Some t" and "keep k \<or> (\<forall>e. P e session_feed_default)"
  shows "holds k t"
proof -
  have "map_of (filter (\<lambda>x. keep (fst x)) ss) k = (if keep k then map_of ss k else None)" for ss :: "(nat \<times> session_feed) list"
    by (induction ss) auto
  then show ?thesis using assms
    by (auto simp: prune_def Let_def feed_or_default_def split: if_splits)
qed

lemma hook:
  assumes "holds k s" and "remote_feed_hook redact live d title now s = Some t" and "live k \<or> (\<forall>e. P e session_feed_default)"
  shows "holds k t"
proof (cases "\<not> st_collecting s \<or> \<not> live (fd_session d)")
  case False
  then obtain u v c r where u: "apply_feed redact d now s = Some u"
    and v: "(if c then finish_turn redact d r title now u else Some u) = Some v"
    and t: "(if SEEN_PRUNE_AT < length (st_sessions v) then prune SEEN_PRUNE_AT live v else Some v) = Some t"
    using assms(2) by (auto simp: remote_feed_hook_def Let_def bind_eq_Some_conv)
  have "holds k u" by (rule applied [OF assms(1) u])
  then have "holds k v" using v finish by (auto split: if_splits)
  then show ?thesis using t pruned assms(3) by (auto split: if_splits)
qed (use assms in \<open>auto simp: remote_feed_hook_def\<close>)

lemma status: "holds k s \<Longrightarrow> holds k (remote_note_status redact k' st previous provider title now s)"
  by (simp add: remote_note_status_def Let_def remote_activity resolve set_input split: option.split)

lemma exited: "holds k s \<Longrightarrow> remote_note_exit k' now s = Some t \<Longrightarrow> holds k t"
  using push_item [OF resolve] by (auto simp: remote_note_exit_def split: if_splits)

lemma keystroke: "holds k s \<Longrightarrow> holds k (remote_note_keystroke redact k' origin title now s)"
  using mark [of s k k' "\<lambda>p. pd_seq p \<noteq> 0 \<and> pd_answered p = None" "Some Elsewhere"]
    mark [of "snd (note_keystroke k' s)" k k' "\<lambda>p. pd_card p = Card_Input \<and> pd_answered p = None" "Some Elsewhere"]
  by (auto simp: remote_note_keystroke_def note_keystroke_def note_input_answer_def remote_activity
      split: prod.split if_splits)

lemma forgotten:
  assumes "holds k s" and "forget k' s = Some t" and "k' \<noteq> k \<or> (\<forall>e. P e session_feed_default)"
  shows "holds k t"
  using assms by (auto simp: forget_def feed_or_default_def map_of_delete delete_conv split: option.splits if_splits)

lemma step:
  assumes "holds k s" and "feed_step redact live op' s = Some t"
    and "\<And>n. op' = Undo k n \<Longrightarrow> undone n" and "live k \<and> op' \<noteq> Closed k \<or> (\<forall>e. P e session_feed_default)"
    and "\<And>on e. op' = Switch on e \<Longrightarrow> P e session_feed_default"
  shows "holds k t"
proof (cases op')
  case (Hook_Drop d title now)
  then show ?thesis using assms(1,2,4) hook by auto
next
  case (Undo k' n)
  then show ?thesis using assms(1-3) mark [of s k k' "\<lambda>p. pd_seq p = n \<and> pd_answered p = Some Sent" None]
    by (auto simp: clear_sent_def)
next
  case (Closed k')
  then show ?thesis using assms(1,2,4) forgotten by auto
next
  case (Switch on e)
  then show ?thesis using assms(1,2,5) by (auto simp: set_collecting_def feed_or_default_def)
qed (use assms(1,2) status exited keystroke decide activity remote_activity in \<open>auto simp: activity_action_def split: if_splits\<close>)

end

text \<open>A law that also holds of a session without a feed holds after every run.\<close>

locale started_feed_law = feed_law P "\<lambda>_. True" for P +
  assumes start: "P e session_feed_default"
begin

lemma run: "holds k s \<Longrightarrow> feed_run redact ops s = Some t \<Longrightarrow> holds k t"
proof (induction ops arbitrary: s)
  case (Cons x ops)
  obtain live op' where x: "x = (live, op')" by fastforce
  with Cons.prems obtain u where "feed_step redact live op' s = Some u" "feed_run redact ops u = Some t"
    by (auto simp: bind_eq_Some_conv)
  then show ?case using Cons.IH Cons.prems(1) step [of s k redact live op' u] start by blast
qed simp

lemma reached: "feed_run redact ops (store_default e) = Some t \<Longrightarrow> holds k t"
  using run [of "store_default e" k] start by (simp add: feed_or_default_def store_default_def)

end

section \<open>The two laws\<close>

definition ordered :: "session_feed \<Rightarrow> bool" where
  "ordered f \<longleftrightarrow> in_order f \<and> (\<forall>p. sf_pending f = Some p \<longrightarrow> pd_seq p \<le> sf_next_seq f)"

lemma in_order_evicted:
  assumes "in_order f" and "evicted g f" shows "in_order g"
proof -
  from assms(2) obtain xs where xs: "sf_entries f = xs @ sf_entries g" and n: "sf_next_seq g = sf_next_seq f"
    by (auto simp: evicted_def suffix_def)
  have "map fe_seq (sf_entries g) = drop (length xs) (map fe_seq (sf_entries f))" using xs by simp
  also have "\<dots> = drop (length xs) [sf_next_seq f - length (sf_entries f) + 1..<sf_next_seq f + 1]"
    using assms(1) by (simp only: in_order_def)
  also have "\<dots> = [sf_next_seq f - length (sf_entries f) + 1 + length xs..<sf_next_seq f + 1]" by (rule drop_upt)
  also have "sf_next_seq f - length (sf_entries f) + 1 + length xs = sf_next_seq g - length (sf_entries g) + 1"
    using assms(1) xs n by (simp add: in_order_def)
  finally show ?thesis using assms(1) xs n by (simp add: in_order_def)
qed

interpretation ordered: started_feed_law "\<lambda>_. ordered"
proof unfold_locales
  fix f g assume "ordered f" and "evicted g f"
  then show "ordered g" using in_order_evicted by (auto simp: ordered_def evicted_def)
next
  fix f g :: session_feed
  assume *: "ordered f" "sf_next_seq g = sf_next_seq f" "map fe_seq (sf_entries g) = map fe_seq (sf_entries f)"
    "sf_pending g = None \<or> sf_pending g = sf_pending f"
  have "length (sf_entries g) = length (sf_entries f)" using *(3) by (metis length_map)
  with * show "ordered g" by (auto simp: ordered_def in_order_def)
next
  fix f i now assume "ordered f"
  then show "ordered (append_item i now f)" using append_item_in_order [of f i now]
    by (auto simp: ordered_def append_item_def in_order_def Suc_diff_le)
next
  fix f g i now and p :: pending_card
  assume "ordered f" "evicted g (append_item i now f)" "pd_seq p = sf_next_seq g"
  then show "ordered (g\<lparr>sf_pending := Some p\<rparr>)"
    using in_order_evicted [of "append_item i now f" g] append_item_in_order [of f i now]
    by (auto simp: ordered_def append_item_def in_order_def evicted_def Suc_diff_le)
qed (auto simp: ordered_def in_order_def session_feed_default_def)

definition answered_card :: "string \<Rightarrow> nat \<Rightarrow> string \<Rightarrow> session_feed \<Rightarrow> bool" where
  "answered_card epoch seq e f \<longleftrightarrow> (e = epoch \<longrightarrow> 0 < seq \<and> seq \<le> sf_next_seq f
     \<and> (\<forall>p. sf_pending f = Some p \<longrightarrow> pd_seq p = seq \<longrightarrow> pd_answered p \<noteq> None))"

interpretation answered: feed_law "answered_card epoch seq" "\<lambda>n. n \<noteq> seq" for epoch seq
  by unfold_locales (auto simp: answered_card_def evicted_def append_item_def)

end
