(* ===== verification/Phone_Properties.thy ===== *)
theory Phone_Properties
  imports Phone_Runs
begin

text \<open>
  What the conversation feed promises over whole runs of the daemon: its bounds, pages without a silent gap,
  a card answered once, approvals only of what the device was shown in full; and the run in which the
  answers recorded on questions take the count of held bytes below zero.
\<close>

section \<open>Bounds\<close>

lemma session_ok_bounds:
  assumes "session_ok f"
  shows "length (sf_entries f) \<le> ENTRIES_PER_SESSION"
    and "held_bytes (sf_entries f) \<le> BYTES_PER_SESSION \<or> length (sf_entries f) \<le> 1"
  using assms by (auto simp: session_ok_def booked_def session_over_def)

lemma store_ok_bounds:
  assumes "store_ok s"
  defines "held \<equiv> sum_list (map (\<lambda>x. held_bytes (sf_entries (snd x))) (st_sessions s))"
  shows "st_bytes s = held"
    and "\<forall>(k, f) \<in> set (st_sessions s). length (sf_entries f) \<le> ENTRIES_PER_SESSION
      \<and> (held_bytes (sf_entries f) \<le> BYTES_PER_SESSION \<or> length (sf_entries f) \<le> 1)"
    and "held \<le> BYTES_TOTAL \<or> (\<forall>(k, f) \<in> set (st_sessions s). length (sf_entries f) \<le> 1)"
    and "length (st_activity s) \<le> ACTIVITY_MAX_ENTRIES"
proof -
  have ok: "Ball (snd ` set (st_sessions s)) session_ok" using assms(1) by (simp add: store_ok_def feeds_ok_def)
  have "booked_total (st_sessions s) = held"
    unfolding booked_total_def held_def using ok
    by (intro arg_cong [where f = sum_list] map_cong) (auto simp: session_ok_def booked_def)
  then show held: "st_bytes s = held" using assms(1) by (simp add: store_ok_def)
  show "\<forall>(k, f) \<in> set (st_sessions s). length (sf_entries f) \<le> ENTRIES_PER_SESSION
      \<and> (held_bytes (sf_entries f) \<le> BYTES_PER_SESSION \<or> length (sf_entries f) \<le> 1)"
    using ok session_ok_bounds by fastforce
  show "held \<le> BYTES_TOTAL \<or> (\<forall>(k, f) \<in> set (st_sessions s). length (sf_entries f) \<le> 1)"
    using assms(1) held by (auto simp: store_ok_def)
  show "length (st_activity s) \<le> ACTIVITY_MAX_ENTRIES" using assms(1) by (simp add: store_ok_def)
qed

text \<open>C17: As long as no hook reports the answers of a question, no operation of the daemon fails: a run of
  any length returns, the booked bytes are exactly the bytes held, a session holds at most 200 entries and
  512 KiB or a single entry, all sessions together at most 32 MiB or a single entry each, and the activity
  list at most 500 entries.\<close>

theorem feed_stays_within_its_bounds:
  assumes "list_all (\<lambda>x. \<not> records_answers (snd x)) ops"
  shows "\<exists>t. feed_run redact ops (store_default epoch) = Some t
    \<and> st_bytes t = sum_list (map (\<lambda>x. held_bytes (sf_entries (snd x))) (st_sessions t))
    \<and> (\<forall>(k, f) \<in> set (st_sessions t). length (sf_entries f) \<le> ENTRIES_PER_SESSION
         \<and> (held_bytes (sf_entries f) \<le> BYTES_PER_SESSION \<or> length (sf_entries f) \<le> 1))
    \<and> (st_bytes t \<le> BYTES_TOTAL \<or> (\<forall>(k, f) \<in> set (st_sessions t). length (sf_entries f) \<le> 1))
    \<and> length (st_activity t) \<le> ACTIVITY_MAX_ENTRIES"
proof -
  obtain t where "feed_run redact ops (store_default epoch) = Some t" "store_ok t"
    using feed_run_ok [OF store_default_ok assms] by blast
  then show ?thesis using store_ok_bounds [of t] by auto
qed

section \<open>Pages\<close>

lemma filter_upt_greater: "filter (\<lambda>n. a < n) [m..<n] = [max (a + 1) m..<n]"
  by (induction n) (auto simp: max_def)

lemma ordered_page_seqs:
  assumes "in_order f"
  shows "map fe_seq (filter (\<lambda>e. a < fe_seq e) (sf_entries f))
    = [max (a + 1) (sf_next_seq f - length (sf_entries f) + 1)..<sf_next_seq f + 1]"
proof -
  have "map fe_seq (filter (\<lambda>e. a < fe_seq e) (sf_entries f)) = filter (\<lambda>n. a < n) (map fe_seq (sf_entries f))"
    by (simp add: filter_map comp_def)
  also have "\<dots> = filter (\<lambda>n. a < n) [sf_next_seq f - length (sf_entries f) + 1..<sf_next_seq f + 1]"
    using assms by (simp only: in_order_def)
  finally show ?thesis by (simp only: filter_upt_greater)
qed

lemma in_order_first:
  assumes "in_order f"
  shows "(case sf_entries f of e # _ \<Rightarrow> fe_seq e | [] \<Rightarrow> sf_next_seq f + 1) = sf_next_seq f - length (sf_entries f) + 1"
proof (cases "sf_entries f")
  case (Cons e es)
  then have "fe_seq e = hd (map fe_seq (sf_entries f))" by simp
  also have "\<dots> = hd [sf_next_seq f - length (sf_entries f) + 1..<sf_next_seq f + 1]"
    using assms by (simp only: in_order_def)
  also have "\<dots> = sf_next_seq f - length (sf_entries f) + 1"
    using Cons assms by (intro hd_upt) (auto simp: in_order_def)
  finally show ?thesis using Cons by simp
qed (use assms in simp)

text \<open>C18: After every run, a page asked for by a device that has read up to an entry the feed has reached
  holds every later entry, consecutively up to the newest: either all of them, or, when the page is marked
  truncated, all from the oldest still held; and it is marked truncated exactly when entries the device has
  not read were dropped.\<close>

theorem pages_have_no_silent_gap:
  assumes "feed_run redact ops (store_default epoch) = Some t"
    and "after \<le> fp_last_seq (page k after t)" and "fp_last_seq (page k after t) < 2 ^ 64"
  shows "map fe_seq (fp_entries (page k after t))
      = (if fp_truncated (page k after t) then [fp_first_seq (page k after t)..<fp_last_seq (page k after t) + 1]
         else [after + 1..<fp_last_seq (page k after t) + 1])
    \<and> (fp_truncated (page k after t) \<longleftrightarrow> after + 1 < fp_first_seq (page k after t))"
proof (cases "feed_of t k")
  case None
  then show ?thesis using assms(2) by (simp add: page_def)
next
  case (Some f)
  have o: "in_order f" using ordered.reached [OF assms(1), of k] Some by (simp add: ordered_def feed_of_or_default)
  let ?first = "sf_next_seq f - length (sf_entries f) + 1"
  have p: "fp_first_seq (page k after t) = ?first" "fp_last_seq (page k after t) = sf_next_seq f"
    "map fe_seq (fp_entries (page k after t)) = [max (after + 1) ?first..<sf_next_seq f + 1]"
    "fp_truncated (page k after t) = page_gap after ?first (sf_next_seq f)"
    using Some ordered_page_seqs [OF o] in_order_first [OF o] by (simp_all add: page_def Let_def)
  have "page_gap after ?first (sf_next_seq f) \<longleftrightarrow> after + 1 < ?first"
    using assms(2,3) p(2) by (auto simp: page_gap_def min_def)
  then show ?thesis unfolding p by (simp add: max_def)
qed

section \<open>Decisions\<close>

lemma permission_choice:
  assumes "decision_keys provider c choice = Inr plan" and "choice \<in> {Approve, Always}"
  shows "\<exists>always. c = Card_Permission always"
  using decision_keysD(2) [OF assms(1)] assms(2) by (auto simp: question_keys_def)

text \<open>C20: An approval that is carried out was of a permission card the device could read in full: at that moment
  every page the device is sent shows, under the epoch and number it named, a permission card with neither its
  target nor its diff cut, open to a decision and answered by nobody; and afterwards the pages show it as sent.\<close>

theorem approvals_are_of_what_was_shown:
  assumes "begin_decision k epoch seq choice waiting s = (Inr plan, t)" and "choice \<in> {Approve, Always}"
  shows "\<exists>v. fp_pending (remote_feed k after waiting s) = Some v \<and> pv_epoch v = epoch \<and> pv_seq v = seq
      \<and> pv_kind v = ''permission'' \<and> \<not> pv_truncated v \<and> (\<forall>d. pv_diff v = Some d \<longrightarrow> \<not> ed_truncated d)
      \<and> pv_decidable v \<and> \<not> pv_sent v \<and> \<not> pv_answered_elsewhere v
      \<and> fp_pending (remote_feed k after waiting t) = Some (v\<lparr>pv_sent := True\<rparr>)"
proof -
  from begin_decision_InrD [OF assms(1)] obtain f p where e: "st_epoch s = epoch" "waiting"
    and f: "feed_of s k = Some f" "sf_pending f = Some p" "pd_seq p = seq" "pd_answered p = None"
    and keys: "decision_keys (pd_provider p) (pd_card p) choice = Inr plan"
    and whole: "\<not> pd_truncated p \<and> (\<forall>d. pd_diff p = Some d \<longrightarrow> \<not> ed_truncated d)"
    and t: "t = put_feed k (f\<lparr>sf_pending := Some (p\<lparr>pd_answered := Some Sent\<rparr>)\<rparr>) s"
    using assms(2) by metis
  obtain always where c: "pd_card p = Card_Permission always" using permission_choice [OF keys assms(2)] by blast
  have "fp_pending (remote_feed k after waiting s) = Some (pending_view_of epoch p)"
    using f e by (simp add: remote_feed_def page_def Let_def)
  moreover have "fp_pending (remote_feed k after waiting t) = Some ((pending_view_of epoch p)\<lparr>pv_sent := True\<rparr>)"
    using f e t by (simp add: remote_feed_def page_def Let_def put_feed_def update_conv pending_view_of_def)
  ultimately show ?thesis using e f whole c decision_keysD(1) [OF keys]
    by (auto simp: pending_view_of_def)
qed

section \<open>A card is answered once\<close>

section \<open>A card is answered once\<close>

text \<open>The steps during which a card of session \<open>k\<close> stays the answered one: the session is open, its answer is
  not taken back after a failed write, and remote access gets no epoch a second time.\<close>

definition keeps_answer :: "nat \<Rightarrow> string \<Rightarrow> nat \<Rightarrow> (nat \<Rightarrow> bool) \<times> feed_op \<Rightarrow> bool" where
  "keeps_answer k epoch seq x \<longleftrightarrow> fst x k
     \<and> snd x \<notin> {Closed k, Undo k seq, Switch True epoch, Switch False epoch}"

lemma answered_run:
  assumes "answered_card epoch seq (st_epoch s) (feed_or_default s k)" and "feed_run redact ops s = Some t"
    and "list_all (keeps_answer k epoch seq) ops"
  shows "answered_card epoch seq (st_epoch t) (feed_or_default t k)"
  using assms
proof (induction ops arbitrary: s)
  case (Cons x ops)
  obtain live op' where x: "x = (live, op')" by fastforce
  with Cons.prems obtain u where u: "feed_step redact live op' s = Some u" "feed_run redact ops u = Some t"
    by (auto simp: bind_eq_Some_conv)
  have k: "live k" "op' \<noteq> Closed k" "op' \<noteq> Undo k seq" "\<And>on. op' \<noteq> Switch on epoch"
    using Cons.prems(3) x by (auto simp: keeps_answer_def)
  have "answered_card epoch seq (st_epoch u) (feed_or_default u k)"
    using answered.step [OF Cons.prems(1) u(1)] k by (auto simp: answered_card_def)
  then show ?case using Cons.IH u(2) Cons.prems(3) by simp
qed simp

text \<open>C16: Once a device's decision on a card has been taken, no other is taken on it: whatever hooks, changes of
  status, keystrokes, decisions, exits and switches follow, a decision that names the same session, epoch and
  number is refused, with any choice, as long as the session is open, the first decision is not taken back and
  no later switch of remote access draws the same epoch.\<close>

theorem a_card_is_answered_once:
  assumes "feed_run redact before (store_default epoch0) = Some s"
    and "begin_decision k epoch seq choice waiting s = (Inr plan, u)"
    and "feed_run redact ops u = Some t" and "list_all (keeps_answer k epoch seq) ops"
  shows "\<exists>refusal. begin_decision k epoch seq choice' waiting' t = (Inl refusal, t)"
proof -
  from begin_decision_InrD [OF assms(2)] obtain f p where f: "feed_of s k = Some f" "sf_pending f = Some p"
    "pd_seq p = seq" "seq \<noteq> 0" and u: "u = put_feed k (f\<lparr>sf_pending := Some (p\<lparr>pd_answered := Some Sent\<rparr>)\<rparr>) s" .
  have "seq \<le> sf_next_seq f"
    using ordered.reached [OF assms(1), of k] f by (simp add: ordered_def feed_of_or_default)
  then have "answered_card epoch seq (st_epoch u) (feed_or_default u k)"
    using f u by (simp add: answered_card_def)
  from answered_run [OF this assms(3,4)] have *: "answered_card epoch seq (st_epoch t) (feed_or_default t k)" .
  obtain r v where d: "begin_decision k epoch seq choice' waiting' t = (r, v)" by fastforce
  show ?thesis
  proof (cases r)
    case (Inl e)
    then show ?thesis using d begin_decision_InlD by blast
  next
    case (Inr plan')
    from begin_decision_InrD [OF d [unfolded Inr]] obtain g q where "st_epoch t = epoch" "feed_of t k = Some g"
      "sf_pending g = Some q" "pd_seq q = seq" "pd_answered q = None" .
    with * show ?thesis by (simp add: answered_card_def feed_of_or_default)
  qed
qed

section \<open>Recorded answers\<close>

lemma push_item_leak:
  assumes "push_item k item now s = Some t" and "st_collecting s"
  shows "st_collecting t" and "length (sf_entries (feed_or_default t k)) \<le> ENTRIES_PER_SESSION"
    and "\<exists>e. fe_item e = item \<and> suffix (sf_entries (feed_or_default t k)) (sf_entries (feed_or_default s k) @ [e])"
    and "held_bytes (sf_entries (feed_or_default t k)) + sf_bytes (feed_or_default s k)
      = held_bytes (sf_entries (feed_or_default s k)) + sf_bytes (feed_or_default t k)"
proof -
  obtain n where n: "feed_push k item now s = Some (n, t)" using assms(1) by (auto simp: push_item_def)
  note p = feed_pushD [OF n]
  show "st_collecting t" using p(1) assms(2) by simp
  show "length (sf_entries (feed_or_default t k)) \<le> ENTRIES_PER_SESSION" by (rule p(5) [OF assms(2)])
  have "evicted (feed_or_default t k) (append_item item now (note_item item now (feed_or_default s k)))"
    using p(4) [OF assms(2)] by simp
  then show "\<exists>e. fe_item e = item \<and> suffix (sf_entries (feed_or_default t k)) (sf_entries (feed_or_default s k) @ [e])"
    and "held_bytes (sf_entries (feed_or_default t k)) + sf_bytes (feed_or_default s k)
      = held_bytes (sf_entries (feed_or_default s k)) + sf_bytes (feed_or_default t k)"
    by (auto simp: evicted_def append_item_def intro!: exI [where x = "\<lparr>fe_seq = _, fe_at = _, fe_item = item\<rparr>"])
qed

text \<open>The report of a tool that ran in the middle of a turn.\<close>

definition plain_step :: "feed_drop \<Rightarrow> nat \<Rightarrow> feed_item \<Rightarrow> bool" where
  "plain_step d k item \<longleftrightarrow> fd_session d = k
     \<and> (case item of Item_Step tool target failed \<Rightarrow> fd_feed d = Some (Hook_Step tool target failed []) | _ \<Rightarrow> False)
     \<and> from_provider (fd_provider d) (fd_event d) \<notin> {Some TurnEnded, Some TurnFailed, Some TurnInterrupted}"

lemma plain_step_leak:
  assumes "remote_feed_hook redact live d title now s = Some t" and "plain_step d k item" and "live k"
    and "st_collecting s"
  shows "st_collecting t" and "length (sf_entries (feed_or_default t k)) \<le> ENTRIES_PER_SESSION"
    and "\<exists>e. fe_item e = item \<and> suffix (sf_entries (feed_or_default t k)) (sf_entries (feed_or_default s k) @ [e])"
    and "held_bytes (sf_entries (feed_or_default t k)) + sf_bytes (feed_or_default s k)
      = held_bytes (sf_entries (feed_or_default s k)) + sf_bytes (feed_or_default t k)"
proof -
  from assms(2) have "apply_feed redact d now s = push_item k item now s"
    by (auto simp: plain_step_def apply_feed_def split: feed_item.splits)
  then obtain u where u: "push_item k item now s = Some u"
    and t: "(if SEEN_PRUNE_AT < length (st_sessions u) then prune SEEN_PRUNE_AT live u else Some u) = Some t"
    using assms by (auto simp: remote_feed_hook_def plain_step_def Let_def bind_eq_Some_conv)
  have "map_of (filter (\<lambda>x. live (fst x)) ss) k = map_of ss k" for ss :: "(nat \<times> session_feed) list"
    using assms(3) by (induction ss) auto
  then have same: "feed_or_default t k = feed_or_default u k" "st_collecting t = st_collecting u"
    using t by (auto simp: prune_def feed_or_default_def Let_def split: if_splits)
  show "st_collecting t" and "length (sf_entries (feed_or_default t k)) \<le> ENTRIES_PER_SESSION"
    and "\<exists>e. fe_item e = item \<and> suffix (sf_entries (feed_or_default t k)) (sf_entries (feed_or_default s k) @ [e])"
    and "held_bytes (sf_entries (feed_or_default t k)) + sf_bytes (feed_or_default s k)
      = held_bytes (sf_entries (feed_or_default s k)) + sf_bytes (feed_or_default t k)"
    unfolding same using push_item_leak [OF u assms(4)] by blast+
qed

lemma plain_steps_leak:
  assumes "feed_run redact (replicate n (live, Hook_Drop d title now)) s = Some t" and "plain_step d k item"
    and "live k" and "st_collecting s"
  shows "\<exists>es. length es = n \<and> (\<forall>e \<in> set es. fe_item e = item)
      \<and> suffix (sf_entries (feed_or_default t k)) (sf_entries (feed_or_default s k) @ es)
      \<and> held_bytes (sf_entries (feed_or_default t k)) + sf_bytes (feed_or_default s k)
          = held_bytes (sf_entries (feed_or_default s k)) + sf_bytes (feed_or_default t k)
      \<and> (0 < n \<longrightarrow> length (sf_entries (feed_or_default t k)) \<le> ENTRIES_PER_SESSION)"
  using assms
proof (induction n arbitrary: s)
  case (Suc n)
  then obtain u where u: "remote_feed_hook redact live d title now s = Some u"
    and r: "feed_run redact (replicate n (live, Hook_Drop d title now)) u = Some t"
    by (auto simp: bind_eq_Some_conv)
  note l = plain_step_leak [OF u Suc.prems(2-4)]
  obtain e where e: "fe_item e = item" "suffix (sf_entries (feed_or_default u k)) (sf_entries (feed_or_default s k) @ [e])"
    using l(3) by blast
  from Suc.IH [OF r Suc.prems(2,3) l(1)] obtain es where es: "length es = n" "\<forall>e \<in> set es. fe_item e = item"
    "suffix (sf_entries (feed_or_default t k)) (sf_entries (feed_or_default u k) @ es)"
    "held_bytes (sf_entries (feed_or_default t k)) + sf_bytes (feed_or_default u k)
          = held_bytes (sf_entries (feed_or_default u k)) + sf_bytes (feed_or_default t k)"
    "0 < n \<longrightarrow> length (sf_entries (feed_or_default t k)) \<le> ENTRIES_PER_SESSION" by blast
  obtain xs ys where "sf_entries (feed_or_default u k) @ es = xs @ sf_entries (feed_or_default t k)"
    "sf_entries (feed_or_default s k) @ [e] = ys @ sf_entries (feed_or_default u k)"
    using es(3) e(2) by (auto simp: suffix_def)
  then have "sf_entries (feed_or_default s k) @ e # es = (ys @ xs) @ sf_entries (feed_or_default t k)"
    by (metis append.assoc append_Cons append_Nil)
  then have "suffix (sf_entries (feed_or_default t k)) (sf_entries (feed_or_default s k) @ e # es)"
    by (rule suffixI)
  moreover have "length (sf_entries (feed_or_default t k)) \<le> ENTRIES_PER_SESSION"
    using es(5) l(2) r by (cases n) auto
  moreover have "length (e # es) = Suc n" "\<forall>x \<in> set (e # es). fe_item x = item" using es(1,2) e(1) by simp_all
  moreover have "held_bytes (sf_entries (feed_or_default t k)) + sf_bytes (feed_or_default s k)
      = held_bytes (sf_entries (feed_or_default s k)) + sf_bytes (feed_or_default t k)"
    using es(4) l(4) by linarith
  ultimately show ?case by blast
qed simp

text \<open>C19: The answers recorded on a question grow an entry whose bytes were booked before: once the entries held
  for a session outweigh what is booked for it by more than 200 entries of a tool step weigh, two hundred
  reports of that step take the count below zero (a panic in a debug build; in a release build it wraps
  around, and every later entry of the session evicts all before it).\<close>

theorem recorded_answers_run_the_count_below_zero:
  assumes "st_collecting s" and "live k" and "plain_step d k item"
    and "sf_bytes (feed_or_default s k) + ENTRIES_PER_SESSION * weight item
      < held_bytes (sf_entries (feed_or_default s k))"
  shows "feed_run redact (replicate ENTRIES_PER_SESSION (live, Hook_Drop d title now)) s = None"
proof (rule ccontr)
  assume "\<not> ?thesis"
  then obtain t where t: "feed_run redact (replicate ENTRIES_PER_SESSION (live, Hook_Drop d title now)) s = Some t"
    by auto
  from plain_steps_leak [OF t assms(3,2,1)] obtain es where es: "length es = ENTRIES_PER_SESSION"
    "\<forall>e \<in> set es. fe_item e = item" "suffix (sf_entries (feed_or_default t k)) (sf_entries (feed_or_default s k) @ es)"
    "held_bytes (sf_entries (feed_or_default t k)) + sf_bytes (feed_or_default s k)
          = held_bytes (sf_entries (feed_or_default s k)) + sf_bytes (feed_or_default t k)"
    "length (sf_entries (feed_or_default t k)) \<le> ENTRIES_PER_SESSION"
    by (auto simp: ENTRIES_PER_SESSION_def)
  have "suffix (sf_entries (feed_or_default t k)) es"
    using es(1,3,5) suffix_length_suffix [of _ "sf_entries (feed_or_default s k) @ es" es] by (simp add: suffix_def)
  then have "set (sf_entries (feed_or_default t k)) \<subseteq> set es" by (rule set_mono_suffix)
  then have "map (\<lambda>e. weight (fe_item e)) (sf_entries (feed_or_default t k))
      = replicate (length (sf_entries (feed_or_default t k))) (weight item)"
    using es(2) by (intro replicate_eqI) auto
  then have "held_bytes (sf_entries (feed_or_default t k)) = length (sf_entries (feed_or_default t k)) * weight item"
    by (simp add: held_bytes_def sum_list_replicate)
  also have "\<dots> \<le> ENTRIES_PER_SESSION * weight item" using es(5) by simp
  finally show False using es(4) assms(4) by simp
qed

section \<open>Sample runs\<close>

definition sample_drop :: "string \<Rightarrow> hook_feed \<Rightarrow> feed_drop" where
  "sample_drop event h = \<lparr>fd_session = 1, fd_provider = Claude, fd_event = event, fd_feed = Some h,
     fd_internal_prompt = False, fd_fully_idle = None, fd_subagent = False, fd_last_message = None\<rparr>"

definition sample_item :: feed_item where
  "sample_item = Item_Permission (ctext_of ''Bash'') (ctext_of ''ls'') True False None None"

definition sample_permission :: feed_op where
  "sample_permission = Hook_Drop (sample_drop ''PermissionRequest''
     (Hook_Permission (ctext_of ''Bash'') (ctext_of ''ls'') True False None)) None 5"

definition sample_store :: store where
  "sample_store = \<lparr>st_sessions = [(1, \<lparr>sf_next_seq = 1, sf_entries = [\<lparr>fe_seq = 1, fe_at = 5, fe_item = sample_item\<rparr>],
       sf_bytes = 70,
       sf_pending = Some (permission_pending (ctext_of ''Bash'') (ctext_of ''ls'') True False None Claude 5 1),
       sf_last_reply_excerpt = None, sf_last_step = None, sf_turn = turn_default\<rparr>)],
     st_bytes = 70, st_collecting = True, st_epoch = ''e2'', st_activity = [], st_activity_seq = 0\<rparr>"

lemmas sample_eval = sample_drop_def remote_feed_hook_def apply_feed_def push_card_def push_item_def feed_push_def
  set_collecting_def store_default_def feed_or_default_def session_feed_default_def append_item_def
  evict_session.simps evict_total.simps session_over_def ENTRIES_PER_SESSION_def BYTES_PER_SESSION_def BYTES_TOTAL_def
  checked_sub_def set_pending_def put_feed_def SEEN_PRUNE_AT_def Let_def

lemma sample_weight: "weight (Item_Permission (ctext_of ''Bash'') (ctext_of ''ls'') True False None None) = 70"
  by (simp add: ctext_of_def text_len_def char_bytes_def)

lemma sample_events:
  "from_provider Claude e \<noteq> Some TurnEnded \<and> from_provider Claude e \<noteq> Some TurnFailed
     \<and> from_provider Claude e \<noteq> Some TurnInterrupted" if "e \<in> {''PermissionRequest'', ''PreToolUse'', ''PostToolUse''}"
  using that by (auto simp: from_provider_def event_tables)

lemma sample_run:
  "feed_run id [(\<lambda>_. True, Switch True ''e2''), (\<lambda>_. True, sample_permission)] (store_default ''e1'') = Some sample_store"
  by (simp add: sample_permission_def sample_eval sample_weight sample_events sample_item_def sample_store_def
      permission_pending_def del: weight.simps)

lemma sample_decision:
  "begin_decision 1 ''e2'' 1 Approve True sample_store
     = (Inr \<lparr>kp_writes = [[0x31]], kp_settle_ms = 120\<rparr>,
        put_feed 1 ((feed_or_default sample_store 1)\<lparr>sf_pending := Some ((permission_pending (ctext_of ''Bash'')
          (ctext_of ''ls'') True False None Claude 5 1)\<lparr>pd_answered := Some Sent\<rparr>)\<rparr>) sample_store)"
  by (simp add: begin_decision_def sample_store_def permission_pending_def decision_support_def decision_keys_def
      permission_keys_def feed_or_default_def SETTLE_MS_def)

lemma feed_stays_within_its_bounds_witness:
  "\<exists>t. feed_run id [(\<lambda>_. True, Switch True ''e2''), (\<lambda>_. True, sample_permission), (\<lambda>_. True, Exited 1 9)]
      (store_default ''e1'') = Some t \<and> length (st_activity t) \<le> ACTIVITY_MAX_ENTRIES"
  using feed_stays_within_its_bounds [of "[(\<lambda>_. True, Switch True ''e2''), (\<lambda>_. True, sample_permission),
    (\<lambda>_. True, Exited 1 9)]" id "''e1''"]
  by (auto simp: records_answers_def sample_permission_def sample_drop_def)

lemma pages_have_no_silent_gap_witness:
  "map fe_seq (fp_entries (page 1 0 sample_store)) = [1] \<and> \<not> fp_truncated (page 1 0 sample_store)"
proof -
  have "fp_last_seq (page 1 0 sample_store) = 1" "fp_first_seq (page 1 0 sample_store) = 1"
    by (simp_all add: page_def sample_store_def)
  with pages_have_no_silent_gap [OF sample_run, of 0 1] show ?thesis by simp
qed

lemma approvals_are_of_what_was_shown_witness:
  "\<exists>v. fp_pending (remote_feed 1 0 True sample_store) = Some v \<and> pv_seq v = 1 \<and> pv_kind v = ''permission'' \<and> \<not> pv_sent v
     \<and> fp_pending (remote_feed 1 0 True (snd (begin_decision 1 ''e2'' 1 Approve True sample_store)))
         = Some (v\<lparr>pv_sent := True\<rparr>)"
  using approvals_are_of_what_was_shown [OF sample_decision, of 0] unfolding sample_decision by auto

lemma a_card_is_answered_once_witness:
  "\<exists>t refusal. feed_run id [(\<lambda>_. True, Keystroke 1 (ctext_of ''desk'') None 9), (\<lambda>_. True, Undo 1 2)]
      (snd (begin_decision 1 ''e2'' 1 Approve True sample_store)) = Some t
     \<and> begin_decision 1 ''e2'' 1 Deny True t = (Inl refusal, t)"
proof -
  let ?ops = "[(\<lambda>_. True, Keystroke 1 (ctext_of ''desk'') None 9), (\<lambda>_. True, Undo 1 2)]"
  let ?u = "snd (begin_decision 1 ''e2'' 1 Approve True sample_store)"
  obtain t where t: "feed_run id ?ops ?u = Some t" by simp
  have "list_all (keeps_answer 1 ''e2'' 1) ?ops" by (simp add: keeps_answer_def)
  with a_card_is_answered_once [OF sample_run sample_decision, of ?ops t Deny True] t
  have "\<exists>refusal. begin_decision 1 ''e2'' 1 Deny True t = (Inl refusal, t)"
    by (simp only: sample_decision snd_conv)
  with t show ?thesis by blast
qed

text \<open>Three questions, each answered with four texts of 1200 bytes.\<close>

definition long_answer :: ctext where
  "long_answer = replicate 300 0x1F600"

definition sample_questions :: "question list" where
  "sample_questions = replicate 4 \<lparr>qu_header = [], qu_question = ctext_of ''Which?'', qu_options = [],
     qu_multi_select = False, qu_previews = False, qu_free_text = True\<rparr>"

definition sample_answers :: "ctext list" where
  "sample_answers = replicate 4 long_answer"

definition sample_answered :: "feed_op list" where
  "sample_answered = [Hook_Drop (sample_drop ''PreToolUse'' (Hook_Question None sample_questions)) None 5,
     Hook_Drop (sample_drop ''PostToolUse'' (Hook_Answered None sample_answers)) None 6]"

lemma long_answer_len: "text_len long_answer = 1200"
  unfolding long_answer_def text_len_def by (simp add: char_bytes_def sum_list_replicate)

lemma sample_question_weight: "weight (Item_Question None sample_questions a)
    = 88 + (case a of Some t \<Rightarrow> len_sum t | None \<Rightarrow> 0)"
  by (simp add: sample_questions_def question_weight_def ctext_of_def text_len_def char_bytes_def numeral_eq_Suc)

lemma sample_answers_len: "len_sum sample_answers = 4800" "sample_answers \<noteq> []"
  by (simp_all add: sample_answers_def len_sum_def long_answer_len sum_list_replicate)

lemmas sample_round_eval = sample_answered_def sample_eval sample_question_weight sample_events
  question_pending_def sample_answers_len answer_question_def answer_target_def card_target_def id_matches_def or_else.simps

lemma sample_leak:
  "\<exists>s. feed_run id (map (Pair (\<lambda>_. True)) (Switch True ''e2'' # sample_answered @ sample_answered @ sample_answered))
      (store_default ''e1'') = Some s \<and> st_collecting s
      \<and> held_bytes (sf_entries (feed_or_default s 1)) = sf_bytes (feed_or_default s 1) + 14400"
  by (simp add: sample_round_eval del: weight.simps(3))

lemma feed_run_append: "feed_run redact (xs @ ys) s = Option.bind (feed_run redact xs s) (feed_run redact ys)"
proof (induction xs arbitrary: s)
  case (Cons x xs)
  then show ?case by (cases x; cases "feed_step redact (fst x) (snd x) s") simp_all
qed simp

definition sample_read :: feed_drop where
  "sample_read = sample_drop ''PostToolUse'' (Hook_Step (ctext_of ''Read'') [] False [])"

lemma recorded_answers_run_the_count_below_zero_witness:
  "feed_run id (map (Pair (\<lambda>_. True)) (Switch True ''e2'' # sample_answered @ sample_answered @ sample_answered)
      @ replicate ENTRIES_PER_SESSION (\<lambda>_. True, Hook_Drop sample_read None 9)) (store_default ''e1'') = None"
proof -
  let ?item = "Item_Step (ctext_of ''Read'') [] False"
  obtain s where s: "feed_run id (map (Pair (\<lambda>_. True)) (Switch True ''e2'' # sample_answered @ sample_answered @ sample_answered))
      (store_default ''e1'') = Some s" "st_collecting s"
    "held_bytes (sf_entries (feed_or_default s 1)) = sf_bytes (feed_or_default s 1) + 14400"
    using sample_leak by blast
  have w: "ENTRIES_PER_SESSION * weight ?item = 13600"
    by (simp add: ENTRIES_PER_SESSION_def ctext_of_def text_len_def char_bytes_def)
  have p: "plain_step sample_read 1 ?item"
    using sample_events [of "''PostToolUse''"] by (simp add: plain_step_def sample_read_def sample_drop_def)
  have "feed_run id (replicate ENTRIES_PER_SESSION (\<lambda>_. True, Hook_Drop sample_read None 9)) s = None"
    by (rule recorded_answers_run_the_count_below_zero [OF s(2) _ p]) (simp_all only: w s(3))
  with s(1) show ?thesis by (simp only: feed_run_append bind.simps)
qed

end
