(* ===== verification/Phone_Access.thy ===== *)
theory Phone_Access
  imports Phone_Text "HOL-Library.AList"
begin

text \<open>
  Who may use remote access (\<^verbatim>\<open>core/houston-core/src/remote/mod.rs\<close>, \<^verbatim>\<open>remote/http.rs\<close>, \<^verbatim>\<open>daemon/remote.rs\<close>,
  \<^verbatim>\<open>db/remote.rs\<close>): one-time pairing codes, the table of paired devices with their tiers, and the limiter of
  failed attempts. An \<open>Instant\<close> counts nanoseconds, the wall clock milliseconds; \<open>digest\<close> is SHA-256; the random
  bytes a code or token is minted from are arguments. The map of limiters is a list of pairs. A handler is
  one step that reads each clock once; \<open>db_ok\<close> says whether the database answers. A header is the text
  \<open>to_str\<close> gives, or none.
\<close>

definition SECOND :: nat where "SECOND = 1000000000"
definition PAIRING_TTL_MS :: nat where "PAIRING_TTL_MS = 10 * 60 * 1000"
definition AUTH_FAILURE_LIMIT :: nat where "AUTH_FAILURE_LIMIT = 10"
definition AUTH_FAILURE_WINDOW :: nat where "AUTH_FAILURE_WINDOW = 60 * SECOND"
definition AUTH_LOCKOUT :: nat where "AUTH_LOCKOUT = 60 * SECOND"
definition LIMITER_SOURCES_MAX :: nat where "LIMITER_SOURCES_MAX = 1024"
definition REVOKED_HASHES_MAX :: nat where "REVOKED_HASHES_MAX = 256"
definition DEVICE_NAME_MAX :: nat where "DEVICE_NAME_MAX = 64"
definition LAST_SEEN_WRITE_INTERVAL_MS :: nat where "LAST_SEEN_WRITE_INTERVAL_MS = 60000"

section \<open>Secrets\<close>

definition hex_digit :: "nat \<Rightarrow> nat" where
  "hex_digit n = (if n < 10 then 48 + n else 87 + n)"

definition hex :: "byte list \<Rightarrow> ctext" where
  "hex bytes = concat (map (\<lambda>b. [hex_digit (unat b div 16), hex_digit (unat b mod 16)]) bytes)"

definition hash_secret :: "(byte list \<Rightarrow> byte list) \<Rightarrow> ctext \<Rightarrow> ctext" where
  "hash_secret digest raw = hex (digest (into_bytes (trim_text raw)))"

unbundle bit_operations_syntax

definition constant_time_eq :: "byte list \<Rightarrow> byte list \<Rightarrow> bool" where
  "constant_time_eq a b \<longleftrightarrow>
     length a = length b \<and> fold (\<lambda>(x, y) acc. acc OR (x XOR y)) (zip a b) 0 = 0"

section \<open>Failed attempts\<close>

datatype ip_addr = V4 "32 word" | V6 "128 word"

definition v4_is_loopback :: "32 word \<Rightarrow> bool" where
  "v4_is_loopback a \<longleftrightarrow> drop_bit 24 a = 127"

definition to_ipv4_mapped :: "128 word \<Rightarrow> 32 word option" where
  "to_ipv4_mapped a = (if drop_bit 32 a = 0xFFFF then Some (ucast a) else None)"

fun limiter_key :: "ip_addr \<Rightarrow> ip_addr option" where
  "limiter_key (V4 a) = (if v4_is_loopback a then None else Some (V4 a))"
| "limiter_key (V6 a) =
     (if a = 1 \<or> (case to_ipv4_mapped a of Some v4 \<Rightarrow> v4_is_loopback v4 | None \<Rightarrow> False) then None
      else Some (V6 a))"

record failure_limiter =
  fl_failures :: "nat list"
  fl_locked_until :: "nat option"

definition limiter_default :: failure_limiter where
  "limiter_default = \<lparr>fl_failures = [], fl_locked_until = None\<rparr>"

definition limiter_check :: "nat \<Rightarrow> failure_limiter \<Rightarrow> (nat + unit) \<times> failure_limiter" where
  "limiter_check now l =
     (case fl_locked_until l of
        Some until \<Rightarrow>
          if now < until then (Inl (max ((until - now) div SECOND) 1), l)
          else (Inr (), l\<lparr>fl_locked_until := None\<rparr>)
      | None \<Rightarrow> (Inr (), l))"

definition limiter_is_active :: "nat \<Rightarrow> failure_limiter \<Rightarrow> bool" where
  "limiter_is_active now l \<longleftrightarrow>
     (case fl_locked_until l of Some u \<Rightarrow> now < u | None \<Rightarrow> False)
     \<or> fl_failures l \<noteq> [] \<and> now - last (fl_failures l) < AUTH_FAILURE_WINDOW"

definition record_failure :: "nat \<Rightarrow> failure_limiter \<Rightarrow> failure_limiter" where
  "record_failure now l =
     (let fs = dropWhile (\<lambda>t. AUTH_FAILURE_WINDOW \<le> now - t) (fl_failures l) @ [now] in
      if AUTH_FAILURE_LIMIT \<le> length fs then \<lparr>fl_failures = [], fl_locked_until = Some (now + AUTH_LOCKOUT)\<rparr>
      else l\<lparr>fl_failures := fs\<rparr>)"

type_synonym limiter_map = "(ip_addr option \<times> failure_limiter) list"

definition auth_check :: "ip_addr \<Rightarrow> nat \<Rightarrow> limiter_map \<Rightarrow> (nat + unit) \<times> limiter_map" where
  "auth_check source now m =
     (case map_of m (limiter_key source) of
        Some l \<Rightarrow> (let (r, l') = limiter_check now l in (r, AList.update (limiter_key source) l' m))
      | None \<Rightarrow> (Inr (), m))"

definition auth_failed :: "ip_addr \<Rightarrow> nat \<Rightarrow> limiter_map \<Rightarrow> limiter_map" where
  "auth_failed source now m =
     (let k = limiter_key source;
          add = (\<lambda>m. AList.update k
             (record_failure now (case map_of m k of Some l \<Rightarrow> l | None \<Rightarrow> limiter_default)) m) in
      if LIMITER_SOURCES_MAX \<le> length m \<and> map_of m k = None
      then let kept = filter (\<lambda>x. limiter_is_active now (snd x)) m in
        if LIMITER_SOURCES_MAX \<le> length kept then kept else add kept
      else add m)"

section \<open>Devices\<close>

datatype remote_tier = Observe | Drive | Manage

fun tier_rank :: "remote_tier \<Rightarrow> nat" where
  "tier_rank Observe = 0" | "tier_rank Drive = 1" | "tier_rank Manage = 2"

lemma tier_rank_inj: "tier_rank a = tier_rank b \<Longrightarrow> a = b"
  by (cases a; cases b) auto

instantiation remote_tier :: linorder
begin

definition less_eq_remote_tier :: "remote_tier \<Rightarrow> remote_tier \<Rightarrow> bool" where
  "less_eq_remote_tier a b \<longleftrightarrow> tier_rank a \<le> tier_rank b"

definition less_remote_tier :: "remote_tier \<Rightarrow> remote_tier \<Rightarrow> bool" where
  "less_remote_tier a b \<longleftrightarrow> tier_rank a < tier_rank b"

instance
  by standard (auto simp: less_eq_remote_tier_def less_remote_tier_def tier_rank_inj)

end

record device =
  dv_id :: nat
  dv_name :: ctext
  dv_token_hash :: ctext
  dv_tier :: remote_tier
  dv_created_at :: nat
  dv_last_seen_at :: "nat option"

datatype route = Read_Route string | Drive_Route string | Manage_Route string

fun route_needs :: "route \<Rightarrow> remote_tier" where
  "route_needs (Read_Route _) = Observe"
| "route_needs (Drive_Route _) = Drive"
| "route_needs (Manage_Route _) = Manage"

record pairing =
  pr_code_hash :: ctext
  pr_expires_ms :: nat

record access =
  ac_pairing :: "pairing option"
  ac_limiter :: limiter_map
  ac_devices :: "device list"
  ac_next_id :: nat
  ac_last_seen_written :: "(nat \<times> nat) list"
  ac_revoked_hashes :: "ctext list"

definition access_new :: access where
  "access_new = \<lparr>ac_pairing = None, ac_limiter = [], ac_devices = [], ac_next_id = 1,
     ac_last_seen_written = [], ac_revoked_hashes = []\<rparr>"

datatype pair_error = None_Active | Code_Invalid | Code_Expired

datatype name_error = Name_Length nat | Name_Control

datatype access_refusal =
    Misnamed name_error
  | Not_Paired pair_error
  | Recording_Failed
  | Too_Many nat
  | Missing_Token
  | Invalid_Token bool
  | Devices_Unreadable
  | Tier_Refused remote_tier route

definition validate_device_name :: "ctext \<Rightarrow> name_error + ctext" where
  "validate_device_name raw =
     (let name = trim_text raw in
      if name = [] \<or> DEVICE_NAME_MAX < length name then Inl (Name_Length (length name))
      else if list_ex is_control name then Inl Name_Control
      else Inr name)"

definition start_pairing :: "(byte list \<Rightarrow> byte list) \<Rightarrow> byte list \<Rightarrow> nat \<Rightarrow> access \<Rightarrow> ctext \<times> access" where
  "start_pairing digest random now_ms s =
     (let code = hex random in
      (code, s\<lparr>ac_pairing := Some \<lparr>pr_code_hash = hash_secret digest code,
         pr_expires_ms = now_ms + PAIRING_TTL_MS\<rparr>\<rparr>))"

definition redeem_pairing ::
  "(byte list \<Rightarrow> byte list) \<Rightarrow> ctext \<Rightarrow> nat \<Rightarrow> access \<Rightarrow> (pair_error + unit) \<times> access" where
  "redeem_pairing digest code now_ms s =
     (case ac_pairing s of
        None \<Rightarrow> (Inl None_Active, s)
      | Some active \<Rightarrow>
          if \<not> constant_time_eq (into_bytes (pr_code_hash active)) (into_bytes (hash_secret digest code))
          then (Inl Code_Invalid, s)
          else if pr_expires_ms active \<le> now_ms then (Inl Code_Expired, s\<lparr>ac_pairing := None\<rparr>)
          else (Inr (), s\<lparr>ac_pairing := None\<rparr>))"

text \<open>Inserting a row: the hash is unique, the id is one no row had before.\<close>

definition remote_device_insert :: "ctext \<Rightarrow> ctext \<Rightarrow> nat \<Rightarrow> access \<Rightarrow> nat option \<times> access" where
  "remote_device_insert name token_hash now_ms s =
     (if token_hash \<in> dv_token_hash ` set (ac_devices s) then (None, s)
      else (Some (ac_next_id s),
        s\<lparr>ac_next_id := ac_next_id s + 1,
          ac_devices := ac_devices s @ [\<lparr>dv_id = ac_next_id s, dv_name = name, dv_token_hash = token_hash,
            dv_tier = Drive, dv_created_at = now_ms, dv_last_seen_at = Some now_ms\<rparr>]\<rparr>))"

definition remote_pair ::
  "(byte list \<Rightarrow> byte list) \<Rightarrow> ctext \<Rightarrow> ctext \<Rightarrow> byte list \<Rightarrow> bool \<Rightarrow> nat \<Rightarrow> access
     \<Rightarrow> (access_refusal + ctext \<times> nat) \<times> access" where
  "remote_pair digest code device_name random db_ok now_ms s =
     (case validate_device_name device_name of
        Inl e \<Rightarrow> (Inl (Misnamed e), s)
      | Inr name \<Rightarrow>
          (case redeem_pairing digest code now_ms s of
             (Inl e, t) \<Rightarrow> (Inl (Not_Paired e), t)
           | (Inr _, t) \<Rightarrow>
               let token = hex random;
                   (i, u) = (if db_ok then remote_device_insert name (hash_secret digest token) now_ms t
                             else (None, t)) in
               (case i of None \<Rightarrow> (Inl Recording_Failed, u) | Some i \<Rightarrow> (Inr (token, i), u))))"

definition remote_device_by_hash :: "ctext \<Rightarrow> access \<Rightarrow> device option" where
  "remote_device_by_hash token_hash s = List.find (\<lambda>d. dv_token_hash d = token_hash) (ac_devices s)"

definition remote_device_touch :: "nat \<Rightarrow> nat \<Rightarrow> access \<Rightarrow> access" where
  "remote_device_touch i now_ms s =
     s\<lparr>ac_devices := map (\<lambda>d. if dv_id d = i then d\<lparr>dv_last_seen_at := Some now_ms\<rparr> else d) (ac_devices s)\<rparr>"

definition remote_authenticate ::
  "(byte list \<Rightarrow> byte list) \<Rightarrow> ctext \<Rightarrow> bool \<Rightarrow> nat \<Rightarrow> access \<Rightarrow> (unit + device option) \<times> access" where
  "remote_authenticate digest raw_token db_ok now_ms s =
     (if \<not> db_ok then (Inl (), s)
      else case remote_device_by_hash (hash_secret digest raw_token) s of
          None \<Rightarrow> (Inr None, s)
        | Some d \<Rightarrow>
            let seen = (case map_of (ac_last_seen_written s) (dv_id d) of
                          Some t \<Rightarrow> t
                        | None \<Rightarrow> (case dv_last_seen_at d of Some t \<Rightarrow> t | None \<Rightarrow> 0)) in
            if LAST_SEEN_WRITE_INTERVAL_MS \<le> now_ms - seen
            then (Inr (Some d), remote_device_touch (dv_id d) now_ms
               (s\<lparr>ac_last_seen_written := AList.update (dv_id d) now_ms (ac_last_seen_written s)\<rparr>))
            else (Inr (Some d), s))"

definition was_revoked :: "(byte list \<Rightarrow> byte list) \<Rightarrow> ctext \<Rightarrow> access \<Rightarrow> bool" where
  "was_revoked digest token s \<longleftrightarrow> hash_secret digest token \<in> set (ac_revoked_hashes s)"

definition remember_revoked :: "ctext \<Rightarrow> access \<Rightarrow> access" where
  "remember_revoked h s =
     (let all = ac_revoked_hashes s @ [h] in s\<lparr>ac_revoked_hashes := drop (length all - REVOKED_HASHES_MAX) all\<rparr>)"

text \<open>Both report failure and change nothing when the database fails or has no such device.\<close>

definition remote_device_revoke :: "nat \<Rightarrow> bool \<Rightarrow> access \<Rightarrow> bool \<times> access" where
  "remote_device_revoke i db_ok s =
     (case (if db_ok then List.find (\<lambda>d. dv_id d = i) (ac_devices s) else None) of
        None \<Rightarrow> (False, s)
      | Some d \<Rightarrow>
          (True, remember_revoked (dv_token_hash d)
             (s\<lparr>ac_devices := filter (\<lambda>d. dv_id d \<noteq> i) (ac_devices s),
               ac_last_seen_written := AList.delete i (ac_last_seen_written s)\<rparr>)))"

definition remote_device_set_tier :: "nat \<Rightarrow> remote_tier \<Rightarrow> bool \<Rightarrow> access \<Rightarrow> bool \<times> access" where
  "remote_device_set_tier i tier db_ok s =
     (if db_ok \<and> i \<in> dv_id ` set (ac_devices s)
      then (True, s\<lparr>ac_devices := map (\<lambda>d. if dv_id d = i then d\<lparr>dv_tier := tier\<rparr> else d) (ac_devices s)\<rparr>)
      else (False, s))"

section \<open>Requests\<close>

text \<open>\<open>bearer\<close>: the token behind \<open>Bearer\<close> in the Authorization header.\<close>

definition bearer :: "ctext option \<Rightarrow> ctext option" where
  "bearer header =
     (case header of
        None \<Rightarrow> None
      | Some h \<Rightarrow>
          let p = map of_char ''Bearer '' in
          if prefix p h then filter_option (\<lambda>t. t \<noteq> []) (Some (trim_text (drop (length p) h))) else None)"

definition authenticate ::
  "(byte list \<Rightarrow> byte list) \<Rightarrow> ctext option \<Rightarrow> ip_addr \<Rightarrow> nat \<Rightarrow> bool \<Rightarrow> nat \<Rightarrow> access
     \<Rightarrow> (access_refusal + device) \<times> access" where
  "authenticate digest header source now db_ok now_ms s =
     (case bearer header of
        None \<Rightarrow> (Inl Missing_Token, s)
      | Some token \<Rightarrow>
          (case remote_authenticate digest token db_ok now_ms s of
             (Inl _, t) \<Rightarrow> (Inl Devices_Unreadable, t)
           | (Inr (Some d), t) \<Rightarrow> (Inr d, t)
           | (Inr None, t) \<Rightarrow>
               (case auth_check source now (ac_limiter t) of
                  (Inl secs, m) \<Rightarrow> (Inl (Too_Many secs), t\<lparr>ac_limiter := m\<rparr>)
                | (Inr _, m) \<Rightarrow>
                    (Inl (Invalid_Token (was_revoked digest token t)),
                     t\<lparr>ac_limiter := auth_failed source now m\<rparr>))))"

definition authorize ::
  "(byte list \<Rightarrow> byte list) \<Rightarrow> ctext option \<Rightarrow> ip_addr \<Rightarrow> nat \<Rightarrow> bool \<Rightarrow> nat \<Rightarrow> route \<Rightarrow> access
     \<Rightarrow> (access_refusal + device) \<times> access" where
  "authorize digest header source now db_ok now_ms route s =
     (case authenticate digest header source now db_ok now_ms s of
        (Inl r, t) \<Rightarrow> (Inl r, t)
      | (Inr d, t) \<Rightarrow>
          if dv_tier d < route_needs route then (Inl (Tier_Refused (dv_tier d) route), t) else (Inr d, t))"

definition pair_request ::
  "(byte list \<Rightarrow> byte list) \<Rightarrow> ip_addr \<Rightarrow> nat \<Rightarrow> ctext \<Rightarrow> ctext \<Rightarrow> byte list \<Rightarrow> bool \<Rightarrow> nat \<Rightarrow> access
     \<Rightarrow> (access_refusal + ctext \<times> nat) \<times> access" where
  "pair_request digest source now code device_name random db_ok now_ms s =
     (case auth_check source now (ac_limiter s) of
        (Inl secs, m) \<Rightarrow> (Inl (Too_Many secs), s\<lparr>ac_limiter := m\<rparr>)
      | (Inr _, m) \<Rightarrow>
          (case remote_pair digest code device_name random db_ok now_ms (s\<lparr>ac_limiter := m\<rparr>) of
             (Inr p, t) \<Rightarrow> (Inr p, t)
           | (Inl (Not_Paired e), t) \<Rightarrow>
               (Inl (Not_Paired e), t\<lparr>ac_limiter := auth_failed source now (ac_limiter t)\<rparr>)
           | (Inl r, t) \<Rightarrow> (Inl r, t)))"

section \<open>Runs\<close>

datatype access_op =
    Start_Pairing "byte list" nat
  | Pair ip_addr nat ctext ctext "byte list" bool nat
  | Api "ctext option" ip_addr nat bool nat route
  | Revoke nat bool
  | Set_Tier nat remote_tier bool

datatype access_answer =
    Code ctext
  | Paired ctext nat
  | Let_In device
  | Refused access_refusal
  | Done bool

fun access_step :: "(byte list \<Rightarrow> byte list) \<Rightarrow> access_op \<Rightarrow> access \<Rightarrow> access_answer \<times> access" where
  "access_step digest (Start_Pairing random now_ms) s = map_prod Code id (start_pairing digest random now_ms s)"
| "access_step digest (Pair source now code name random db_ok now_ms) s =
     map_prod (case_sum Refused (\<lambda>(token, i). Paired token i)) id
       (pair_request digest source now code name random db_ok now_ms s)"
| "access_step digest (Api header source now db_ok now_ms route) s =
     map_prod (case_sum Refused Let_In) id (authorize digest header source now db_ok now_ms route s)"
| "access_step digest (Revoke i db_ok) s = map_prod Done id (remote_device_revoke i db_ok s)"
| "access_step digest (Set_Tier i tier db_ok) s = map_prod Done id (remote_device_set_tier i tier db_ok s)"

type_synonym access_trace = "(access_op \<times> access_answer) list"

inductive access_run :: "(byte list \<Rightarrow> byte list) \<Rightarrow> access_trace \<Rightarrow> access \<Rightarrow> bool" for digest where
  Boot: "access_run digest [] access_new"
| Step: "access_run digest tr s \<Longrightarrow> access_step digest op' s = (answer, t) \<Longrightarrow> access_run digest (tr @ [(op', answer)]) t"

end
