(* ===== verification/Phone_Gate.thy ===== *)
theory Phone_Gate
  imports Phone_Access
begin

text \<open>
  What guards remote access, over every run: a device that is let in was paired by a code shown on the
  computer at most ten minutes before, one device per code, and has not been revoked since; its tier is the
  one last set. A request is one step here; how the two lock sections of the limiter interleave is in
  \<open>Phone_Limiter\<close>.
\<close>

section \<open>Secrets\<close>

lemma fold_or_zero:
  fixes acc :: byte
  shows "fold (\<lambda>(x, y) acc. acc OR (x XOR y)) zs acc = 0 \<longleftrightarrow> acc = 0 \<and> (\<forall>(x, y) \<in> set zs. x = y)"
proof (induction zs arbitrary: acc)
  case (Cons z zs)
  obtain x y where z: "z = (x, y)" by fastforce
  have "acc OR (x XOR y) = 0 \<longleftrightarrow> acc = 0 \<and> x = y"
    by (auto simp: or_eq_0_iff xor_self_eq) (metis xor.left_neutral xor.assoc xor_self_eq xor.right_neutral)
  with Cons z show ?case by auto
qed simp

lemma constant_time_eq_iff [simp]: "constant_time_eq a b \<longleftrightarrow> a = b"
proof -
  have "(\<forall>(x, y) \<in> set (zip a b). x = y) \<longleftrightarrow> a = b" if "length a = length b"
    using that by (induction rule: list_induct2) auto
  then show ?thesis by (auto simp: constant_time_eq_def fold_or_zero)
qed

lemma hash_scalar: "\<forall>c \<in> set (hash_secret digest raw). scalar c"
proof -
  have "hex_digit n < 0x110000" if "n < 16" for n using that by (simp add: hex_digit_def)
  moreover have "unat b div 16 < 16" "unat b mod 16 < 16" for b :: byte
  proof -
    have "unat b < 2 ^ LENGTH(8)" by (rule unsigned_less)
    then show "unat b div 16 < 16" "unat b mod 16 < 16" by (simp_all add: less_mult_imp_div_less)
  qed
  ultimately show ?thesis by (auto simp: hash_secret_def hex_def scalar_def)
qed

lemma same_hash_bytes:
  "into_bytes (hash_secret digest a) = into_bytes (hash_secret digest b) \<longleftrightarrow> hash_secret digest a = hash_secret digest b"
  using into_bytes_inj [OF hash_scalar hash_scalar] by auto

section \<open>Traces\<close>

lemma access_run_snocD:
  "access_run digest (tr @ [(op', answer)]) t \<Longrightarrow> \<exists>s. access_run digest tr s \<and> access_step digest op' s = (answer, t)"
  by (erule access_run.cases) auto

lemma access_run_prefix:
  "access_run digest (pre @ post) t \<Longrightarrow> \<exists>s. access_run digest pre s"
proof (induction post arbitrary: t rule: rev_induct)
  case (snoc x post)
  then show ?case using access_run_snocD [of digest "pre @ post" "fst x" "snd x" t] by force
qed auto

lemma access_run_split:
  assumes "access_run digest (pre @ (op', answer) # post) t"
  shows "\<exists>s u. access_run digest pre s \<and> access_step digest op' s = (answer, u)"
  using access_run_prefix [of digest "pre @ [(op', answer)]" post t] assms access_run_snocD by fastforce

section \<open>Pairing\<close>

text \<open>The code that is open was shown by the last start, and nobody has paired since.\<close>

definition pairing_traced :: "(byte list \<Rightarrow> byte list) \<Rightarrow> access_trace \<Rightarrow> pairing \<Rightarrow> bool" where
  "pairing_traced digest tr p \<longleftrightarrow> (\<exists>pre random t0 mid. tr = pre @ (Start_Pairing random t0, Code (hex random)) # mid
     \<and> p = \<lparr>pr_code_hash = hash_secret digest (hex random), pr_expires_ms = t0 + PAIRING_TTL_MS\<rparr>
     \<and> (\<forall>x \<in> set mid. (\<forall>r t. fst x \<noteq> Start_Pairing r t) \<and> (\<forall>token i. snd x \<noteq> Paired token i)))"

lemma pairing_traced_snoc:
  assumes "pairing_traced digest tr p" and "\<And>r t. op' \<noteq> Start_Pairing r t" and "\<And>token i. answer \<noteq> Paired token i"
  shows "pairing_traced digest (tr @ [(op', answer)]) p"
proof -
  from assms(1) obtain pre random t0 mid where "tr = pre @ (Start_Pairing random t0, Code (hex random)) # mid"
    "p = \<lparr>pr_code_hash = hash_secret digest (hex random), pr_expires_ms = t0 + PAIRING_TTL_MS\<rparr>"
    "\<forall>x \<in> set mid. (\<forall>r t. fst x \<noteq> Start_Pairing r t) \<and> (\<forall>token i. snd x \<noteq> Paired token i)"
    by (auto simp: pairing_traced_def)
  with assms(2,3) show ?thesis unfolding pairing_traced_def
    by (intro exI [of _ pre] exI [of _ random] exI [of _ t0] exI [of _ "mid @ [(op', answer)]"]) auto
qed

text \<open>What a request to pair does to the code: a paired answer takes it, and only before it expires.\<close>

lemma redeem_pairingD:
  assumes "redeem_pairing digest code now_ms s = (r, t)"
  shows "ac_devices t = ac_devices s \<and> ac_next_id t = ac_next_id s \<and> ac_limiter t = ac_limiter s
     \<and> (ac_pairing t = None \<or> t = s)"
    and "r = Inr u \<Longrightarrow> ac_pairing t = None \<and> (\<exists>p. ac_pairing s = Some p
       \<and> into_bytes (pr_code_hash p) = into_bytes (hash_secret digest code) \<and> now_ms < pr_expires_ms p)"
  using assms by (auto simp: redeem_pairing_def split: option.splits if_splits)

lemma remote_device_insertD:
  assumes "remote_device_insert name h now_ms s = (r, t)"
  shows "ac_pairing t = ac_pairing s" and "ac_limiter t = ac_limiter s"
    and "r = None \<Longrightarrow> t = s"
    and "r = Some i \<Longrightarrow> i = ac_next_id s \<and> ac_next_id t = ac_next_id s + 1 \<and> ac_devices t = ac_devices s @
      [\<lparr>dv_id = i, dv_name = name, dv_token_hash = h, dv_tier = Drive, dv_created_at = now_ms,
        dv_last_seen_at = Some now_ms\<rparr>]"
  using assms by (auto simp: remote_device_insert_def split: if_splits)

lemma remote_pairD:
  assumes "remote_pair digest code name random db_ok now_ms s = (r, t)"
  shows "ac_limiter t = ac_limiter s" and "ac_pairing t = None \<or> ac_pairing t = ac_pairing s"
    and "r = Inl e \<Longrightarrow> ac_devices t = ac_devices s \<and> ac_next_id t = ac_next_id s"
    and "r = Inr (token, i) \<Longrightarrow> token = hex random \<and> i = ac_next_id s \<and> ac_next_id t = ac_next_id s + 1
      \<and> ac_pairing t = None \<and> (\<exists>d. dv_id d = i \<and> dv_token_hash d = hash_secret digest token \<and> dv_tier d = Drive
          \<and> ac_devices t = ac_devices s @ [d])
      \<and> (\<exists>p. ac_pairing s = Some p \<and> into_bytes (pr_code_hash p) = into_bytes (hash_secret digest code)
          \<and> now_ms < pr_expires_ms p)"
proof -
  have all: "ac_limiter t = ac_limiter s \<and> (ac_pairing t = None \<or> ac_pairing t = ac_pairing s)
    \<and> (case r of Inl _ \<Rightarrow> ac_devices t = ac_devices s \<and> ac_next_id t = ac_next_id s
        | Inr (token, i) \<Rightarrow> token = hex random \<and> i = ac_next_id s \<and> ac_next_id t = ac_next_id s + 1
      \<and> ac_pairing t = None \<and> (\<exists>d. dv_id d = i \<and> dv_token_hash d = hash_secret digest token \<and> dv_tier d = Drive
          \<and> ac_devices t = ac_devices s @ [d])
      \<and> (\<exists>p. ac_pairing s = Some p \<and> into_bytes (pr_code_hash p) = into_bytes (hash_secret digest code)
          \<and> now_ms < pr_expires_ms p))"
  proof (cases "validate_device_name name")
    case (Inl e)
    then show ?thesis using assms by (auto simp: remote_pair_def)
  next
    case (Inr n)
    obtain q u where q: "redeem_pairing digest code now_ms s = (q, u)" by fastforce
    note u = redeem_pairingD [OF q]
    show ?thesis
    proof (cases q)
      case (Inl e)
      then show ?thesis using assms Inr q u(1) by (auto simp: remote_pair_def)
    next
      case (Inr x)
      show ?thesis
      proof (cases db_ok)
        case False
        then show ?thesis using assms \<open>validate_device_name name = Inr n\<close> q Inr u
          by (auto simp: remote_pair_def)
      next
        case True
        obtain i v where i: "remote_device_insert n (hash_secret digest (hex random)) now_ms u = (i, v)" by fastforce
        show ?thesis using assms \<open>validate_device_name name = Inr n\<close> q Inr u True i remote_device_insertD [OF i]
          by (cases i) (auto simp: remote_pair_def)
      qed
    qed
  qed
  then show "ac_limiter t = ac_limiter s" "ac_pairing t = None \<or> ac_pairing t = ac_pairing s"
    "r = Inl e \<Longrightarrow> ac_devices t = ac_devices s \<and> ac_next_id t = ac_next_id s"
    "r = Inr (token, i) \<Longrightarrow> token = hex random \<and> i = ac_next_id s \<and> ac_next_id t = ac_next_id s + 1
      \<and> ac_pairing t = None \<and> (\<exists>d. dv_id d = i \<and> dv_token_hash d = hash_secret digest token \<and> dv_tier d = Drive
          \<and> ac_devices t = ac_devices s @ [d])
      \<and> (\<exists>p. ac_pairing s = Some p \<and> into_bytes (pr_code_hash p) = into_bytes (hash_secret digest code)
          \<and> now_ms < pr_expires_ms p)" by auto
qed

lemma auth_check_only: "fst (case auth_check source now m of (r, m') \<Rightarrow> (r, m')) = fst (auth_check source now m)"
  by (simp add: case_prod_unfold)

lemma pair_requestD:
  assumes "pair_request digest source now code name random db_ok now_ms s = (r, t)"
  shows "ac_pairing t = None \<or> ac_pairing t = ac_pairing s"
    and "r = Inl e \<Longrightarrow> ac_devices t = ac_devices s \<and> ac_next_id t = ac_next_id s"
    and "r = Inr (token, i) \<Longrightarrow> token = hex random \<and> i = ac_next_id s \<and> ac_next_id t = ac_next_id s + 1
      \<and> ac_pairing t = None \<and> (\<exists>d. dv_id d = i \<and> dv_token_hash d = hash_secret digest token \<and> dv_tier d = Drive
          \<and> ac_devices t = ac_devices s @ [d])
      \<and> (\<exists>p. ac_pairing s = Some p \<and> into_bytes (pr_code_hash p) = into_bytes (hash_secret digest code)
          \<and> now_ms < pr_expires_ms p)"
proof -
  obtain c m where c: "auth_check source now (ac_limiter s) = (c, m)" by fastforce
  obtain q u where q: "remote_pair digest code name random db_ok now_ms (s\<lparr>ac_limiter := m\<rparr>) = (q, u)" by fastforce
  note u = remote_pairD [OF q]
  have all: "(ac_pairing t = None \<or> ac_pairing t = ac_pairing s)
    \<and> (case r of Inl _ \<Rightarrow> ac_devices t = ac_devices s \<and> ac_next_id t = ac_next_id s
        | Inr (token, i) \<Rightarrow> token = hex random \<and> i = ac_next_id s \<and> ac_next_id t = ac_next_id s + 1
      \<and> ac_pairing t = None \<and> (\<exists>d. dv_id d = i \<and> dv_token_hash d = hash_secret digest token \<and> dv_tier d = Drive
          \<and> ac_devices t = ac_devices s @ [d])
      \<and> (\<exists>p. ac_pairing s = Some p \<and> into_bytes (pr_code_hash p) = into_bytes (hash_secret digest code)
          \<and> now_ms < pr_expires_ms p))"
    using assms c q u by (cases c; cases q) (auto simp: pair_request_def split: access_refusal.splits)
  then show "ac_pairing t = None \<or> ac_pairing t = ac_pairing s"
    "r = Inl e \<Longrightarrow> ac_devices t = ac_devices s \<and> ac_next_id t = ac_next_id s"
    "r = Inr (token, i) \<Longrightarrow> token = hex random \<and> i = ac_next_id s \<and> ac_next_id t = ac_next_id s + 1
      \<and> ac_pairing t = None \<and> (\<exists>d. dv_id d = i \<and> dv_token_hash d = hash_secret digest token \<and> dv_tier d = Drive
          \<and> ac_devices t = ac_devices s @ [d])
      \<and> (\<exists>p. ac_pairing s = Some p \<and> into_bytes (pr_code_hash p) = into_bytes (hash_secret digest code)
          \<and> now_ms < pr_expires_ms p)" by auto
qed

text \<open>A request of a device changes nothing of the table but when it was last seen.\<close>

definition seen_again :: "device \<Rightarrow> device \<Rightarrow> bool" where
  "seen_again e d \<longleftrightarrow> dv_id e = dv_id d \<and> dv_token_hash e = dv_token_hash d \<and> dv_tier e = dv_tier d"

lemma remote_authenticateD:
  assumes "remote_authenticate digest token db_ok now_ms s = (r, t)"
  shows "ac_pairing t = ac_pairing s \<and> ac_next_id t = ac_next_id s \<and> ac_limiter t = ac_limiter s
     \<and> list_all2 seen_again (ac_devices t) (ac_devices s)"
    and "r = Inr (Some d) \<Longrightarrow> d \<in> set (ac_devices s) \<and> dv_token_hash d = hash_secret digest token"
proof -
  have refl: "list_all2 seen_again ds ds" for ds by (simp add: list_all2_same seen_again_def)
  have touch: "list_all2 seen_again (map (\<lambda>d. if dv_id d = i then d\<lparr>dv_last_seen_at := Some n\<rparr> else d) ds) ds" for i n ds
    by (induction ds) (auto simp: seen_again_def)
  show "ac_pairing t = ac_pairing s \<and> ac_next_id t = ac_next_id s \<and> ac_limiter t = ac_limiter s
     \<and> list_all2 seen_again (ac_devices t) (ac_devices s)"
    using assms refl touch
    by (auto simp: remote_authenticate_def remote_device_touch_def Let_def split: if_splits option.splits)
  show "d \<in> set (ac_devices s) \<and> dv_token_hash d = hash_secret digest token" if "r = Inr (Some d)"
    using assms that find_SomeD [of "\<lambda>d. dv_token_hash d = hash_secret digest token" "ac_devices s"]
    by (auto simp: remote_authenticate_def remote_device_by_hash_def Let_def split: if_splits option.splits)
qed

lemma authorizeD:
  assumes "authorize digest header source now db_ok now_ms route s = (r, t)"
  shows "ac_pairing t = ac_pairing s \<and> ac_next_id t = ac_next_id s
     \<and> list_all2 seen_again (ac_devices t) (ac_devices s)"
    and "r = Inr d \<Longrightarrow> \<exists>token. bearer header = Some token \<and> d \<in> set (ac_devices s)
       \<and> dv_token_hash d = hash_secret digest token \<and> route_needs route \<le> dv_tier d"
proof -
  have refl: "list_all2 seen_again ds ds" for ds by (simp add: list_all2_same seen_again_def)
  have all: "(ac_pairing t = ac_pairing s \<and> ac_next_id t = ac_next_id s
     \<and> list_all2 seen_again (ac_devices t) (ac_devices s)) \<and>
    (\<forall>d. r = Inr d \<longrightarrow> (\<exists>token. bearer header = Some token \<and> d \<in> set (ac_devices s)
       \<and> dv_token_hash d = hash_secret digest token \<and> route_needs route \<le> dv_tier d))"
  proof (cases "bearer header")
    case None
    then show ?thesis using assms refl by (auto simp: authorize_def authenticate_def)
  next
    case (Some token)
    obtain q u where q: "remote_authenticate digest token db_ok now_ms s = (q, u)" by fastforce
    note u = remote_authenticateD [OF q]
    consider "\<exists>x. q = Inl x" | "q = Inr None" | d where "q = Inr (Some d)" by (metis old.sum.exhaust option.exhaust)
    then show ?thesis
    proof cases
      case 2
      obtain c m where "auth_check source now (ac_limiter u) = (c, m)" by fastforce
      then show ?thesis using assms Some q 2 u(1) by (cases c) (auto simp: authorize_def authenticate_def)
    next
      case (3 d)
      then show ?thesis using assms Some q u by (auto simp: authorize_def authenticate_def split: if_splits)
    qed (use assms Some q u in \<open>auto simp: authorize_def authenticate_def\<close>)
  qed
  then show "ac_pairing t = ac_pairing s \<and> ac_next_id t = ac_next_id s
     \<and> list_all2 seen_again (ac_devices t) (ac_devices s)"
    "r = Inr d \<Longrightarrow> \<exists>token. bearer header = Some token \<and> d \<in> set (ac_devices s)
       \<and> dv_token_hash d = hash_secret digest token \<and> route_needs route \<le> dv_tier d" by blast+
qed

lemma remote_device_revokeD:
  assumes "remote_device_revoke i db_ok s = (r, t)"
  shows "ac_pairing t = ac_pairing s \<and> ac_next_id t = ac_next_id s
     \<and> ac_devices t = (if db_ok then filter (\<lambda>d. dv_id d \<noteq> i) (ac_devices s) else ac_devices s)"
proof (cases "List.find (\<lambda>d. dv_id d = i) (ac_devices s)")
  case None
  then have "filter (\<lambda>d. dv_id d \<noteq> i) (ac_devices s) = ac_devices s" by (auto simp: find_None_iff filter_id_conv)
  then show ?thesis using assms None by (cases db_ok) (simp_all add: remote_device_revoke_def)
next
  case (Some d)
  then show ?thesis using assms
    by (cases db_ok) (auto simp: remote_device_revoke_def remember_revoked_def Let_def)
qed

lemma remote_device_set_tierD:
  assumes "remote_device_set_tier i tier db_ok s = (r, t)"
  shows "ac_pairing t = ac_pairing s \<and> ac_next_id t = ac_next_id s
     \<and> ac_devices t = map (\<lambda>d. if db_ok \<and> dv_id d = i then d\<lparr>dv_tier := tier\<rparr> else d) (ac_devices s)"
proof -
  have "map (\<lambda>d. if db_ok \<and> dv_id d = i then d\<lparr>dv_tier := tier\<rparr> else d) (ac_devices s) = ac_devices s"
    if "\<not> (db_ok \<and> i \<in> dv_id ` set (ac_devices s))" using that by (intro map_idI) auto
  then show ?thesis using assms by (auto simp: remote_device_set_tier_def split: if_splits)
qed

lemma pairing_reached: "access_run digest tr s \<Longrightarrow> ac_pairing s = Some p \<Longrightarrow> pairing_traced digest tr p"
proof (induction arbitrary: p rule: access_run.induct)
  case Boot
  then show ?case by (simp add: access_new_def)
next
  case (Step tr s op' answer t)
  show ?case
  proof (cases op')
    case (Start_Pairing random t0)
    then have "answer = Code (hex random)"
      "p = \<lparr>pr_code_hash = hash_secret digest (hex random), pr_expires_ms = t0 + PAIRING_TTL_MS\<rparr>"
      using Step.hyps(2) Step.prems by (auto simp: start_pairing_def Let_def)
    with Start_Pairing show ?thesis unfolding pairing_traced_def
      by (intro exI [of _ tr] exI [of _ random] exI [of _ t0] exI [of _ "[]"]) simp
  next
    case (Pair source now code name random db_ok now_ms)
    obtain r u where r: "pair_request digest source now code name random db_ok now_ms s = (r, u)" by fastforce
    then have a: "answer = case_sum Refused (\<lambda>(token, i). Paired token i) r" "t = u" using Step.hyps(2) Pair by auto
    note u = pair_requestD [OF r]
    have "ac_pairing s = Some p" using u(1) Step.prems a(2) by auto
    moreover have "r \<noteq> Inr x" for x using u(3) [of "fst x" "snd x"] Step.prems a(2) by auto
    ultimately show ?thesis using Step.IH a(1) Pair
      by (intro pairing_traced_snoc) (auto split: sum.splits)
  next
    case (Api header source now db_ok now_ms route)
    obtain r u where r: "authorize digest header source now db_ok now_ms route s = (r, u)" by fastforce
    then have "answer = case_sum Refused Let_In r" "t = u" using Step.hyps(2) Api by auto
    with authorizeD(1) [OF r] show ?thesis using Step.IH Step.prems Api
      by (intro pairing_traced_snoc) (auto split: sum.splits)
  next
    case (Revoke i db_ok)
    obtain r u where r: "remote_device_revoke i db_ok s = (r, u)" by fastforce
    with remote_device_revokeD [OF r] show ?thesis using Step.IH Step.prems Step.hyps(2) Revoke
      by (intro pairing_traced_snoc) auto
  next
    case (Set_Tier i tier db_ok)
    obtain r u where r: "remote_device_set_tier i tier db_ok s = (r, u)" by fastforce
    with remote_device_set_tierD [OF r] show ?thesis using Step.IH Step.prems Step.hyps(2) Set_Tier
      by (intro pairing_traced_snoc) auto
  qed
qed

text \<open>C10: A code pairs one device, and only while it is fresh: before every device that is paired, the computer
  showed the code it gave (up to what the hash tells apart), less than ten minutes earlier, and since that
  code was shown no other was, and no other device was paired.\<close>

theorem a_code_pairs_one_device_in_time:
  assumes "access_run digest (pre @ (Pair source now code name random db_ok now_ms, Paired token i) # post) s"
  shows "\<exists>before shown t0 mid. pre = before @ (Start_Pairing shown t0, Code (hex shown)) # mid
    \<and> hash_secret digest code = hash_secret digest (hex shown) \<and> now_ms < t0 + PAIRING_TTL_MS
    \<and> (\<forall>x \<in> set mid. (\<forall>r t. fst x \<noteq> Start_Pairing r t) \<and> (\<forall>token i. snd x \<noteq> Paired token i))"
proof -
  obtain u v where u: "access_run digest pre u"
    and st: "access_step digest (Pair source now code name random db_ok now_ms) u = (Paired token i, v)"
    using access_run_split [OF assms] by blast
  then obtain r where r: "pair_request digest source now code name random db_ok now_ms u = (Inr (token, i), v)"
    by (auto split: sum.splits prod.splits simp: map_prod_def)
  from pair_requestD(3) [OF r] obtain p where p: "ac_pairing u = Some p"
    "into_bytes (pr_code_hash p) = into_bytes (hash_secret digest code)" "now_ms < pr_expires_ms p" by auto
  from pairing_reached [OF u p(1)] obtain before shown t0 mid where
    m: "pre = before @ (Start_Pairing shown t0, Code (hex shown)) # mid"
    "p = \<lparr>pr_code_hash = hash_secret digest (hex shown), pr_expires_ms = t0 + PAIRING_TTL_MS\<rparr>"
    "\<forall>x \<in> set mid. (\<forall>r t. fst x \<noteq> Start_Pairing r t) \<and> (\<forall>token i. snd x \<noteq> Paired token i)"
    by (auto simp: pairing_traced_def)
  moreover have "hash_secret digest code = hash_secret digest (hex shown)"
    using p(2) m(2) same_hash_bytes [of digest "hex shown" code] by simp
  moreover have "now_ms < t0 + PAIRING_TTL_MS" using p(3) m(2) by simp
  ultimately show ?thesis by blast
qed

section \<open>Devices\<close>

text \<open>The tier a device has after the steps that follow its pairing.\<close>

definition tier_after :: "nat \<Rightarrow> access_trace \<Rightarrow> remote_tier" where
  "tier_after i mid = fold (\<lambda>x tier. case fst x of Set_Tier j u db_ok \<Rightarrow> if db_ok \<and> j = i then u else tier | _ \<Rightarrow> tier) mid Drive"

definition device_traced :: "(byte list \<Rightarrow> byte list) \<Rightarrow> access_trace \<Rightarrow> device \<Rightarrow> bool" where
  "device_traced digest tr d \<longleftrightarrow> (\<exists>before source now code name random db_ok now_ms issued mid.
     tr = before @ (Pair source now code name random db_ok now_ms, Paired issued (dv_id d)) # mid
     \<and> dv_token_hash d = hash_secret digest issued \<and> Revoke (dv_id d) True \<notin> fst ` set mid
     \<and> dv_tier d = tier_after (dv_id d) mid)"

lemma device_traced_snoc:
  assumes "device_traced digest tr d" and "dv_id e = dv_id d" and "dv_token_hash e = dv_token_hash d"
    and "fst x \<noteq> Revoke (dv_id d) True"
    and "dv_tier e = (case fst x of Set_Tier j u db_ok \<Rightarrow> if db_ok \<and> j = dv_id d then u else dv_tier d | _ \<Rightarrow> dv_tier d)"
  shows "device_traced digest (tr @ [x]) e"
proof -
  from assms(1) obtain before source now code name random db_ok now_ms issued mid where
    "tr = before @ (Pair source now code name random db_ok now_ms, Paired issued (dv_id d)) # mid"
    "dv_token_hash d = hash_secret digest issued" "Revoke (dv_id d) True \<notin> fst ` set mid"
    "dv_tier d = tier_after (dv_id d) mid" unfolding device_traced_def by blast
  moreover from this(4) assms(5) have "dv_tier e = tier_after (dv_id d) (mid @ [x])"
    by (auto simp: tier_after_def split: access_op.splits)
  ultimately have "tr @ [x] = before @ (Pair source now code name random db_ok now_ms, Paired issued (dv_id e)) # (mid @ [x])
     \<and> dv_token_hash e = hash_secret digest issued \<and> Revoke (dv_id e) True \<notin> fst ` set (mid @ [x])
     \<and> dv_tier e = tier_after (dv_id e) (mid @ [x])" using assms(2-4) by auto
  then show ?thesis unfolding device_traced_def by blast
qed

lemma devices_reached: "access_run digest tr s \<Longrightarrow> \<forall>d \<in> set (ac_devices s). device_traced digest tr d"
proof (induction rule: access_run.induct)
  case Boot
  then show ?case by (simp add: access_new_def)
next
  case (Step tr s op' answer t)
  show ?case
  proof (cases op')
    case (Start_Pairing random t0)
    then have "ac_devices t = ac_devices s" using Step.hyps(2) by (auto simp: start_pairing_def Let_def)
    then show ?thesis using Step.IH Start_Pairing by (auto intro: device_traced_snoc)
  next
    case (Pair source now code name random db_ok now_ms)
    obtain r u where r: "pair_request digest source now code name random db_ok now_ms s = (r, u)" by fastforce
    then have a: "answer = case_sum Refused (\<lambda>(token, i). Paired token i) r" "t = u" using Step.hyps(2) Pair by auto
    have old: "\<forall>d \<in> set (ac_devices s). device_traced digest (tr @ [(op', answer)]) d"
      using Step.IH Pair by (auto intro: device_traced_snoc)
    show ?thesis
    proof (cases r)
      case (Inl e)
      then show ?thesis using old pair_requestD(2) [OF r] a(2) by auto
    next
      case (Inr y)
      then obtain token i where y: "r = Inr (token, i)" by (cases y) auto
      from pair_requestD(3) [OF r y] obtain d where d: "dv_id d = i" "dv_token_hash d = hash_secret digest token"
        "dv_tier d = Drive" "ac_devices t = ac_devices s @ [d]" using a(2) by auto
      have "tr @ [(op', answer)] = tr @ (Pair source now code name random db_ok now_ms, Paired token (dv_id d)) # []"
        using Pair a(1) y d(1) by simp
      moreover have "dv_tier d = tier_after (dv_id d) []" using d(3) by (simp add: tier_after_def)
      ultimately have "device_traced digest (tr @ [(op', answer)]) d"
        unfolding device_traced_def using d(2) by fastforce
      with old d(4) show ?thesis by auto
    qed
  next
    case (Api header source now db_ok now_ms route)
    obtain r u where r: "authorize digest header source now db_ok now_ms route s = (r, u)" by fastforce
    then have "t = u" using Step.hyps(2) Api by auto
    with authorizeD(1) [OF r] have l: "list_all2 seen_again (ac_devices t) (ac_devices s)" by simp
    show ?thesis
    proof
      fix e assume "e \<in> set (ac_devices t)"
      with l obtain d where "d \<in> set (ac_devices s)" "seen_again e d" by (metis in_set_conv_nth list_all2_conv_all_nth)
      then show "device_traced digest (tr @ [(op', answer)]) e"
        using Step.IH Api by (auto simp: seen_again_def intro: device_traced_snoc [of digest tr d])
    qed
  next
    case (Revoke i db_ok)
    obtain r u where r: "remote_device_revoke i db_ok s = (r, u)" by fastforce
    with remote_device_revokeD [OF r] have "ac_devices t = (if db_ok then filter (\<lambda>d. dv_id d \<noteq> i) (ac_devices s) else ac_devices s)"
      using Step.hyps(2) Revoke by auto
    then show ?thesis using Step.IH Revoke by (auto intro: device_traced_snoc)
  next
    case (Set_Tier i tier db_ok)
    obtain r u where r: "remote_device_set_tier i tier db_ok s = (r, u)" by fastforce
    with remote_device_set_tierD [OF r]
    have m: "ac_devices t = map (\<lambda>d. if db_ok \<and> dv_id d = i then d\<lparr>dv_tier := tier\<rparr> else d) (ac_devices s)"
      using Step.hyps(2) Set_Tier by auto
    show ?thesis
    proof
      fix e assume "e \<in> set (ac_devices t)"
      with m obtain d where "d \<in> set (ac_devices s)" "e = (if db_ok \<and> dv_id d = i then d\<lparr>dv_tier := tier\<rparr> else d)" by auto
      then show "device_traced digest (tr @ [(op', answer)]) e"
        using Step.IH Set_Tier by (auto intro: device_traced_snoc [of digest tr d])
    qed
  qed
qed

text \<open>C9: Only paired devices get in, with the rights they have now: when a request is let through, its bearer
  token hashes as the token handed out when that device was paired, the device has not been revoked since
  (by a revocation the database carried out), and the tier the route needs is at most the one last set for it
  on the computer (drive until one is set).\<close>

theorem only_paired_devices_get_in:
  assumes "access_run digest tr s" and "authorize digest header source now db_ok now_ms route s = (Inr d, t)"
  shows "\<exists>token before source' now' code name random db_ok' now_ms' issued mid. bearer header = Some token
    \<and> tr = before @ (Pair source' now' code name random db_ok' now_ms', Paired issued (dv_id d)) # mid
    \<and> hash_secret digest token = hash_secret digest issued \<and> Revoke (dv_id d) True \<notin> fst ` set mid
    \<and> route_needs route \<le> tier_after (dv_id d) mid"
proof -
  from authorizeD(2) [OF assms(2) refl] obtain token where token: "bearer header = Some token"
    "d \<in> set (ac_devices s)" "dv_token_hash d = hash_secret digest token" "route_needs route \<le> dv_tier d" by blast
  from devices_reached [OF assms(1)] token(2) have "device_traced digest tr d" by blast
  then obtain before source' now' code name random db_ok' now_ms' issued mid where
    "tr = before @ (Pair source' now' code name random db_ok' now_ms', Paired issued (dv_id d)) # mid"
    "dv_token_hash d = hash_secret digest issued" "Revoke (dv_id d) True \<notin> fst ` set mid"
    "dv_tier d = tier_after (dv_id d) mid" unfolding device_traced_def by blast
  with token show ?thesis by metis
qed

end
