(* ===== verification/Phone_Limiter.thy ===== *)
theory Phone_Limiter
  imports Phone_Gate
begin

text \<open>
  How often a source may guess: the limiter of one source, the map of all of them, and the attempts of
  concurrent requests, whose two lock sections (asking the limiter, counting a failure) interleave freely. The
  bound holds for a source that waits for each answer, among up to 1024; attempts under way at once are all
  answered, and with 1024 busy sources a further one is not counted at all.
\<close>

section \<open>One source\<close>

definition in_window :: "nat \<Rightarrow> nat list \<Rightarrow> nat" where
  "in_window a fs = length (filter (\<lambda>t. a \<le> t \<and> t < a + AUTH_FAILURE_WINDOW) fs)"

text \<open>\<open>fs\<close> are the failures counted so far, \<open>ts\<close> the times of all attempts. Those the limiter no longer
  remembers are too old to matter at any later attempt that is let through.\<close>

definition limited :: "nat list \<Rightarrow> nat list \<Rightarrow> failure_limiter \<Rightarrow> bool" where
  "limited fs ts l \<longleftrightarrow> (\<exists>old. fs = old @ fl_failures l
      \<and> (\<forall>x \<in> set old. \<forall>y. (\<forall>z \<in> set ts. z \<le> y) \<longrightarrow> (\<forall>u. fl_locked_until l = Some u \<longrightarrow> u \<le> y)
           \<longrightarrow> x + AUTH_FAILURE_WINDOW \<le> y))
    \<and> length (fl_failures l) < AUTH_FAILURE_LIMIT \<and> set fs \<subseteq> set ts
    \<and> (\<forall>a. in_window a fs \<le> AUTH_FAILURE_LIMIT)"

lemma limited_new: "limited [] [] limiter_default"
  by (simp add: limited_def limiter_default_def in_window_def AUTH_FAILURE_LIMIT_def)

lemma limited_later:
  assumes "limited fs ts l" shows "limited fs (ts @ [y]) l"
proof -
  from assms obtain old where "fs = old @ fl_failures l"
    "\<forall>x \<in> set old. \<forall>y. (\<forall>z \<in> set ts. z \<le> y) \<longrightarrow> (\<forall>u. fl_locked_until l = Some u \<longrightarrow> u \<le> y) \<longrightarrow> x + AUTH_FAILURE_WINDOW \<le> y"
    unfolding limited_def by blast
  then have "\<exists>old. fs = old @ fl_failures l \<and> (\<forall>x \<in> set old. \<forall>y'. (\<forall>z \<in> set (ts @ [y]). z \<le> y')
      \<longrightarrow> (\<forall>u. fl_locked_until l = Some u \<longrightarrow> u \<le> y') \<longrightarrow> x + AUTH_FAILURE_WINDOW \<le> y')"
    by (intro exI [of _ old]) auto
  with assms show ?thesis unfolding limited_def by auto
qed

lemma limiter_checkD:
  assumes "limiter_check now l = (r, l')"
  shows "r = Inr u \<Longrightarrow> fl_locked_until l' = None \<and> fl_failures l' = fl_failures l
     \<and> (\<forall>v. fl_locked_until l = Some v \<longrightarrow> v \<le> now)"
    and "r = Inl secs \<Longrightarrow> l' = l"
  using assms by (auto simp: limiter_check_def split: option.splits if_splits)

lemma limited_check:
  assumes "limited fs ts l" and "limiter_check y l = (r, l')"
  shows "limited fs (ts @ [y]) l'"
proof (cases r)
  case (Inl secs)
  then show ?thesis using limiter_checkD(2) [OF assms(2)] limited_later [OF assms(1)] by simp
next
  case (Inr u)
  note c = limiter_checkD(1) [OF assms(2) Inr]
  from assms(1) obtain old where old: "fs = old @ fl_failures l"
    "\<forall>x \<in> set old. \<forall>y. (\<forall>z \<in> set ts. z \<le> y) \<longrightarrow> (\<forall>u. fl_locked_until l = Some u \<longrightarrow> u \<le> y) \<longrightarrow> x + AUTH_FAILURE_WINDOW \<le> y"
    unfolding limited_def by blast
  have "x + AUTH_FAILURE_WINDOW \<le> y'" if "x \<in> set old" "\<forall>z \<in> set (ts @ [y]). z \<le> y'" for x y'
  proof -
    have "\<forall>z \<in> set ts. z \<le> y'" "\<forall>u. fl_locked_until l = Some u \<longrightarrow> u \<le> y'" using that(2) c by auto
    with old(2) that(1) show ?thesis by blast
  qed
  then have "\<exists>old. fs = old @ fl_failures l' \<and> (\<forall>x \<in> set old. \<forall>y'. (\<forall>z \<in> set (ts @ [y]). z \<le> y')
      \<longrightarrow> (\<forall>u. fl_locked_until l' = Some u \<longrightarrow> u \<le> y') \<longrightarrow> x + AUTH_FAILURE_WINDOW \<le> y')"
    using old(1) c by (intro exI [of _ old]) auto
  with assms(1) c show ?thesis unfolding limited_def by auto
qed

lemma limited_window:
  assumes "limited fs ts l" and "\<forall>z \<in> set ts. z \<le> y" and "fl_locked_until l = None"
  shows "in_window a (fs @ [y]) \<le> AUTH_FAILURE_LIMIT"
proof (cases "a \<le> y \<and> y < a + AUTH_FAILURE_WINDOW")
  case True
  from assms(1) obtain old where old: "fs = old @ fl_failures l"
    "\<forall>x \<in> set old. \<forall>y. (\<forall>z \<in> set ts. z \<le> y) \<longrightarrow> (\<forall>u. fl_locked_until l = Some u \<longrightarrow> u \<le> y) \<longrightarrow> x + AUTH_FAILURE_WINDOW \<le> y"
    and len: "length (fl_failures l) < AUTH_FAILURE_LIMIT" unfolding limited_def by blast
  have "x + AUTH_FAILURE_WINDOW \<le> y" if "x \<in> set old" for x using old(2) that assms(2,3) by auto
  then have "filter (\<lambda>t. a \<le> t \<and> t < a + AUTH_FAILURE_WINDOW) old = []"
    using True by (fastforce simp: filter_empty_conv)
  then show ?thesis using len True unfolding in_window_def old(1)
    by (simp add: Suc_le_eq le_less_trans [OF length_filter_le])
qed (use assms(1) in \<open>auto simp: limited_def in_window_def\<close>)

lemma limited_failure:
  assumes "limited fs ts l" and "y \<in> set ts" and "\<forall>z \<in> set ts. z \<le> y" and "fl_locked_until l = None"
  shows "limited (fs @ [y]) ts (record_failure y l)"
proof -
  let ?P = "\<lambda>t. AUTH_FAILURE_WINDOW \<le> y - t"
  let ?d = "takeWhile ?P (fl_failures l)" and ?r = "dropWhile ?P (fl_failures l)"
  from assms(1) obtain old where old: "fs = old @ fl_failures l"
    "\<forall>x \<in> set old. \<forall>y. (\<forall>z \<in> set ts. z \<le> y) \<longrightarrow> (\<forall>u. fl_locked_until l = Some u \<longrightarrow> u \<le> y) \<longrightarrow> x + AUTH_FAILURE_WINDOW \<le> y"
    and sub: "set fs \<subseteq> set ts" unfolding limited_def by blast
  have d: "x + AUTH_FAILURE_WINDOW \<le> y" if "x \<in> set ?d" for x
  proof -
    have "AUTH_FAILURE_WINDOW \<le> y - x" using that set_takeWhileD by metis
    then show ?thesis by (simp add: AUTH_FAILURE_WINDOW_def SECOND_def)
  qed
  have fs: "fs @ [y] = (old @ ?d) @ ?r @ [y]" using old(1) by simp
  show ?thesis
  proof (cases "AUTH_FAILURE_LIMIT \<le> length (?r @ [y])")
    case True
    then have r: "record_failure y l = \<lparr>fl_failures = [], fl_locked_until = Some (y + AUTH_LOCKOUT)\<rparr>"
      by (simp add: record_failure_def)
    have "x + AUTH_FAILURE_WINDOW \<le> y'" if "x \<in> set (fs @ [y])" "y + AUTH_LOCKOUT \<le> y'" for x y'
    proof -
      have "x \<le> y" using that(1) sub assms(2,3) by auto
      with that(2) show ?thesis by (simp add: AUTH_LOCKOUT_def AUTH_FAILURE_WINDOW_def)
    qed
    then show ?thesis using sub assms(2) limited_window [OF assms(1,3,4)]
      unfolding limited_def r by (auto simp: AUTH_FAILURE_LIMIT_def)
  next
    case False
    then have r: "fl_failures (record_failure y l) = ?r @ [y]" "fl_locked_until (record_failure y l) = None"
      using assms(4) by (simp_all add: record_failure_def Let_def)
    have "x + AUTH_FAILURE_WINDOW \<le> y'" if "x \<in> set (old @ ?d)" "\<forall>z \<in> set ts. z \<le> y'" for x y'
    proof (cases "x \<in> set old")
      case True
      then show ?thesis using old(2) that(2) assms(4) by auto
    next
      case False
      then have "x + AUTH_FAILURE_WINDOW \<le> y" using that(1) d by auto
      also have "y \<le> y'" using that(2) assms(2) by blast
      finally show ?thesis .
    qed
    then have "\<exists>old. fs @ [y] = old @ fl_failures (record_failure y l) \<and> (\<forall>x \<in> set old. \<forall>y'. (\<forall>z \<in> set ts. z \<le> y')
      \<longrightarrow> (\<forall>u. fl_locked_until (record_failure y l) = Some u \<longrightarrow> u \<le> y') \<longrightarrow> x + AUTH_FAILURE_WINDOW \<le> y')"
      using r fs by (intro exI [of _ "old @ ?d"]) simp
    moreover have "length (fl_failures (record_failure y l)) < AUTH_FAILURE_LIMIT" using False r(1) by simp
    ultimately show ?thesis using sub assms(2) limited_window [OF assms(1,3,4)]
      unfolding limited_def by simp
  qed
qed

section \<open>The map of sources\<close>

abbreviation limiter_of :: "limiter_map \<Rightarrow> ip_addr option \<Rightarrow> failure_limiter" where
  "limiter_of m k \<equiv> (case map_of m k of Some l \<Rightarrow> l | None \<Rightarrow> limiter_default)"

lemma auth_checkD:
  assumes "auth_check source now m = (r, m')"
  shows "limiter_check now (limiter_of m (limiter_key source)) = (r, limiter_of m' (limiter_key source))"
    and "k \<noteq> limiter_key source \<Longrightarrow> limiter_of m' k = limiter_of m k"
    and "map fst m' = map fst m"
proof -
  show "limiter_check now (limiter_of m (limiter_key source)) = (r, limiter_of m' (limiter_key source))"
    using assms by (auto simp: auth_check_def limiter_check_def limiter_default_def update_conv
        split: option.splits if_splits prod.splits)
  show "limiter_of m' k = limiter_of m k" if "k \<noteq> limiter_key source"
    using assms that by (auto simp: auth_check_def update_conv split: option.splits prod.splits)
  have keys: "map fst (AList.update k v m) = map fst m" if "map_of m k \<noteq> None" for k v
    using that by (induction m) auto
  show "map fst m' = map fst m"
    using assms keys by (auto simp: auth_check_def split: option.splits prod.splits)
qed

lemma auth_failedD:
  assumes "length m < LIMITER_SOURCES_MAX \<or> map_of m (limiter_key source) \<noteq> None"
  shows "limiter_of (auth_failed source now m) k
      = (if k = limiter_key source then record_failure now (limiter_of m k) else limiter_of m k)"
    and "fst ` set (auth_failed source now m) = insert (limiter_key source) (fst ` set m)"
    and "distinct (map fst m) \<Longrightarrow> distinct (map fst (auth_failed source now m))"
proof -
  have a: "auth_failed source now m
      = AList.update (limiter_key source) (record_failure now (limiter_of m (limiter_key source))) m"
    using assms by (auto simp: auth_failed_def Let_def)
  show "limiter_of (auth_failed source now m) k
      = (if k = limiter_key source then record_failure now (limiter_of m k) else limiter_of m k)"
    unfolding a by (simp add: update_conv)
  show "fst ` set (auth_failed source now m) = insert (limiter_key source) (fst ` set m)"
    unfolding a by (simp add: dom_update)
  show "distinct (map fst m) \<Longrightarrow> distinct (map fst (auth_failed source now m))"
    unfolding a by (rule distinct_update)
qed

section \<open>Attempts\<close>

text \<open>
  The limiter among concurrent requests. A request takes the limiter's lock once to ask (\<open>auth_check\<close>) and, when
  the code or the token was wrong, a second time to count the failure (\<open>auth_failed\<close>), with the time it read
  before it asked; between the two it holds no lock, and other requests go on. \<open>Begin i source now\<close> is the
  first, under a name \<open>i\<close> for the attempt; \<open>Count i\<close> the second; \<open>Leave i\<close> the end of an attempt that is not
  counted. Any interleaving is a run.
\<close>

datatype gate_op = Begin nat ip_addr nat | Count nat | Leave nat

datatype gate_answer = Let_Through | Told_To_Wait nat | Told_Wrong | Left

record gate =
  gt_limiter :: limiter_map
  gt_open :: "(nat \<times> ip_addr \<times> nat) list"

definition gate_new :: gate where
  "gate_new = \<lparr>gt_limiter = [], gt_open = []\<rparr>"

fun gate_step :: "gate_op \<Rightarrow> gate \<Rightarrow> (gate_answer \<times> gate) option" where
  "gate_step (Begin i source now) s =
     (if map_of (gt_open s) i \<noteq> None then None
      else Some (case auth_check source now (gt_limiter s) of
             (Inl secs, m) \<Rightarrow> (Told_To_Wait secs, s\<lparr>gt_limiter := m\<rparr>)
           | (Inr _, m) \<Rightarrow> (Let_Through, s\<lparr>gt_limiter := m, gt_open := gt_open s @ [(i, source, now)]\<rparr>)))"
| "gate_step (Count i) s =
     (case map_of (gt_open s) i of
        None \<Rightarrow> None
      | Some (source, now) \<Rightarrow>
          Some (Told_Wrong, s\<lparr>gt_limiter := auth_failed source now (gt_limiter s), gt_open := AList.delete i (gt_open s)\<rparr>))"
| "gate_step (Leave i) s =
     (if map_of (gt_open s) i = None then None else Some (Left, s\<lparr>gt_open := AList.delete i (gt_open s)\<rparr>))"

type_synonym gate_trace = "(gate_op \<times> gate_answer) list"

inductive gate_run :: "gate_trace \<Rightarrow> gate \<Rightarrow> bool" where
  Opened: "gate_run [] gate_new"
| Stepped: "gate_run tr s \<Longrightarrow> gate_step op' s = Some (answer, t) \<Longrightarrow> gate_run (tr @ [(op', answer)]) t"

fun gate_steps :: "gate_op list \<Rightarrow> gate \<Rightarrow> (gate_answer list \<times> gate) option" where
  "gate_steps [] s = Some ([], s)"
| "gate_steps (op' # ops) s =
     (case gate_step op' s of
        None \<Rightarrow> None
      | Some (a, t) \<Rightarrow> (case gate_steps ops t of None \<Rightarrow> None | Some (as, u) \<Rightarrow> Some (a # as, u)))"

lemma gate_steps_run:
  "gate_run tr s \<Longrightarrow> gate_steps ops s = Some (as, t) \<Longrightarrow> gate_run (tr @ zip ops as) t"
proof (induction ops arbitrary: tr s as)
  case (Cons op' ops)
  obtain a u bs where "gate_step op' s = Some (a, u)" "gate_steps ops u = Some (bs, t)" "as = a # bs"
    using Cons.prems(2) by (auto split: option.splits)
  with Cons.IH [OF gate_run.Stepped [OF Cons.prems(1)]] show ?case by fastforce
qed simp


text \<open>A request is such a sequence: it asks nothing, or asks and is told to wait, or asks and ends counted as
  wrong or not counted.\<close>

fun attempt_of :: "access_op \<Rightarrow> (ip_addr option \<times> nat) option" where
  "attempt_of (Pair source now code name random db_ok now_ms) = Some (limiter_key source, now)"
| "attempt_of (Api header source now db_ok now_ms route) = Some (limiter_key source, now)"
| "attempt_of _ = None"

fun wrong :: "access_answer \<Rightarrow> bool" where
  "wrong (Refused (Not_Paired _)) = True"
| "wrong (Refused (Invalid_Token _)) = True"
| "wrong _ = False"

lemma remote_pair_refusal: "remote_pair digest code name random db_ok now_ms s \<noteq> (Inl (Invalid_Token b), t)"
  by (auto simp: remote_pair_def Let_def split: sum.splits prod.splits option.splits)

lemma attempt_step:
  assumes "access_step digest op' s = (answer, t)" and "attempt_of op' = Some (k, y)"
  obtains "ac_limiter t = ac_limiter s" "\<not> wrong answer"
  | source r m where "k = limiter_key source" "auth_check source y (ac_limiter s) = (r, m)"
      "wrong answer \<Longrightarrow> r = Inr () \<and> ac_limiter t = auth_failed source y m" "\<not> wrong answer \<Longrightarrow> ac_limiter t = m"
proof (cases op')
  case (Pair source now code name random db_ok now_ms)
  then have ky: "k = limiter_key source" "y = now" using assms(2) by simp_all
  obtain r m where c: "auth_check source now (ac_limiter s) = (r, m)" by fastforce
  obtain q u where q: "remote_pair digest code name random db_ok now_ms (s\<lparr>ac_limiter := m\<rparr>) = (q, u)" by fastforce
  have "ac_limiter u = m" using remote_pairD(1) [OF q] by simp
  then have "(wrong answer \<longrightarrow> r = Inr () \<and> ac_limiter t = auth_failed source now m) \<and> (\<not> wrong answer \<longrightarrow> ac_limiter t = m)"
    using assms(1) Pair c q remote_pair_refusal
    by (cases r; cases q) (auto simp: pair_request_def split: access_refusal.splits)
  with ky c show thesis using that(2) by blast
next
  case (Api header source now db_ok now_ms route)
  then have ky: "k = limiter_key source" "y = now" using assms(2) by simp_all
  show thesis
  proof (cases "bearer header")
    case None
    then show thesis using that(1) assms(1) Api by (auto simp: authorize_def authenticate_def)
  next
    case (Some token)
    obtain q u where q: "remote_authenticate digest token db_ok now_ms s = (q, u)" by fastforce
    have u: "ac_limiter u = ac_limiter s" using remote_authenticateD(1) [OF q] by simp
    consider "q = Inr None" | "\<exists>x. q = Inl x" | d where "q = Inr (Some d)" by (metis old.sum.exhaust option.exhaust)
    then show thesis
    proof cases
      case 1
      obtain r m where c: "auth_check source now (ac_limiter s) = (r, m)" by fastforce
      have "(wrong answer \<longrightarrow> r = Inr () \<and> ac_limiter t = auth_failed source now m) \<and> (\<not> wrong answer \<longrightarrow> ac_limiter t = m)"
        using assms(1) Api Some q 1 c u by (cases r) (auto simp: authorize_def authenticate_def)
      with ky c show thesis using that(2) by blast
    next
      case 2
      then show thesis using that(1) assms(1) Api Some q u by (auto simp: authorize_def authenticate_def)
    next
      case (3 d)
      then show thesis using that(1) assms(1) Api Some q u
        by (auto simp: authorize_def authenticate_def split: if_splits)
    qed
  qed
qed (use assms(2) in simp_all)

lemma requests_are_attempts:
  assumes "access_step digest op' s = (answer, t)" and "attempt_of op' = Some (k, y)"
  shows "\<exists>source ops as. ops \<in> {[], [Begin 0 source y], [Begin 0 source y, Count 0], [Begin 0 source y, Leave 0]}
    \<and> gate_steps ops \<lparr>gt_limiter = ac_limiter s, gt_open = []\<rparr> = Some (as, \<lparr>gt_limiter = ac_limiter t, gt_open = []\<rparr>)
    \<and> (wrong answer \<longleftrightarrow> Told_Wrong \<in> set as)"
proof (rule attempt_step [OF assms])
  assume "ac_limiter t = ac_limiter s" "\<not> wrong answer"
  then show ?thesis by (intro exI [of _ "V4 0"] exI [of _ "[]"]) simp
next
  fix source r m
  assume c: "auth_check source y (ac_limiter s) = (r, m)"
    and w: "wrong answer \<Longrightarrow> r = Inr () \<and> ac_limiter t = auth_failed source y m"
    and nw: "\<not> wrong answer \<Longrightarrow> ac_limiter t = m"
  show ?thesis
  proof (cases r)
    case (Inl secs)
    then show ?thesis using c w nw by (intro exI [of _ source] exI [of _ "[Begin 0 source y]"]) auto
  next
    case (Inr u)
    show ?thesis
    proof (cases "wrong answer")
      case True
      then show ?thesis using c w
        by (intro exI [of _ source] exI [of _ "[Begin 0 source y, Count 0]"]) simp
    next
      case False
      then show ?thesis using c nw Inr
        by (intro exI [of _ source] exI [of _ "[Begin 0 source y, Leave 0]"]) simp
    qed
  qed
qed

section \<open>Runs\<close>

text \<open>Of the attempts from one source: when they began, when those that were told to be wrong began, and which
  are open. \<open>seen\<close> are the sources of a run.\<close>

fun began_step :: "ip_addr option \<Rightarrow> gate_op \<times> gate_answer \<Rightarrow> nat list" where
  "began_step k (Begin i source now, answer) = (if limiter_key source = k then [now] else [])"
| "began_step k x = []"

definition began :: "ip_addr option \<Rightarrow> gate_trace \<Rightarrow> nat list" where
  "began k tr = concat (map (began_step k) tr)"

fun open_step :: "ip_addr option \<Rightarrow> gate_op \<times> gate_answer \<Rightarrow> (nat \<times> nat) list \<Rightarrow> (nat \<times> nat) list" where
  "open_step k (Begin i source now, answer) xs =
     (if limiter_key source = k \<and> answer = Let_Through then xs @ [(i, now)] else xs)"
| "open_step k (Count i, answer) xs = AList.delete i xs"
| "open_step k (Leave i, answer) xs = AList.delete i xs"

definition still_open :: "ip_addr option \<Rightarrow> gate_trace \<Rightarrow> (nat \<times> nat) list" where
  "still_open k tr = fold (open_step k) tr []"

fun guess_step :: "gate_op \<times> gate_answer \<Rightarrow> (nat \<times> nat) list \<Rightarrow> nat list" where
  "guess_step (Count i, answer) xs = (case map_of xs i of Some now \<Rightarrow> [now] | None \<Rightarrow> [])"
| "guess_step x xs = []"

fun guesses_from :: "ip_addr option \<Rightarrow> gate_trace \<Rightarrow> (nat \<times> nat) list \<Rightarrow> nat list" where
  "guesses_from k [] xs = []"
| "guesses_from k (x # tr) xs = guess_step x xs @ guesses_from k tr (open_step k x xs)"

definition guesses :: "ip_addr option \<Rightarrow> gate_trace \<Rightarrow> nat list" where
  "guesses k tr = guesses_from k tr []"

fun source_step :: "gate_op \<times> gate_answer \<Rightarrow> ip_addr option list" where
  "source_step (Begin i source now, answer) = [limiter_key source]"
| "source_step x = []"

definition seen :: "gate_trace \<Rightarrow> ip_addr option set" where
  "seen tr = set (concat (map source_step tr))"

text \<open>A source that waits for each answer before it asks again.\<close>

definition one_at_a_time :: "ip_addr option \<Rightarrow> gate_trace \<Rightarrow> bool" where
  "one_at_a_time k tr \<longleftrightarrow> list_all (\<lambda>n. length (still_open k (take n tr)) \<le> 1) [0..<Suc (length tr)]"

lemma guesses_from_append:
  "guesses_from k (xs @ ys) zs = guesses_from k xs zs @ guesses_from k ys (fold (open_step k) xs zs)"
  by (induction xs arbitrary: zs) simp_all

lemma snocs:
  "began k (tr @ [x]) = began k tr @ began_step k x"
  "still_open k (tr @ [x]) = open_step k x (still_open k tr)"
  "guesses k (tr @ [x]) = guesses k tr @ guess_step x (still_open k tr)"
  "seen (tr @ [x]) = seen tr \<union> set (source_step x)"
  by (simp_all add: began_def still_open_def guesses_def seen_def guesses_from_append)

lemma nils: "began k [] = []" "still_open k [] = []" "guesses k [] = []" "seen [] = {}"
  by (simp_all add: began_def still_open_def guesses_def seen_def)

lemma finite_seen: "finite (seen tr)"
  by (simp add: seen_def)

lemma one_at_a_timeD:
  assumes "one_at_a_time k (tr @ us)"
  shows "one_at_a_time k tr" and "length (still_open k tr) \<le> 1"
proof -
  have all: "length (still_open k (take n (tr @ us))) \<le> 1" if "n \<le> length (tr @ us)" for n
  proof -
    have "n \<in> set [0..<Suc (length (tr @ us))]" using that by (simp del: upt_Suc)
    with assms show ?thesis unfolding one_at_a_time_def list_all_iff by blast
  qed
  have "length (still_open k (take n tr)) \<le> 1" if "n \<le> length tr" for n using all [of n] that by simp
  then show "one_at_a_time k tr" unfolding one_at_a_time_def list_all_iff by (simp del: upt_Suc)
  show "length (still_open k tr) \<le> 1" using all [of "length tr"] by simp
qed

lemma gate_run_snocD:
  "gate_run (tr @ [(op', answer)]) t \<Longrightarrow> \<exists>s. gate_run tr s \<and> gate_step op' s = Some (answer, t)"
  by (erule gate_run.cases) auto

lemma gate_run_prefix: "gate_run (pre @ post) t \<Longrightarrow> \<exists>s. gate_run pre s"
proof (induction post arbitrary: t rule: rev_induct)
  case (snoc x post)
  then show ?case using gate_run_snocD [of "pre @ post" "fst x" "snd x" t] by force
qed auto

lemma room_for_one_more:
  assumes "distinct (map fst m)" and "fst ` set m \<subseteq> S" and "finite S" and "card S \<le> LIMITER_SOURCES_MAX" and "k \<in> S"
  shows "length m < LIMITER_SOURCES_MAX \<or> map_of m k \<noteq> None"
proof (rule disjCI)
  assume "\<not> map_of m k \<noteq> None"
  then have "fst ` set m \<subset> S" using assms(2,5) by (auto simp: map_of_eq_None_iff)
  then have "card (fst ` set m) < card S" using assms(3) by (rule psubset_card_mono [rotated])
  moreover have "card (fst ` set m) = length m" using assms(1) distinct_card [of "map fst m"] by simp
  ultimately show "length m < LIMITER_SOURCES_MAX" using assms(4) by simp
qed

definition own :: "ip_addr option \<Rightarrow> gate \<Rightarrow> (nat \<times> nat) list" where
  "own k s = map (\<lambda>x. (fst x, snd (snd x))) (filter (\<lambda>x. limiter_key (fst (snd x)) = k) (gt_open s))"

lemma delete_own:
  "AList.delete i (map (\<lambda>x. (fst x, f x)) (filter P xs)) = map (\<lambda>x. (fst x, f x)) (filter P (AList.delete i xs))"
  by (induction xs) auto

lemma own_simps [simp]:
  "own k (s\<lparr>gt_limiter := m\<rparr>) = own k s"
  "own k (s\<lparr>gt_limiter := m, gt_open := gt_open s @ [(i, source, now)]\<rparr>)
     = own k s @ (if limiter_key source = k then [(i, now)] else [])"
  "own k (s\<lparr>gt_limiter := m, gt_open := AList.delete i (gt_open s)\<rparr>) = AList.delete i (own k s)"
  "own k (s\<lparr>gt_open := AList.delete i (gt_open s)\<rparr>) = AList.delete i (own k s)"
  by (simp_all add: own_def delete_own)

lemma map_of_filter_map:
  assumes "distinct (map fst xs)" and "map_of xs i = Some v"
  shows "map_of (map (\<lambda>x. (fst x, f (snd x))) (filter (\<lambda>x. P (snd x)) xs)) i = (if P v then Some (f v) else None)"
  using assms
proof (induction xs)
  case (Cons x xs)
  show ?case
  proof (cases "fst x = i")
    case True
    have "map_of (map (\<lambda>x. (fst x, f (snd x))) (filter (\<lambda>x. P (snd x)) xs)) i = None"
      using Cons.prems(1) True by (auto simp: map_of_eq_None_iff image_iff)
    then show ?thesis using Cons.prems(2) True by simp
  qed (use Cons in simp)
qed simp

lemma map_of_own:
  assumes "distinct (map fst (gt_open s))" and "map_of (gt_open s) i = Some (source, now)"
  shows "map_of (own k s) i = (if limiter_key source = k then Some now else None)"
  using map_of_filter_map [OF assms, of snd "\<lambda>v. limiter_key (fst v) = k"] by (simp only: own_def fst_conv snd_conv)

lemma set_delete_subset: "set (AList.delete i xs) \<subseteq> set xs"
  by (auto simp: AList.delete_eq)

lemma open_reached:
  "gate_run tr s \<Longrightarrow> distinct (map fst (gt_open s)) \<and> still_open k tr = own k s
     \<and> (\<forall>x \<in> set (gt_open s). limiter_key (fst (snd x)) \<in> seen tr)"
proof (induction rule: gate_run.induct)
  case Opened
  then show ?case by (simp add: nils gate_new_def own_def)
next
  case (Stepped tr s op' answer t)
  show ?case
  proof (cases op')
    case (Begin i source now)
    obtain r m where c: "auth_check source now (gt_limiter s) = (r, m)" by fastforce
    show ?thesis using Stepped Begin c
      by (cases r) (auto simp: snocs map_of_eq_None_iff split: if_splits)
  next
    case (Count i)
    then show ?thesis using Stepped set_delete_subset [of i "gt_open s"]
      by (auto simp: snocs distinct_delete split: option.splits)
  next
    case (Leave i)
    then show ?thesis using Stepped set_delete_subset [of i "gt_open s"]
      by (auto simp: snocs distinct_delete split: if_splits)
  qed
qed

text \<open>The source's limiter counts what it was told, and while an attempt of its own is open, which is then the
  latest it began, it is not locked out.\<close>

definition counted :: "ip_addr option \<Rightarrow> gate_trace \<Rightarrow> gate \<Rightarrow> bool" where
  "counted k tr s \<longleftrightarrow> distinct (map fst (gt_limiter s)) \<and> fst ` set (gt_limiter s) \<subseteq> seen tr
    \<and> limited (guesses k tr) (began k tr) (limiter_of (gt_limiter s) k)
    \<and> (\<forall>x \<in> set (still_open k tr). fl_locked_until (limiter_of (gt_limiter s) k) = None
        \<and> snd x \<in> set (began k tr) \<and> (\<forall>z \<in> set (began k tr). z \<le> snd x))"

lemma counted_begin:
  assumes ok: "counted k tr s" and b: "gate_step (Begin i source now) s = Some (answer, t)"
    and sorted: "sorted (began k (tr @ [(Begin i source now, answer)]))"
    and one: "length (still_open k (tr @ [(Begin i source now, answer)])) \<le> 1"
  shows "counted k (tr @ [(Begin i source now, answer)]) t"
proof -
  let ?tr = "tr @ [(Begin i source now, answer)]"
  obtain r m where c: "auth_check source now (gt_limiter s) = (r, m)" by fastforce
  note cm = auth_checkD [OF c]
  have t: "gt_limiter t = m" and let_in: "answer = Let_Through \<longleftrightarrow> r = Inr ()"
    using b c by (auto split: if_splits sum.splits)
  have keys: "distinct (map fst m)" "fst ` set m \<subseteq> seen ?tr"
  proof -
    have "fst ` set m = fst ` set (gt_limiter s)" using cm(3) by (metis list.set_map)
    then show "fst ` set m \<subseteq> seen ?tr" using ok unfolding counted_def snocs by blast
    show "distinct (map fst m)" using ok cm(3) unfolding counted_def by simp
  qed
  have lim: "limited (guesses k ?tr) (began k ?tr) (limiter_of m k)"
  proof (cases "limiter_key source = k")
    case True
    have "limited (guesses k tr) (began k tr) (limiter_of (gt_limiter s) k)" using ok by (simp add: counted_def)
    from limited_check [OF this, of now r "limiter_of m k"] cm(1) True show ?thesis by (simp add: snocs)
  next
    case False
    then show ?thesis using ok cm(2) [of k] by (simp add: counted_def snocs)
  qed
  have opened: "fl_locked_until (limiter_of m k) = None \<and> now' \<in> set (began k ?tr) \<and> (\<forall>z \<in> set (began k ?tr). z \<le> now')"
    if x: "(j, now') \<in> set (still_open k ?tr)" for j :: nat and now'
  proof (cases "limiter_key source = k")
    case False
    then show ?thesis using ok x cm(2) [of k] by (auto simp: counted_def snocs)
  next
    case True
    have "r = Inr () \<and> (j, now') = (i, now)"
    proof (cases "still_open k tr")
      case Nil
      then show ?thesis using x True let_in by (auto simp: snocs split: if_splits)
    next
      case (Cons a as)
      then have "fl_locked_until (limiter_of (gt_limiter s) k) = None"
        using ok by (auto simp: counted_def)
      then have "r = Inr ()" using cm(1) True by (simp add: limiter_check_def)
      then show ?thesis using one Cons True let_in by (simp add: snocs)
    qed
    then have "r = Inr ()" "now' = now" by simp_all
    then show ?thesis using limiter_checkD(1) [OF cm(1)] True sorted by (auto simp: snocs sorted_append)
  qed
  show ?thesis unfolding counted_def t using keys lim opened by (metis prod.collapse)
qed

lemma counted_count:
  assumes ok: "counted k tr s" and run: "gate_run tr s" and b: "gate_step (Count i) s = Some (answer, t)"
    and few: "card (seen tr) \<le> LIMITER_SOURCES_MAX" and one: "length (still_open k tr) \<le> 1"
  shows "counted k (tr @ [(Count i, answer)]) t"
proof -
  let ?tr = "tr @ [(Count i, answer)]"
  obtain source now where i: "map_of (gt_open s) i = Some (source, now)"
    and t: "gt_limiter t = auth_failed source now (gt_limiter s)" using b by (auto split: option.splits)
  note o = open_reached [OF run, of k]
  have "(i, source, now) \<in> set (gt_open s)" using i by (rule map_of_SomeD)
  then have key: "limiter_key source \<in> seen tr" using o by force
  have room: "length (gt_limiter s) < LIMITER_SOURCES_MAX \<or> map_of (gt_limiter s) (limiter_key source) \<noteq> None"
    using ok key few finite_seen by (intro room_for_one_more) (auto simp: counted_def)
  note f = auth_failedD [OF room]
  have guess: "guess_step (Count i, answer) (still_open k tr) = (if limiter_key source = k then [now] else [])"
    using o map_of_own [OF _ i, of k] by simp
  have keys: "distinct (map fst (gt_limiter t))" "fst ` set (gt_limiter t) \<subseteq> seen ?tr"
    using ok f(2,3) [of now] key unfolding counted_def t by (auto simp: snocs)
  show ?thesis
  proof (cases "limiter_key source = k")
    case True
    then have at: "map_of (still_open k tr) i = Some now" using o map_of_own [OF _ i, of k] by simp
    then have "(i, now) \<in> set (still_open k tr)" by (rule map_of_SomeD)
    then have "now \<in> set (began k tr)" "\<forall>z \<in> set (began k tr). z \<le> now"
      "fl_locked_until (limiter_of (gt_limiter s) k) = None"
      and lim: "limited (guesses k tr) (began k tr) (limiter_of (gt_limiter s) k)" using ok by (auto simp: counted_def)
    from limited_failure [OF lim this(1-3)]
    have "limited (guesses k ?tr) (began k ?tr) (limiter_of (gt_limiter t) k)"
      using True guess f(1) [of now k] by (simp add: snocs t)
    moreover have "still_open k ?tr = []"
      using one \<open>(i, now) \<in> set (still_open k tr)\<close> by (cases "still_open k tr") (auto simp: snocs)
    ultimately show ?thesis unfolding counted_def using keys by simp
  next
    case False
    then have "limiter_of (gt_limiter t) k = limiter_of (gt_limiter s) k" using f(1) [of now k] by (simp add: t)
    moreover have "set (still_open k ?tr) \<subseteq> set (still_open k tr)" using set_delete_subset by (simp add: snocs)
    moreover have "guesses k ?tr = guesses k tr" "began k ?tr = began k tr" using False guess by (simp_all add: snocs)
    ultimately show ?thesis using ok keys unfolding counted_def by (metis subsetD)
  qed
qed

lemma counted_leave:
  assumes ok: "counted k tr s" and b: "gate_step (Leave i) s = Some (answer, t)"
  shows "counted k (tr @ [(Leave i, answer)]) t"
proof -
  have "gt_limiter t = gt_limiter s" using b by (auto split: if_splits)
  moreover have "set (still_open k (tr @ [(Leave i, answer)])) \<subseteq> set (still_open k tr)"
    using set_delete_subset by (simp add: snocs)
  moreover have "guesses k (tr @ [(Leave i, answer)]) = guesses k tr" "began k (tr @ [(Leave i, answer)]) = began k tr"
    "seen (tr @ [(Leave i, answer)]) = seen tr" by (simp_all add: snocs)
  ultimately show ?thesis using ok unfolding counted_def by (metis subsetD)
qed

lemma counted_reached:
  assumes "gate_run tr s" and "one_at_a_time k tr" and "sorted (began k tr)" and "card (seen tr) \<le> LIMITER_SOURCES_MAX"
  shows "counted k tr s"
  using assms
proof (induction rule: gate_run.induct)
  case Opened
  then show ?case using limited_new by (simp add: counted_def nils gate_new_def)
next
  case (Stepped tr s op' answer t)
  let ?x = "(op', answer)"
  note one = one_at_a_timeD [OF Stepped.prems(1)]
  have last: "length (still_open k (tr @ [?x])) \<le> 1"
    using one_at_a_timeD(2) [of k "tr @ [?x]" "[]"] Stepped.prems(1) by simp
  have few: "card (seen tr) \<le> LIMITER_SOURCES_MAX"
    using Stepped.prems(3) card_mono [OF finite_seen [of "tr @ [?x]"], of "seen tr"] by (auto simp: snocs)
  have ok: "counted k tr s" using Stepped.IH [OF one(1) _ few] Stepped.prems(2) by (simp add: snocs sorted_append)
  show ?case
  proof (cases op')
    case (Begin i source now)
    then show ?thesis using counted_begin [OF ok] Stepped.hyps(2) Stepped.prems(2) last by blast
  next
    case (Count i)
    then show ?thesis using counted_count [OF ok Stepped.hyps(1) _ few one(2)] Stepped.hyps(2) by blast
  next
    case (Leave i)
    then show ?thesis using counted_leave [OF ok] Stepped.hyps(2) by blast
  qed
qed

lemma let_through:
  assumes "counted k tr s" and "gate_step (Begin i source now) s = Some (Let_Through, t)" and "limiter_key source = k"
    and "sorted (began k tr @ [now])" and "a \<le> now" and "now < a + AUTH_FAILURE_WINDOW"
  shows "in_window a (guesses k tr) < AUTH_FAILURE_LIMIT"
proof -
  obtain r m where c: "auth_check source now (gt_limiter s) = (r, m)" by fastforce
  then have r: "r = Inr ()" using assms(2) by (auto split: if_splits sum.splits)
  note cm = auth_checkD(1) [OF c, unfolded assms(3)]
  have "limited (guesses k tr) (began k tr @ [now]) (limiter_of m k)"
    using assms(1) limited_check [OF _ cm] by (simp add: counted_def)
  from limited_window [OF this, of now a] limiter_checkD(1) [OF cm r] assms(4-6)
  show ?thesis by (auto simp: in_window_def sorted_append)
qed

text \<open>C11: A source that waits for each answer cannot guess fast, however its requests interleave with those of
  up to 1023 others, if the clock does not run backwards for it: no sixty seconds hold more than ten of its
  attempts that were told to be wrong, and an attempt that is let through, right or wrong, finds fewer than ten
  in any sixty seconds around it, so once ten are told the others are refused unseen. (A request with a valid
  token asks nothing of the limiter and is no attempt.)\<close>

theorem guesses_are_limited:
  assumes "gate_run tr s" and "one_at_a_time k tr" and "sorted (began k tr)" and "card (seen tr) \<le> LIMITER_SOURCES_MAX"
  shows "in_window a (guesses k tr) \<le> AUTH_FAILURE_LIMIT
    \<and> (\<forall>pre i source now post. tr = pre @ (Begin i source now, Let_Through) # post \<longrightarrow> limiter_key source = k
        \<longrightarrow> a \<le> now \<longrightarrow> now < a + AUTH_FAILURE_WINDOW \<longrightarrow> in_window a (guesses k pre) < AUTH_FAILURE_LIMIT)"
proof (intro conjI allI impI)
  show "in_window a (guesses k tr) \<le> AUTH_FAILURE_LIMIT"
    using counted_reached [OF assms] by (simp add: counted_def limited_def)
next
  fix pre i source now post
  assume tr: "tr = pre @ (Begin i source now, Let_Through) # post" and w: "limiter_key source = k" "a \<le> now"
    "now < a + AUTH_FAILURE_WINDOW"
  let ?x = "(Begin i source now, Let_Through)"
  from gate_run_prefix [of "pre @ [?x]" post s] assms(1) obtain t where "gate_run (pre @ [?x]) t" by (auto simp: tr)
  then obtain u where u: "gate_run pre u" "gate_step (Begin i source now) u = Some (Let_Through, t)"
    using gate_run_snocD by blast
  have "seen pre \<subseteq> seen tr" by (auto simp: tr seen_def)
  then have few: "card (seen pre) \<le> LIMITER_SOURCES_MAX"
    using assms(4) card_mono [OF finite_seen [of tr]] by (meson le_trans)
  have began: "sorted (began k pre @ [now])" using assms(3) w(1) by (simp add: tr began_def sorted_append)
  then have "counted k pre u"
    using counted_reached [OF u(1) one_at_a_timeD(1) _ few] assms(2) by (auto simp: tr sorted_append)
  then show "in_window a (guesses k pre) < AUTH_FAILURE_LIMIT" using u(2) w began by (intro let_through)
qed

section \<open>What the limiter does not stop\<close>

text \<open>A valid token passes whatever the limiter says, from any source: so a guess at a token is answered during
  a lockout too, and only the wrong ones are told to wait.\<close>

lemma a_lockout_stops_no_valid_token:
  "fst (authenticate digest header source now db_ok now_ms (s\<lparr>ac_limiter := m\<rparr>)) = Inr d
     \<longleftrightarrow> fst (authenticate digest header source' now' db_ok now_ms s) = Inr d"
  by (auto simp: authenticate_def remote_authenticate_def remote_device_by_hash_def remote_device_touch_def Let_def
      split: option.splits prod.splits sum.splits if_splits)




fun access_answers :: "(byte list \<Rightarrow> byte list) \<Rightarrow> access_op list \<Rightarrow> access \<Rightarrow> access_answer list \<times> access" where
  "access_answers digest [] s = ([], s)"
| "access_answers digest (op' # ops) s =
     (let (a, t) = access_step digest op' s; (as, u) = access_answers digest ops t in (a # as, u))"

lemma access_answers_append:
  "access_answers digest (xs @ ys) s
     = (let (as, t) = access_answers digest xs s; (bs, u) = access_answers digest ys t in (as @ bs, u))"
  by (induction xs arbitrary: s) (auto split: prod.split)

lemma access_answers_run:
  "access_run digest tr s \<Longrightarrow> access_answers digest ops s = (as, t) \<Longrightarrow> access_run digest (tr @ zip ops as) t"
proof (induction ops arbitrary: tr s as)
  case (Cons op' ops)
  obtain a u bs where "access_step digest op' s = (a, u)" "access_answers digest ops u = (bs, t)" "as = a # bs"
    using Cons.prems(2) by (auto split: prod.splits)
  with Cons.IH [OF access_run.Step [OF Cons.prems(1)]] show ?case by fastforce
qed simp

text \<open>C12: Once 1024 sources have failed within the last minute, the failures of any other source are not counted:
  as many codes as it likes are tried, all at one instant, and each is told to be wrong and none to wait.\<close>

theorem a_full_table_counts_no_more_sources:
  assumes "LIMITER_SOURCES_MAX \<le> length (ac_limiter s)"
    and "\<forall>x \<in> set (ac_limiter s). limiter_is_active now (snd x)"
    and "map_of (ac_limiter s) (limiter_key source) = None"
    and "ac_pairing s = Some p" and "validate_device_name name = Inr n"
    and "\<forall>code \<in> set codes. into_bytes (hash_secret digest code) \<noteq> into_bytes (pr_code_hash p)"
  shows "access_answers digest (map (\<lambda>code. Pair source now code name random db_ok now_ms) codes) s
    = (map (\<lambda>_. Refused (Not_Paired Code_Invalid)) codes, s)"
  using assms(6)
proof (induction codes)
  case (Cons code codes)
  have "filter (\<lambda>x. limiter_is_active now (snd x)) (ac_limiter s) = ac_limiter s"
    using assms(2) by (simp add: filter_id_conv)
  then have "auth_failed source now (ac_limiter s) = ac_limiter s" "auth_check source now (ac_limiter s) = (Inr (), ac_limiter s)"
    using assms(1,3) by (simp_all add: auth_failed_def auth_check_def Let_def)
  moreover have "redeem_pairing digest code now_ms s = (Inl Code_Invalid, s)"
    using assms(4) Cons.prems by (auto simp: redeem_pairing_def)
  ultimately have "access_step digest (Pair source now code name random db_ok now_ms) s
      = (Refused (Not_Paired Code_Invalid), s)"
    using assms(5) by (simp add: pair_request_def remote_pair_def)
  with Cons show ?case by simp
qed simp

section \<open>Sample runs\<close>

definition sample_digest :: "byte list \<Rightarrow> byte list" where "sample_digest b = b"

definition flood_source :: "nat \<Rightarrow> ip_addr" where "flood_source i = V6 (word_of_nat (i + 2))"

definition sample_header :: "ctext option" where "sample_header = Some (map of_char ''Bearer x'')"

definition sample_text :: ctext where "sample_text = map of_char ''02''"

lemma sample_secrets:
  "hex [1] = [48, 49]" "hex [2] = [48, 50]" "sample_text = [48, 50]"
  "hash_secret sample_digest [48, 49] = [51, 48, 51, 49]" "hash_secret sample_digest [48, 50] = [51, 48, 51, 50]"
  by (simp_all add: hex_def hex_digit_def hash_secret_def sample_digest_def trim_text_def is_whitespace_def
      into_bytes_def encode_char_def sample_text_def)

lemma sample_name: "validate_device_name [65] = Inr [65]"
  by (simp add: validate_device_name_def trim_text_def is_whitespace_def is_control_def DEVICE_NAME_MAX_def)

definition flood_op :: "nat \<Rightarrow> access_op" where
  "flood_op i = Api sample_header (flood_source i) 0 True 0 (Read_Route ''x'')"

lemma unat_flood: "unat (word_of_nat (i + 2) :: 128 word) = i + 2" if "i \<le> 1024"
proof -
  have "unat (word_of_nat (i + 2) :: 128 word) = take_bit LENGTH(128) (i + 2)"
    by (subst unsigned_of_nat) (simp only: of_nat_id)
  also have "\<dots> = i + 2" by (rule take_bit_nat_eq_self) (use that in simp)
  finally show ?thesis .
qed

lemma flood_source_key: "limiter_key (flood_source i) = Some (flood_source i)" if "i \<le> 1024"
proof -
  let ?a = "word_of_nat (i + 2) :: 128 word"
  have u: "unat ?a = i + 2" by (rule unat_flood [OF that])
  have "?a \<noteq> 1"
  proof
    assume "?a = 1"
    then have "unat ?a = 1" by simp
    with u show False by simp
  qed
  moreover have "drop_bit 32 ?a \<noteq> 0xFFFF"
  proof
    assume d: "drop_bit 32 ?a = 0xFFFF"
    have "unat (drop_bit 32 ?a) = drop_bit 32 (unat ?a)" 
      by (metis take_bit_nat_eq_self unsigned_drop_bit_eq unsigned_less)
    also have "\<dots> = 0" using u that by (simp add: drop_bit_eq_div)
    finally show False unfolding d by simp
  qed
  ultimately show ?thesis by (simp add: flood_source_def to_ipv4_mapped_def)
qed

lemma flood_source_inj: "i \<le> 1024 \<Longrightarrow> j \<le> 1024 \<Longrightarrow> flood_source i = flood_source j \<longleftrightarrow> i = j"
  unfolding flood_source_def ip_addr.inject using unat_flood [of i] unat_flood [of j] by (metis add_right_cancel)

definition flooded :: "nat \<Rightarrow> access" where
  "flooded n = (snd (start_pairing sample_digest [1] 0 access_new))
     \<lparr>ac_limiter := map (\<lambda>i. (Some (flood_source i), \<lparr>fl_failures = [0], fl_locked_until = None\<rparr>)) [0..<n]\<rparr>"

lemma flooded_simps [simp]:
  "ac_limiter (flooded n)
     = map (\<lambda>i. (Some (flood_source i), \<lparr>fl_failures = [0], fl_locked_until = None\<rparr>)) [0..<n]"
  "ac_devices (flooded n) = []" "ac_revoked_hashes (flooded n) = []"
  by (simp_all add: flooded_def start_pairing_def access_new_def Let_def)

lemma flooded_apart: "map_of (ac_limiter (flooded i)) (Some (flood_source i)) = None" if "i \<le> 1024"
  using that by (auto simp: map_of_eq_None_iff flood_source_inj)

lemma update_absent: "map_of m k = None \<Longrightarrow> AList.update k v m = m @ [(k, v)]"
  by (induction m) (auto split: if_splits)

lemma record_first: "record_failure 0 limiter_default = \<lparr>fl_failures = [0], fl_locked_until = None\<rparr>"
  by (simp add: record_failure_def limiter_default_def AUTH_FAILURE_LIMIT_def)

lemma sample_bearer: "bearer sample_header = Some (map of_char ''x'')"
  by (simp add: bearer_def sample_header_def trim_text_def is_whitespace_def)

lemma flood_step:
  assumes "i < 1024"
  shows "access_step sample_digest (flood_op i) (flooded i) = (Refused (Invalid_Token False), flooded (Suc i))"
proof -
  have k: "limiter_key (flood_source i) = Some (flood_source i)" using assms by (intro flood_source_key) simp
  have a: "map_of (ac_limiter (flooded i)) (limiter_key (flood_source i)) = None"
    unfolding k using assms by (intro flooded_apart) simp
  then have "auth_check (flood_source i) 0 (ac_limiter (flooded i)) = (Inr (), ac_limiter (flooded i))"
    by (simp add: auth_check_def)
  moreover have "auth_failed (flood_source i) 0 (ac_limiter (flooded i)) = ac_limiter (flooded (Suc i))"
    unfolding auth_failed_def Let_def update_absent [OF a] a option.case record_first
    using assms k by (simp add: LIMITER_SOURCES_MAX_def)
  moreover have "flooded i\<lparr>ac_limiter := ac_limiter (flooded (Suc i))\<rparr> = flooded (Suc i)" by (simp add: flooded_def)
  ultimately show ?thesis
    by (simp add: flood_op_def authorize_def authenticate_def sample_bearer remote_authenticate_def
        remote_device_by_hash_def was_revoked_def del: flooded_simps(1))
qed

lemma flood: "n \<le> 1024 \<Longrightarrow> access_answers sample_digest (map flood_op [0..<n]) (flooded 0)
    = (replicate n (Refused (Invalid_Token False)), flooded n)"
proof (induction n)
  case (Suc n)
  then show ?case using flood_step [of n] by (simp add: access_answers_append replicate_append_same)
qed simp

lemma flooded_start: "access_step sample_digest (Start_Pairing [1] 0) access_new = (Code (hex [1]), flooded 0)"
  by (simp add: flooded_def start_pairing_def access_new_def Let_def)

theorem a_full_table_counts_no_more_sources_witness:
  "fst (access_answers sample_digest
     (Start_Pairing [1] 0 # map flood_op [0..<1024]
       @ replicate 5000 (Pair (flood_source 1024) 0 [48] [65] [] True 0)) access_new)
   = Code (hex [1]) # replicate 1024 (Refused (Invalid_Token False))
       @ replicate 5000 (Refused (Not_Paired Code_Invalid))"
proof -
  have k: "limiter_key (flood_source 1024) = Some (flood_source 1024)" by (rule flood_source_key) simp
  have p: "ac_pairing (flooded 1024)
      = Some \<lparr>pr_code_hash = hash_secret sample_digest (hex [1]), pr_expires_ms = PAIRING_TTL_MS\<rparr>"
    by (simp add: flooded_def start_pairing_def Let_def)
  have "access_answers sample_digest
      (map (\<lambda>code. Pair (flood_source 1024) 0 code [65] [] True 0) (replicate 5000 [48])) (flooded 1024)
    = (map (\<lambda>_. Refused (Not_Paired Code_Invalid)) (replicate 5000 [48 :: nat]), flooded 1024)"
  proof (rule a_full_table_counts_no_more_sources [OF _ _ _ p sample_name])
    show "LIMITER_SOURCES_MAX \<le> length (ac_limiter (flooded 1024))" by (simp add: LIMITER_SOURCES_MAX_def)
    show "\<forall>x \<in> set (ac_limiter (flooded 1024)). limiter_is_active 0 (snd x)"
      by (simp add: limiter_is_active_def AUTH_FAILURE_WINDOW_def SECOND_def)
    show "map_of (ac_limiter (flooded 1024)) (limiter_key (flood_source 1024)) = None"
      unfolding k by (rule flooded_apart) simp
    have "into_bytes (hash_secret sample_digest [48]) \<noteq> into_bytes (hash_secret sample_digest (hex [1]))" by code_simp
    then show "\<forall>code \<in> set (replicate 5000 [48]). into_bytes (hash_secret sample_digest code)
        \<noteq> into_bytes (pr_code_hash \<lparr>pr_code_hash = hash_secret sample_digest (hex [1]), pr_expires_ms = PAIRING_TTL_MS\<rparr>)"
      by simp
  qed
  then show ?thesis using flood [of 1024]
    by (simp only: access_answers.simps access_answers_append flooded_start case_prod_conv Let_def fst_conv
        map_replicate order_refl simp_thms True_implies_equals)
qed

text \<open>A code is shown, a device pairs with it, is let in, and is given the observe tier.\<close>

definition access_sample_ops :: "access_op list" where
  "access_sample_ops = [Start_Pairing [1] 0, Pair (V4 1) 0 (hex [1]) [65] [2] True 5, Set_Tier 1 Observe True]"

definition access_sample_answers :: "access_answer list" where
  "access_sample_answers = [Code (hex [1]), Paired (hex [2]) 1, Done True]"

definition sample_token :: "ctext option" where "sample_token = Some (map of_char ''Bearer 02'')"

lemma sample_token_bearer: "bearer sample_token = Some sample_text"
  by (simp add: bearer_def sample_token_def sample_text_def trim_text_def is_whitespace_def)

lemmas access_evals = access_new_def start_pairing_def pair_request_def auth_check_def remote_pair_def
  redeem_pairing_def remote_device_insert_def remote_device_set_tier_def PAIRING_TTL_MS_def sample_secrets sample_name

lemma access_sample_evaluates: "access_answers sample_digest access_sample_ops access_new
   = (access_sample_answers, snd (access_answers sample_digest access_sample_ops access_new))"
  by (simp add: access_sample_ops_def access_sample_answers_def access_evals)

lemma access_sample_run: "access_run sample_digest (zip access_sample_ops access_sample_answers) (snd (access_answers sample_digest access_sample_ops access_new))"
  using access_answers_run [OF access_run.Boot access_sample_evaluates] by simp

theorem a_code_pairs_one_device_in_time_witness:
  "\<exists>before shown t0 mid. [(Start_Pairing [1] 0, Code (hex [1]))] = before @ (Start_Pairing shown t0, Code (hex shown)) # mid
    \<and> hash_secret sample_digest (hex [1]) = hash_secret sample_digest (hex shown) \<and> 5 < t0 + PAIRING_TTL_MS"
proof -
  have "access_run sample_digest ([(Start_Pairing [1] 0, Code (hex [1]))]
      @ (Pair (V4 1) 0 (hex [1]) [65] [2] True 5, Paired (hex [2]) 1) # [(Set_Tier 1 Observe True, Done True)])
      (snd (access_answers sample_digest access_sample_ops access_new))"
    using access_sample_run by (simp add: access_sample_ops_def access_sample_answers_def)
  from a_code_pairs_one_device_in_time [OF this] show ?thesis by blast
qed

theorem only_paired_devices_get_in_witness:
  "\<exists>before source' now' code name random db_ok' now_ms' issued mid.
    zip access_sample_ops access_sample_answers = before @ (Pair source' now' code name random db_ok' now_ms', Paired issued 1) # mid
    \<and> hash_secret sample_digest sample_text = hash_secret sample_digest issued
    \<and> Revoke 1 True \<notin> fst ` set mid \<and> route_needs (Read_Route ''sessions'') \<le> tier_after 1 mid"
proof -
  let ?s = "snd (access_answers sample_digest access_sample_ops access_new)"
  let ?d = "\<lparr>dv_id = 1, dv_name = [65], dv_token_hash = hash_secret sample_digest (hex [2]), dv_tier = Observe,
    dv_created_at = 5, dv_last_seen_at = Some 5\<rparr>"
  have "fst (authorize sample_digest sample_token (V4 1) 0 True 7 (Read_Route ''sessions'') ?s) = Inr ?d"
    by (simp add: access_sample_ops_def access_evals authorize_def authenticate_def sample_token_bearer
        remote_authenticate_def remote_device_by_hash_def LAST_SEEN_WRITE_INTERVAL_MS_def less_remote_tier_def)
  then obtain t where t: "authorize sample_digest sample_token (V4 1) 0 True 7 (Read_Route ''sessions'') ?s = (Inr ?d, t)"
    by (metis prod.collapse)
  from only_paired_devices_get_in [OF access_sample_run t] sample_token_bearer show ?thesis by (simp only: option.inject device.simps) blast
qed

text \<open>Twelve wrong guesses one after the other: ten are answered, two told to wait.\<close>

definition guess_ops :: "gate_op list" where
  "guess_ops = concat (map (\<lambda>i. [Begin i (V4 1) 0, Count i]) [0..<10]) @ [Begin 10 (V4 1) 0, Begin 11 (V4 1) 0]"

definition guess_trace :: gate_trace where
  "guess_trace = concat (map (\<lambda>i. [(Begin i (V4 1) 0, Let_Through), (Count i, Told_Wrong)]) [0..<10])
     @ [(Begin 10 (V4 1) 0, Told_To_Wait 60), (Begin 11 (V4 1) 0, Told_To_Wait 60)]"

lemma guess_zip: "zip guess_ops (map snd guess_trace) = guess_trace"
  by code_simp

lemma guess_evaluates: "\<exists>t. gate_steps guess_ops gate_new = Some (map snd guess_trace, t)"
proof -
  have k: "limiter_key (V4 1) = Some (V4 1)" by (simp add: v4_is_loopback_def)
  have u: "[0..<10] = [0, 1, 2, 3, 4, 5, 6, 7, 8, 9 :: nat]" by code_simp
  show ?thesis
    by (simp add: guess_ops_def guess_trace_def u gate_new_def auth_check_def auth_failed_def k
        record_failure_def limiter_check_def limiter_default_def AUTH_FAILURE_LIMIT_def AUTH_FAILURE_WINDOW_def
        AUTH_LOCKOUT_def SECOND_def LIMITER_SOURCES_MAX_def Let_def del: limiter_key.simps)
qed

theorem guesses_are_limited_witness:
  "in_window 0 (guesses (Some (V4 1)) guess_trace) = 10 \<and> in_window 0 (guesses (Some (V4 1)) guess_trace) \<le> AUTH_FAILURE_LIMIT"
proof
  obtain t where "gate_steps guess_ops gate_new = Some (map snd guess_trace, t)" using guess_evaluates by blast
  from gate_steps_run [OF gate_run.Opened this] have r: "gate_run guess_trace t" by (simp add: guess_zip)
  have k: "one_at_a_time (Some (V4 1)) guess_trace" "sorted (began (Some (V4 1)) guess_trace)" by code_simp+
  have "seen guess_trace = {Some (V4 1)}" by code_simp
  then have "card (seen guess_trace) \<le> LIMITER_SOURCES_MAX" by (simp add: LIMITER_SOURCES_MAX_def)
  from guesses_are_limited [OF r k this]
  show "in_window 0 (guesses (Some (V4 1)) guess_trace) \<le> AUTH_FAILURE_LIMIT" by blast
  have "guesses (Some (V4 1)) guess_trace = replicate 10 0" by code_simp
  then show "in_window 0 (guesses (Some (V4 1)) guess_trace) = 10"
    by (simp add: in_window_def AUTH_FAILURE_WINDOW_def SECOND_def)
qed

end
