(* ===== verification/Phone_Notify.thy ===== *)
theory Phone_Notify
  imports Phone_Hooks Phone_Access
begin

text \<open>
  Push notifications: the status reports of \<^verbatim>\<open>remote/mod.rs\<close> and \<^verbatim>\<open>daemon/remote.rs\<close>, the desktop's presence,
  the loop \<open>remote_notify_loop\<close> that waits and sends (\<^verbatim>\<open>daemon/remote.rs\<close>), and the message (\<^verbatim>\<open>remote/ntfy.rs\<close>).
  Every section under a lock is a step and the loop's phases are explicit, so the other operations may come in
  between. What the keychain gives as the topic, the origin of a URL and the masking of secrets are
  arguments; the configuration and the panes change as the rest of the daemon likes. The tables are lists of
  pairs, in the order their iteration has. The loop has no end: the daemon keeps a sender of its queue.
\<close>

definition STATUS_QUEUE :: nat where "STATUS_QUEUE = 1024"
definition DESKTOP_AWAY_SECS :: nat where "DESKTOP_AWAY_SECS = 180"
definition PANE_NAME_MAX :: nat where "PANE_NAME_MAX = 80"

section \<open>The message\<close>

datatype notify_kind = Kind_Needs_Input | Kind_Finished

datatype notify_detail = Generic | Pane_Name

record message =
  ms_body :: ctext
  ms_click :: ctext
  ms_priority :: string
  ms_tags :: string

definition compose ::
  "(ctext \<Rightarrow> ctext) \<Rightarrow> notify_kind \<Rightarrow> notify_detail \<Rightarrow> ctext \<Rightarrow> ctext \<Rightarrow> nat \<Rightarrow> message" where
  "compose redact kind detail pane_name open_url session =
     (let name = trim_text (take PANE_NAME_MAX (filter (\<lambda>c. \<not> is_control c) (redact pane_name)));
          named = (detail = Pane_Name \<and> name \<noteq> []) in
      \<lparr>ms_body = (case kind of
           Kind_Needs_Input \<Rightarrow> (if named then name @ ctext_of '' needs your input''
                                else ctext_of ''An agent needs your input'')
         | Kind_Finished \<Rightarrow> (if named then name @ ctext_of '' finished its turn''
                             else ctext_of ''An agent finished its turn'')),
       ms_click = rev (dropWhile (\<lambda>c. c = 47) (rev open_url)) @ ctext_of ''#session='' @ ctext_of (dec session),
       ms_priority = (case kind of Kind_Needs_Input \<Rightarrow> ''high'' | Kind_Finished \<Rightarrow> ''default''),
       ms_tags = (case kind of Kind_Needs_Input \<Rightarrow> ''warning'' | Kind_Finished \<Rightarrow> ''white_check_mark'')\<rparr>)"

section \<open>State\<close>

record notify_config =
  nc_enabled :: bool
  nc_delay_secs :: nat
  nc_detail :: notify_detail
  nc_finished :: bool
  nc_server :: "ctext option"
  nc_url :: ctext

record pane =
  pn_hidden :: bool
  pn_live :: bool
  pn_title :: ctext

record seen_status =
  sn_status :: agent_status
  sn_since_ms :: nat
  sn_epoch :: nat

record status_event =
  ev_session :: nat
  ev_from :: "agent_status option"
  ev_to :: agent_status
  ev_epoch :: nat

record pending_notification =
  nf_event :: status_event
  nf_kind :: notify_kind
  nf_due :: nat

datatype loop_phase =
    At_Top
  | Waiting "nat option"
  | Taken pending_notification
  | Loading pending_notification nat nat

record notifier =
  nt_config :: notify_config
  nt_revision :: nat
  nt_generation :: nat
  nt_panes :: "(nat \<times> pane) list"
  nt_next_epoch :: nat
  nt_seen :: "(nat \<times> seen_status) list"
  nt_queue :: "status_event list"
  nt_pending :: "(nat \<times> pending_notification) list"
  nt_presence :: "(nat \<times> nat) option"
  nt_phase :: loop_phase

definition notifier_new :: "notify_config \<Rightarrow> notifier" where
  "notifier_new cfg = \<lparr>nt_config = cfg, nt_revision = 0, nt_generation = 0, nt_panes = [], nt_next_epoch = 1,
     nt_seen = [], nt_queue = [], nt_pending = [], nt_presence = None, nt_phase = At_Top\<rparr>"

section \<open>Status reports\<close>

definition note_status :: "nat \<Rightarrow> agent_status \<Rightarrow> nat \<Rightarrow> notifier \<Rightarrow> agent_status option \<times> notifier" where
  "note_status session status now_ms s =
     (let epoch = nt_next_epoch s;
          from' = map_option sn_status (map_of (nt_seen s) session);
          ev = \<lparr>ev_session = session, ev_from = from', ev_to = status, ev_epoch = epoch\<rparr> in
      (from', s\<lparr>nt_next_epoch := epoch + 1,
         nt_seen := AList.update session \<lparr>sn_status = status, sn_since_ms = now_ms, sn_epoch = epoch\<rparr> (nt_seen s),
         nt_pending := AList.delete session (nt_pending s),
         nt_queue := (if length (nt_queue s) < STATUS_QUEUE then nt_queue s @ [ev] else nt_queue s)\<rparr>))"

text \<open>The part of \<open>remote_note_status\<close> before it turns to the feed.\<close>

definition note_transition :: "nat \<Rightarrow> agent_status \<Rightarrow> nat \<Rightarrow> notifier \<Rightarrow> bool \<times> notifier" where
  "note_transition session status now_ms s =
     (if map_of (nt_panes s) session = None then (False, s)
      else
        let t = snd (note_status session status now_ms s) in
        (True, if SEEN_PRUNE_AT < length (nt_seen t)
               then t\<lparr>nt_seen := filter (\<lambda>x. map_of (nt_panes t) (fst x) \<noteq> None) (nt_seen t)\<rparr> else t))"

definition remote_forget_session :: "nat \<Rightarrow> notifier \<Rightarrow> notifier" where
  "remote_forget_session session s =
     s\<lparr>nt_pending := AList.delete session (nt_pending s), nt_seen := AList.delete session (nt_seen s)\<rparr>"

section \<open>Presence\<close>

definition hold_until :: "nat \<Rightarrow> nat option \<Rightarrow> notifier \<Rightarrow> notifier" where
  "hold_until conn until s =
     (case until of
        Some u \<Rightarrow> s\<lparr>nt_presence := Some (conn, u)\<rparr>
      | None \<Rightarrow> if map_option fst (nt_presence s) = Some conn then s\<lparr>nt_presence := None\<rparr> else s)"

definition report_presence :: "nat \<Rightarrow> bool \<Rightarrow> nat \<Rightarrow> notifier \<Rightarrow> notifier" where
  "report_presence conn active now =
     hold_until conn (if active then Some (now + DESKTOP_AWAY_SECS * SECOND) else None)"

definition forget_presence :: "nat \<Rightarrow> notifier \<Rightarrow> notifier" where
  "forget_presence conn s =
     (if map_option fst (nt_presence s) = Some conn then s\<lparr>nt_presence := None\<rparr> else s)"

definition presence_hold :: "nat \<Rightarrow> notifier \<Rightarrow> nat option" where
  "presence_hold now s = filter_option (\<lambda>until. now < until) (map_option snd (nt_presence s))"

section \<open>The loop\<close>

definition current :: "status_event \<Rightarrow> notifier \<Rightarrow> bool" where
  "current ev s \<longleftrightarrow> map_option sn_epoch (map_of (nt_seen s) (ev_session ev)) = Some (ev_epoch ev)"

definition still_wanted :: "notifier \<Rightarrow> nat \<times> pending_notification \<Rightarrow> bool" where
  "still_wanted s x \<longleftrightarrow> nc_enabled (nt_config s) \<and> nc_server (nt_config s) \<noteq> None
     \<and> (nf_kind (snd x) \<noteq> Kind_Finished \<or> nc_finished (nt_config s))
     \<and> map_option sn_epoch (map_of (nt_seen s) (fst x)) = Some (ev_epoch (nf_event (snd x)))
     \<and> map_of (nt_panes s) (fst x) \<noteq> None"

definition loop_top :: "nat \<Rightarrow> notifier \<Rightarrow> notifier" where
  "loop_top now s =
     (let pending = filter (still_wanted s) (nt_pending s);
          wait = (\<lambda>n. case presence_hold now s of None \<Rightarrow> nf_due n | Some h \<Rightarrow> max (nf_due n) h) in
      s\<lparr>nt_pending := pending,
        nt_phase := Waiting (if pending = [] then None else Some (Min (wait ` snd ` set pending)))\<rparr>)"

definition event_kind :: "notify_config \<Rightarrow> status_event \<Rightarrow> notify_kind option" where
  "event_kind cfg ev =
     (if ev_to ev = Agent_NeedsInput then Some Kind_Needs_Input
      else if ev_from ev = Some Agent_Working \<and> ev_to ev = Agent_Idle \<and> nc_finished cfg then Some Kind_Finished
      else None)"

definition receive :: "nat \<Rightarrow> status_event \<Rightarrow> notifier \<Rightarrow> notifier" where
  "receive now ev s =
     (if \<not> nc_enabled (nt_config s) \<or> nc_server (nt_config s) = None \<or> map_of (nt_panes s) (ev_session ev) = None
        \<or> \<not> current ev s then s
      else case event_kind (nt_config s) ev of
          None \<Rightarrow> s
        | Some kind \<Rightarrow> s\<lparr>nt_pending := AList.update (ev_session ev)
            \<lparr>nf_event = ev, nf_kind = kind, nf_due = now + nc_delay_secs (nt_config s) * SECOND\<rparr> (nt_pending s)\<rparr>)"

definition first_due :: "nat \<Rightarrow> (nat \<times> pending_notification) list \<Rightarrow> (nat \<times> pending_notification) option" where
  "first_due now pending =
     (let ready = filter (\<lambda>x. nf_due (snd x) \<le> now) pending in
      List.find (\<lambda>x. nf_due (snd x) = Min (nf_due ` snd ` set ready)) ready)"

definition take_due :: "nat \<Rightarrow> notifier \<Rightarrow> notifier" where
  "take_due now s =
     (case (if presence_hold now s \<noteq> None then None else first_due now (nt_pending s)) of
        None \<Rightarrow> s\<lparr>nt_phase := At_Top\<rparr>
      | Some (session, n) \<Rightarrow> s\<lparr>nt_pending := AList.delete session (nt_pending s), nt_phase := Taken n\<rparr>)"

text \<open>\<open>remote_send_notification\<close>: first what it remembers, then, when the topic has been read, the checks and
  the message.\<close>

definition may_send ::
  "(ctext \<Rightarrow> ctext option) \<Rightarrow> ctext \<Rightarrow> pending_notification \<Rightarrow> nat \<Rightarrow> nat \<Rightarrow> notifier \<Rightarrow> bool" where
  "may_send server_of url n revision generation s \<longleftrightarrow>
     revision = nt_revision s \<and> generation = nt_generation s \<and> nc_enabled (nt_config s)
     \<and> nc_server (nt_config s) \<noteq> None \<and> nc_server (nt_config s) = server_of url
     \<and> \<not> (nf_kind n = Kind_Finished \<and> \<not> nc_finished (nt_config s)) \<and> current (nf_event n) s"

definition send_notification ::
  "(ctext \<Rightarrow> ctext) \<Rightarrow> (ctext \<Rightarrow> ctext option) \<Rightarrow> ctext option \<Rightarrow> pending_notification \<Rightarrow> nat \<Rightarrow> nat \<Rightarrow> notifier
     \<Rightarrow> message option" where
  "send_notification redact server_of url n revision generation s =
     (case url of
        None \<Rightarrow> None
      | Some url \<Rightarrow>
          if \<not> may_send server_of url n revision generation s then None
          else case map_of (nt_panes s) (ev_session (nf_event n)) of
              None \<Rightarrow> None
            | Some p \<Rightarrow>
                if pn_hidden p \<or> \<not> pn_live p then None
                else Some (compose redact (nf_kind n) (nc_detail (nt_config s)) (pn_title p)
                       (nc_url (nt_config s)) (ev_session (nf_event n))))"

section \<open>Runs\<close>

text \<open>\<open>Configure\<close> carries whether the topic itself was set too; \<open>Panes\<close> replaces the table of sessions.\<close>

datatype notify_op =
    Note nat agent_status nat
  | Forget nat
  | Panes "(nat \<times> pane) list"
  | Configure notify_config bool
  | Presence nat bool nat
  | Forget_Presence nat
  | Loop_Top nat
  | Loop_Receive nat
  | Loop_Wake
  | Loop_Fire nat
  | Loop_Load
  | Loop_Send "ctext option"

datatype notify_answer = Quiet | Noted | Sent pending_notification message

fun notify_step ::
  "(ctext \<Rightarrow> ctext) \<Rightarrow> (ctext \<Rightarrow> ctext option) \<Rightarrow> notify_op \<Rightarrow> notifier \<Rightarrow> (notify_answer \<times> notifier) option" where
  "notify_step redact server_of (Note session status now_ms) s =
     (let (b, t) = note_transition session status now_ms s in Some (if b then Noted else Quiet, t))"
| "notify_step redact server_of (Forget session) s = Some (Quiet, remote_forget_session session s)"
| "notify_step redact server_of (Panes panes) s = Some (Quiet, s\<lparr>nt_panes := panes\<rparr>)"
| "notify_step redact server_of (Configure cfg topic) s =
     Some (Quiet, s\<lparr>nt_config := cfg, nt_revision := nt_revision s + 1,
       nt_generation := nt_generation s + (if topic then 1 else 0)\<rparr>)"
| "notify_step redact server_of (Presence conn active now) s = Some (Quiet, report_presence conn active now s)"
| "notify_step redact server_of (Forget_Presence conn) s = Some (Quiet, forget_presence conn s)"
| "notify_step redact server_of (Loop_Top now) s =
     (if nt_phase s = At_Top then Some (Quiet, loop_top now s) else None)"
| "notify_step redact server_of (Loop_Receive now) s =
     (case (nt_phase s, nt_queue s) of
        (Waiting _, ev # evs) \<Rightarrow> Some (Quiet, (receive now ev (s\<lparr>nt_queue := evs\<rparr>))\<lparr>nt_phase := At_Top\<rparr>)
      | _ \<Rightarrow> None)"
| "notify_step redact server_of Loop_Wake s =
     (case nt_phase s of Waiting _ \<Rightarrow> Some (Quiet, s\<lparr>nt_phase := At_Top\<rparr>) | _ \<Rightarrow> None)"
| "notify_step redact server_of (Loop_Fire now) s =
     (case nt_phase s of
        Waiting (Some due) \<Rightarrow> if due \<le> now then Some (Quiet, take_due now s) else None
      | _ \<Rightarrow> None)"
| "notify_step redact server_of Loop_Load s =
     (case nt_phase s of
        Taken n \<Rightarrow> Some (Quiet, s\<lparr>nt_phase := Loading n (nt_revision s) (nt_generation s)\<rparr>)
      | _ \<Rightarrow> None)"
| "notify_step redact server_of (Loop_Send url) s =
     (case nt_phase s of
        Loading n revision generation \<Rightarrow>
          Some (case send_notification redact server_of url n revision generation s of None \<Rightarrow> Quiet | Some m \<Rightarrow> Sent n m,
                s\<lparr>nt_phase := At_Top\<rparr>)
      | _ \<Rightarrow> None)"

type_synonym notify_trace = "(notify_op \<times> notify_answer) list"

inductive notify_run ::
  "(ctext \<Rightarrow> ctext) \<Rightarrow> (ctext \<Rightarrow> ctext option) \<Rightarrow> notify_config \<Rightarrow> notify_trace \<Rightarrow> notifier \<Rightarrow> bool"
  for redact server_of cfg where
  Booted: "notify_run redact server_of cfg [] (notifier_new cfg)"
| Stepped: "notify_run redact server_of cfg tr s \<Longrightarrow> notify_step redact server_of op' s = Some (answer, t)
    \<Longrightarrow> notify_run redact server_of cfg (tr @ [(op', answer)]) t"

end
