(* ===== verification/Phone_Notify_Runs.thy ===== *)
theory Phone_Notify_Runs
  imports Phone_Notify "HOL-Library.Multiset"
begin

text \<open>
  What holds of push notifications in every run: one tells the status a pane still has, once, not before its
  delay is over and not while the desktop is in use.
\<close>

section \<open>Tables\<close>

lemma map_of_filter_present:
  "map_of (filter (\<lambda>x. \<exists>y. map_of ps (fst x) = Some y) xs) k = (if map_of ps k = None then None else map_of xs k)"
  by (induction xs) auto

lemma set_update_subset: "set (AList.update k v xs) \<subseteq> insert (k, v) (set xs)"
  by (induction xs) auto

lemma distinct_update_values:
  "distinct (map (f \<circ> snd) xs) \<Longrightarrow> f v \<notin> f ` snd ` set xs \<Longrightarrow> distinct (map (f \<circ> snd) (AList.update k v xs))"
proof (induction xs)
  case (Cons x xs)
  then show ?case using set_update_subset [of k v xs] by (cases x) (auto simp: image_iff)
qed simp

lemma distinct_delete_values: "distinct (map f xs) \<Longrightarrow> distinct (map f (AList.delete k xs))"
  by (simp add: AList.delete_eq distinct_map_filter)

lemma set_delete: "set (AList.delete k xs) = {x \<in> set xs. fst x \<noteq> k}"
  by (auto simp: AList.delete_eq)

section \<open>The status a pane has\<close>

definition latest_step :: "notify_op \<times> notify_answer \<Rightarrow> (nat \<Rightarrow> agent_status option) \<Rightarrow> nat \<Rightarrow> agent_status option" where
  "latest_step x m =
     (case fst x of
        Note session status now_ms \<Rightarrow> (if snd x = Noted then m(session \<mapsto> status) else m)
      | Forget session \<Rightarrow> m(session := None)
      | _ \<Rightarrow> m)"

definition latest :: "notify_trace \<Rightarrow> nat \<Rightarrow> agent_status option" where
  "latest tr = fold latest_step tr Map.empty"

lemma latest_snoc [simp]: "latest (tr @ [x]) = latest_step x (latest tr)"
  by (simp add: latest_def)

lemma latest_nil [simp]: "latest [] = Map.empty"
  by (simp add: latest_def)

text \<open>The notifications on their way, and the events of all that is known to the loop.\<close>

definition held :: "notifier \<Rightarrow> pending_notification list" where
  "held s = (case nt_phase s of Taken n \<Rightarrow> [n] | Loading n _ _ \<Rightarrow> [n] | _ \<Rightarrow> [])"

definition in_flight :: "notifier \<Rightarrow> pending_notification set" where
  "in_flight s = set (held s) \<union> snd ` set (nt_pending s)"

definition known :: "notifier \<Rightarrow> status_event set" where
  "known s = set (nt_queue s) \<union> nf_event ` in_flight s"

definition tells_kind :: "notify_kind \<Rightarrow> status_event \<Rightarrow> bool" where
  "tells_kind kind ev \<longleftrightarrow> ev_to ev = (case kind of Kind_Needs_Input \<Rightarrow> Agent_NeedsInput | Kind_Finished \<Rightarrow> Agent_Idle)"

definition epochs_ok :: "notify_trace \<Rightarrow> notifier \<Rightarrow> bool" where
  "epochs_ok tr s \<longleftrightarrow>
     (\<forall>i st. map_of (nt_seen s) i = Some st \<longrightarrow> latest tr i = Some (sn_status st) \<and> sn_epoch st < nt_next_epoch s)
   \<and> (\<forall>ev \<in> known s. ev_epoch ev < nt_next_epoch s
        \<and> (\<forall>i st. map_of (nt_seen s) i = Some st \<longrightarrow> sn_epoch st = ev_epoch ev \<longrightarrow> i = ev_session ev \<and> sn_status st = ev_to ev))
   \<and> (\<forall>n \<in> in_flight s. tells_kind (nf_kind n) (nf_event n))"

text \<open>Steps that report nothing and bring nothing new keep it.\<close>

lemma epochs_ok_mono:
  assumes ok: "epochs_ok tr s" and "nt_next_epoch t = nt_next_epoch s" and "known t \<subseteq> known s"
    and "\<And>n. n \<in> in_flight t \<Longrightarrow> n \<in> in_flight s \<or> tells_kind (nf_kind n) (nf_event n)"
    and "\<And>i st. map_of (nt_seen t) i = Some st \<Longrightarrow> map_of (nt_seen s) i = Some st \<and> latest tr' i = latest tr i"
  shows "epochs_ok tr' t"
  unfolding epochs_ok_def
proof (intro conjI allI ballI impI)
  fix i st assume i: "map_of (nt_seen t) i = Some st"
  then show "latest tr' i = Some (sn_status st)" "sn_epoch st < nt_next_epoch t"
    using ok assms(2) assms(5) [OF i] unfolding epochs_ok_def by auto
next
  fix ev assume "ev \<in> known t"
  then have ev: "ev \<in> known s" using assms(3) by blast
  then show "ev_epoch ev < nt_next_epoch t" using ok assms(2) unfolding epochs_ok_def by auto
  fix i st assume i: "map_of (nt_seen t) i = Some st" and "sn_epoch st = ev_epoch ev"
  then show "i = ev_session ev" "sn_status st = ev_to ev"
    using ok ev assms(5) [OF i] unfolding epochs_ok_def by blast+
next
  fix n assume "n \<in> in_flight t"
  then show "tells_kind (nf_kind n) (nf_event n)" using ok assms(4) [of n] unfolding epochs_ok_def by blast
qed

lemma first_due_in: "first_due now pending = Some x \<Longrightarrow> x \<in> set pending \<and> nf_due (snd x) \<le> now"
  by (force simp: first_due_def find_Some_iff Let_def dest: nth_mem)

lemma take_dueD:
  assumes "nt_phase s = Waiting d"
  shows "in_flight (take_due now s) \<subseteq> in_flight s" and "nt_queue (take_due now s) = nt_queue s"
    and "nt_seen (take_due now s) = nt_seen s" and "nt_next_epoch (take_due now s) = nt_next_epoch s"
    and "nt_panes (take_due now s) = nt_panes s" and "nt_config (take_due now s) = nt_config s"
    and "n \<in> set (held (take_due now s)) \<Longrightarrow> n \<in> snd ` set (nt_pending s) \<and> nf_due n \<le> now \<and> presence_hold now s = None"
  using assms first_due_in [of now "nt_pending s"]
  by (force simp: take_due_def in_flight_def held_def set_delete split: option.splits if_splits prod.splits)+

lemma note_transitionD:
  assumes "note_transition i status now_ms s = (b, t)"
  shows "\<not> b \<Longrightarrow> t = s" and "nt_config t = nt_config s" and "nt_phase t = nt_phase s" and "nt_panes t = nt_panes s"
    and "nt_presence t = nt_presence s" and "set (nt_pending t) \<subseteq> set (nt_pending s)"
    and "b \<Longrightarrow> nt_next_epoch t = nt_next_epoch s + 1"
    and "b \<Longrightarrow> nt_pending t = AList.delete i (nt_pending s)"
    and "b \<Longrightarrow> \<exists>from'. nt_queue t = nt_queue s \<or> nt_queue t = nt_queue s
          @ [\<lparr>ev_session = i, ev_from = from', ev_to = status, ev_epoch = nt_next_epoch s\<rparr>]"
    and "b \<Longrightarrow> map_of (nt_seen t) j = Some st \<Longrightarrow>
          (if j = i then st = \<lparr>sn_status = status, sn_since_ms = now_ms, sn_epoch = nt_next_epoch s\<rparr>
           else map_of (nt_seen s) j = Some st)"
  using assms
  by (auto simp: note_transition_def note_status_def Let_def update_conv set_delete map_of_filter_present
      split: if_splits)

lemma receiveD:
  shows "n \<in> snd ` set (nt_pending (receive now ev s)) \<Longrightarrow> n \<in> snd ` set (nt_pending s) \<or>
      nf_event n = ev \<and> tells_kind (nf_kind n) ev \<and> nf_due n = now + nc_delay_secs (nt_config s) * SECOND"
    and "nt_queue (receive now ev s) = nt_queue s" and "nt_seen (receive now ev s) = nt_seen s"
    and "nt_next_epoch (receive now ev s) = nt_next_epoch s" and "nt_phase (receive now ev s) = nt_phase s"
    and "distinct (map (ev_epoch \<circ> nf_event \<circ> snd) (nt_pending s)) \<Longrightarrow>
      ev_epoch ev \<notin> (ev_epoch \<circ> nf_event) ` snd ` set (nt_pending s) \<Longrightarrow>
      distinct (map (ev_epoch \<circ> nf_event \<circ> snd) (nt_pending (receive now ev s)))"
proof -
  show "n \<in> snd ` set (nt_pending s) \<or>
      nf_event n = ev \<and> tells_kind (nf_kind n) ev \<and> nf_due n = now + nc_delay_secs (nt_config s) * SECOND"
    if n: "n \<in> snd ` set (nt_pending (receive now ev s))"
  proof (cases "n \<in> snd ` set (nt_pending s)")
    case False
    then obtain kind where k: "event_kind (nt_config s) ev = Some kind" "n = \<lparr>nf_event = ev, nf_kind = kind,
        nf_due = now + nc_delay_secs (nt_config s) * SECOND\<rparr>"
      using n set_update_subset by (fastforce simp: receive_def split: if_splits option.splits)
    then show ?thesis by (auto simp: event_kind_def tells_kind_def split: if_splits)
  qed simp
  show "distinct (map (ev_epoch \<circ> nf_event \<circ> snd) (nt_pending (receive now ev s)))"
    if "distinct (map (ev_epoch \<circ> nf_event \<circ> snd) (nt_pending s))"
      "ev_epoch ev \<notin> (ev_epoch \<circ> nf_event) ` snd ` set (nt_pending s)"
    using that distinct_update_values [of "ev_epoch \<circ> nf_event" "nt_pending s"]
    by (simp add: receive_def split: option.split)
qed (auto simp: receive_def split: option.split)

lemma loop_top_simps:
  "nt_pending (loop_top now s) = filter (still_wanted s) (nt_pending s)" "held (loop_top now s) = []"
  "nt_queue (loop_top now s) = nt_queue s" "nt_seen (loop_top now s) = nt_seen s"
  "nt_next_epoch (loop_top now s) = nt_next_epoch s"
  by (simp_all add: loop_top_def Let_def held_def)

lemma presence_steps [simp]:
  "nt_seen (report_presence conn active now s) = nt_seen s" "nt_seen (forget_presence conn s) = nt_seen s"
  "nt_queue (report_presence conn active now s) = nt_queue s" "nt_queue (forget_presence conn s) = nt_queue s"
  "nt_pending (report_presence conn active now s) = nt_pending s" "nt_pending (forget_presence conn s) = nt_pending s"
  "nt_phase (report_presence conn active now s) = nt_phase s" "nt_phase (forget_presence conn s) = nt_phase s"
  "nt_next_epoch (report_presence conn active now s) = nt_next_epoch s"
  "nt_next_epoch (forget_presence conn s) = nt_next_epoch s"
  by (simp_all add: report_presence_def forget_presence_def hold_until_def split: option.split)

text \<open>The operations that only move on.\<close>

fun plain_op :: "notify_op \<Rightarrow> bool" where
  "plain_op (Panes _) = True" | "plain_op (Configure _ _) = True" | "plain_op (Presence _ _ _) = True"
| "plain_op (Forget_Presence _) = True" | "plain_op Loop_Wake = True" | "plain_op Loop_Load = True"
| "plain_op (Loop_Send _) = True" | "plain_op _ = False"

lemma moving_step:
  assumes "plain_op op'" and "notify_step redact server_of op' s = Some (answer, t)"
  shows "nt_queue t = nt_queue s" and "nt_seen t = nt_seen s" and "nt_pending t = nt_pending s"
    and "nt_next_epoch t = nt_next_epoch s" and "set (held t) \<subseteq> set (held s)"
    and "latest_step (op', answer) m = m"
  using assms by (cases op'; auto simp: held_def latest_step_def split: loop_phase.splits)+

lemma epochs_ok_plain:
  assumes ok: "epochs_ok tr s" and "plain_op op'" and "notify_step redact server_of op' s = Some (answer, t)"
  shows "epochs_ok (tr @ [(op', answer)]) t"
proof -
  note p = moving_step [OF assms(2,3)]
  have fl: "in_flight t \<subseteq> in_flight s" using p(3,5) by (auto simp: in_flight_def)
  then have "known t \<subseteq> known s" using p(1) by (auto simp: known_def)
  then show ?thesis using p(2,4,6) fl by (intro epochs_ok_mono [OF ok]) auto
qed

lemma epochs_ok_step:
  assumes ok: "epochs_ok tr s" and st: "notify_step redact server_of op' s = Some (answer, t)"
  shows "epochs_ok (tr @ [(op', answer)]) t"
proof (cases op')
  case (Note i status now_ms)
  obtain b where b: "note_transition i status now_ms s = (b, t)" "answer = (if b then Noted else Quiet)"
    using st Note by (auto split: prod.splits)
  note d = note_transitionD [OF b(1)]
  have fl: "in_flight t \<subseteq> in_flight s" using d(3,6) by (auto simp: in_flight_def held_def)
  show ?thesis
  proof (cases b)
    case False
    then show ?thesis using d(1) b(2) ok Note by (intro epochs_ok_mono [OF ok]) (auto simp: latest_step_def)
  next
    case True
    from d(9) [OF True] obtain from' where "nt_queue t = nt_queue s \<or> nt_queue t = nt_queue s
        @ [\<lparr>ev_session = i, ev_from = from', ev_to = status, ev_epoch = nt_next_epoch s\<rparr>]" by blast
    then have q: "set (nt_queue t) \<subseteq> insert \<lparr>ev_session = i, ev_from = from', ev_to = status,
        ev_epoch = nt_next_epoch s\<rparr> (set (nt_queue s))" by auto
    have kn: "ev \<in> known s \<or> ev = \<lparr>ev_session = i, ev_from = from', ev_to = status, ev_epoch = nt_next_epoch s\<rparr>"
      if "ev \<in> known t" for ev using that q fl by (auto simp: known_def)
    have seen: "latest (tr @ [(op', answer)]) j = Some (sn_status x) \<and> sn_epoch x < nt_next_epoch t
        \<and> (j = i \<and> sn_status x = status \<and> sn_epoch x = nt_next_epoch s \<or> j \<noteq> i \<and> map_of (nt_seen s) j = Some x)"
      if "map_of (nt_seen t) j = Some x" for j x
      using d(10) [OF True that] ok d(7) [OF True] True b(2) Note
      by (auto simp: epochs_ok_def latest_step_def less_Suc_eq split: if_splits)
    have "\<forall>ev \<in> known t. ev_epoch ev < nt_next_epoch t
        \<and> (\<forall>j x. map_of (nt_seen t) j = Some x \<longrightarrow> sn_epoch x = ev_epoch ev \<longrightarrow> j = ev_session ev \<and> sn_status x = ev_to ev)"
    proof
      fix ev assume "ev \<in> known t"
      from kn [OF this] show "ev_epoch ev < nt_next_epoch t
        \<and> (\<forall>j x. map_of (nt_seen t) j = Some x \<longrightarrow> sn_epoch x = ev_epoch ev \<longrightarrow> j = ev_session ev \<and> sn_status x = ev_to ev)"
      proof
        assume ev: "ev \<in> known s"
        then have "ev_epoch ev < nt_next_epoch s" using ok by (auto simp: epochs_ok_def)
        moreover have "j = ev_session ev \<and> sn_status x = ev_to ev"
          if "map_of (nt_seen s) j = Some x" "sn_epoch x = ev_epoch ev" for j x
          using ok ev that unfolding epochs_ok_def by blast
        ultimately show ?thesis using seen d(7) [OF True] by fastforce
      next
        assume ev: "ev = \<lparr>ev_session = i, ev_from = from', ev_to = status, ev_epoch = nt_next_epoch s\<rparr>"
        have "sn_epoch x < nt_next_epoch s" if "map_of (nt_seen s) j = Some x" for j x
          using ok that unfolding epochs_ok_def by blast
        then show ?thesis using seen ev d(7) [OF True] by fastforce
      qed
    qed
    then show ?thesis using seen fl ok unfolding epochs_ok_def by blast
  qed
next
  case (Forget i)
  then have a: "answer = Quiet" "t = remote_forget_session i s" using st by auto
  have fl: "in_flight t \<subseteq> in_flight s" unfolding a
    by (auto simp: remote_forget_session_def in_flight_def held_def set_delete)
  then have "known t \<subseteq> known s" unfolding a by (auto simp: remote_forget_session_def known_def)
  then show ?thesis using a fl Forget
    by (intro epochs_ok_mono [OF ok]) (auto simp: remote_forget_session_def latest_step_def delete_conv' split: if_splits)
next
  case (Loop_Top now)
  then have a: "answer = Quiet" "t = loop_top now s" using st by (auto split: if_splits)
  have fl: "in_flight t \<subseteq> in_flight s" unfolding a(2) by (auto simp: in_flight_def loop_top_simps)
  then have "known t \<subseteq> known s" unfolding a(2) by (auto simp: known_def loop_top_simps)
  then show ?thesis using a fl Loop_Top
    by (intro epochs_ok_mono [OF ok]) (auto simp: loop_top_simps latest_step_def)
next
  case (Loop_Receive now)
  then obtain d ev evs where ph: "nt_phase s = Waiting d" "nt_queue s = ev # evs" and a: "answer = Quiet"
    "t = (receive now ev (s\<lparr>nt_queue := evs\<rparr>))\<lparr>nt_phase := At_Top\<rparr>"
    using st by (auto split: loop_phase.splits list.splits)
  have new: "n \<in> in_flight s \<or> nf_event n = ev \<and> tells_kind (nf_kind n) ev" if "n \<in> in_flight t" for n
    using that receiveD(1) [of n now ev "s\<lparr>nt_queue := evs\<rparr>"] a(2) by (auto simp: in_flight_def held_def)
  moreover have "nt_queue t = evs" using a(2) receiveD(2) by simp
  ultimately have "known t \<subseteq> known s" using ph(2) unfolding known_def by fastforce
  then show ?thesis using new a Loop_Receive receiveD(3,4)
    by (intro epochs_ok_mono [OF ok]) (auto simp: latest_step_def)
next
  case (Loop_Fire now)
  then obtain d where ph: "nt_phase s = Waiting d" and a: "answer = Quiet" "t = take_due now s"
    using st by (auto split: loop_phase.splits option.splits if_splits)
  note d = take_dueD [OF ph]
  have fl: "in_flight t \<subseteq> in_flight s" unfolding a by (rule d(1))
  then have "known t \<subseteq> known s" using d(2) unfolding known_def a by auto
  then show ?thesis using d(3,4) fl a Loop_Fire by (intro epochs_ok_mono [OF ok]) (auto simp: latest_step_def)
qed (rule epochs_ok_plain [OF ok _ st]; simp)+

lemma epochs_reached: "notify_run redact server_of cfg tr s \<Longrightarrow> epochs_ok tr s"
proof (induction rule: notify_run.induct)
  case Booted
  then show ?case by (simp add: epochs_ok_def notifier_new_def known_def in_flight_def held_def)
qed (rule epochs_ok_step)

lemma epochs_okD:
  assumes "epochs_ok tr s" and "ev \<in> known s" and "map_of (nt_seen s) i = Some st" and "sn_epoch st = ev_epoch ev"
  shows "latest tr i = Some (ev_to ev)"
proof -
  have "sn_status st = ev_to ev" "latest tr i = Some (sn_status st)" using assms unfolding epochs_ok_def by blast+
  then show ?thesis by simp
qed

lemma notify_run_split:
  assumes "notify_run redact server_of cfg (pre @ x # post) t"
  shows "\<exists>s u. notify_run redact server_of cfg pre s \<and> notify_step redact server_of (fst x) s = Some (snd x, u)"
  using assms
proof (induction post arbitrary: t rule: rev_induct)
  case Nil
  then show ?case by (cases rule: notify_run.cases) auto
next
  case (snoc y post)
  from snoc.prems obtain s where "notify_run redact server_of cfg (pre @ x # post) s"
    by (cases rule: notify_run.cases) auto
  then show ?case by (rule snoc.IH)
qed

text \<open>C13: A notification tells the truth: the last status reported for its pane, since it was last forgotten, is
  still the one the notification tells; and remote access, its topic's server, and for finished turns their
  switch are on in the configuration of that moment, and the pane is open, live and not hidden.\<close>

theorem a_notification_tells_the_last_status:
  assumes "notify_run redact server_of cfg (pre @ (Loop_Send url, Sent n m) # post) t"
  shows "latest pre (ev_session (nf_event n))
      = Some (case nf_kind n of Kind_Needs_Input \<Rightarrow> Agent_NeedsInput | Kind_Finished \<Rightarrow> Agent_Idle)
    \<and> (\<exists>s topic p. notify_run redact server_of cfg pre s \<and> url = Some topic
        \<and> nc_enabled (nt_config s) \<and> nc_server (nt_config s) = server_of topic \<and> server_of topic \<noteq> None
        \<and> (nf_kind n = Kind_Finished \<longrightarrow> nc_finished (nt_config s))
        \<and> map_of (nt_panes s) (ev_session (nf_event n)) = Some p \<and> \<not> pn_hidden p \<and> pn_live p)"
proof -
  from notify_run_split [OF assms] obtain s u where s: "notify_run redact server_of cfg pre s"
    and st: "notify_step redact server_of (Loop_Send url) s = Some (Sent n m, u)" by auto
  then obtain revision generation where ph: "nt_phase s = Loading n revision generation"
    and m: "send_notification redact server_of url n revision generation s = Some m"
    by (auto split: loop_phase.splits option.splits)
  then obtain topic p where v: "url = Some topic" "may_send server_of topic n revision generation s"
    "map_of (nt_panes s) (ev_session (nf_event n)) = Some p" "\<not> pn_hidden p" "pn_live p"
    by (auto simp: send_notification_def split: option.splits if_splits)
  have n: "n \<in> in_flight s" "nf_event n \<in> known s" using ph by (simp_all add: in_flight_def held_def known_def)
  from v(2) obtain st where "map_of (nt_seen s) (ev_session (nf_event n)) = Some st" "sn_epoch st = ev_epoch (nf_event n)"
    by (auto simp: may_send_def current_def)
  with epochs_okD [OF epochs_reached [OF s] n(2)]
  have l: "latest pre (ev_session (nf_event n)) = Some (ev_to (nf_event n))" by blast
  have f: "tells_kind (nf_kind n) (nf_event n)" using epochs_reached [OF s] n(1) by (simp add: epochs_ok_def)
  have "nc_enabled (nt_config s)" "nc_server (nt_config s) = server_of topic" "server_of topic \<noteq> None"
    "nf_kind n = Kind_Finished \<longrightarrow> nc_finished (nt_config s)" using v(2) by (auto simp: may_send_def)
  with s v(1,3-5) have "\<exists>s topic p. notify_run redact server_of cfg pre s \<and> url = Some topic
        \<and> nc_enabled (nt_config s) \<and> nc_server (nt_config s) = server_of topic \<and> server_of topic \<noteq> None
        \<and> (nf_kind n = Kind_Finished \<longrightarrow> nc_finished (nt_config s))
        \<and> map_of (nt_panes s) (ev_session (nf_event n)) = Some p \<and> \<not> pn_hidden p \<and> pn_live p" by blast
  with l f show ?thesis unfolding tells_kind_def by simp
qed

section \<open>Once\<close>

lemma distinct_map_submset:
  assumes "distinct (map f xs)" and "mset ys \<subseteq># mset xs"
  shows "distinct (map f ys)"
proof -
  from assms(2) obtain zs where "mset xs = mset (ys @ zs)"
    by (metis ex_mset mset_append subset_mset.add_diff_inverse)
  then have "mset (map f xs) = mset (map f (ys @ zs))" by (metis mset_map)
  with assms(1) have "distinct (map f (ys @ zs))" by (metis mset_eq_imp_distinct_iff)
  then show ?thesis by simp
qed

lemma subset_add_mset: "M \<subseteq># add_mset x M"
  by (simp add: subseteq_mset_def)

lemma values_delete: "mset (map f (AList.delete k xs)) \<subseteq># mset (map f xs)"
proof (induction xs)
  case (Cons x xs)
  then show ?case by (cases "fst x = k") (auto intro: subset_mset.order_trans [OF _ subset_add_mset])
qed simp

lemma values_filter: "mset (map f (filter P xs)) \<subseteq># mset (map f xs)"
proof (induction xs)
  case (Cons x xs)
  then show ?case by (cases "P x") (auto intro: subset_mset.order_trans [OF _ subset_add_mset])
qed simp

lemma values_update: "mset (map f (AList.update k v xs)) \<subseteq># add_mset (f (k, v)) (mset (map f xs))"
proof (induction xs)
  case (Cons x xs)
  then show ?case
    by (cases x; cases "fst x = k") (auto simp: subset_add_mset add_mset_commute [of "f (k, v)"])
qed simp

lemma values_take: "(k, v) \<in> set xs \<Longrightarrow> add_mset (f (k, v)) (mset (map f (AList.delete k xs))) \<subseteq># mset (map f xs)"
proof (induction xs)
  case (Cons x xs)
  show ?case
  proof (cases "fst x = k")
    case True
    show ?thesis
    proof (cases "x = (k, v)")
      case True
      then show ?thesis using values_delete [of f k xs] by simp
    next
      case False
      then have "add_mset (f (k, v)) (mset (map f (AList.delete k xs))) \<subseteq># mset (map f xs)" using Cons by auto
      then have "add_mset (f (k, v)) (mset (map f (AList.delete k xs))) \<subseteq># add_mset (f x) (mset (map f xs))"
        by (rule subset_mset.order_trans [OF _ subset_add_mset])
      then show ?thesis using True by (cases x) simp
    qed
  next
    case False
    then have "add_mset (f (k, v)) (mset (map f (AList.delete k xs))) \<subseteq># mset (map f xs)" using Cons by auto
    then show ?thesis using False by (cases x) (simp add: add_mset_commute [of "f (k, v)"])
  qed
qed simp

text \<open>The reports of a run in order, and the notifications sent.\<close>

definition reports :: "notify_trace \<Rightarrow> (nat \<times> agent_status) list" where
  "reports tr = concat (map (\<lambda>x. case x of (Note session status _, Noted) \<Rightarrow> [(session, status)] | _ \<Rightarrow> []) tr)"

definition notified :: "notify_trace \<Rightarrow> pending_notification list" where
  "notified tr = concat (map (\<lambda>x. case snd x of Sent n _ \<Rightarrow> [n] | _ \<Rightarrow> []) tr)"

definition notify_events :: "notify_trace \<Rightarrow> notifier \<Rightarrow> status_event list" where
  "notify_events tr s = map nf_event (notified tr @ held s @ map snd (nt_pending s)) @ nt_queue s"

definition booked_once :: "notify_trace \<Rightarrow> notifier \<Rightarrow> bool" where
  "booked_once tr s \<longleftrightarrow> distinct (map ev_epoch (notify_events tr s)) \<and> nt_next_epoch s = Suc (length (reports tr))
     \<and> (\<forall>ev \<in> set (notify_events tr s). 0 < ev_epoch ev \<and> ev_epoch ev < nt_next_epoch s
          \<and> reports tr ! (ev_epoch ev - 1) = (ev_session ev, ev_to ev))
     \<and> (\<forall>n \<in> set (notified tr). tells_kind (nf_kind n) (nf_event n))"

lemma booked_mono:
  assumes "booked_once tr s" and "mset (notify_events (tr @ [x]) t) \<subseteq># mset (notify_events tr s)"
    and "reports (tr @ [x]) = reports tr" and "nt_next_epoch t = nt_next_epoch s"
    and "\<forall>n \<in> set (notified (tr @ [x])). tells_kind (nf_kind n) (nf_event n)"
  shows "booked_once (tr @ [x]) t"
proof -
  have "set (notify_events (tr @ [x]) t) \<subseteq> set (notify_events tr s)" using set_mset_mono [OF assms(2)] by simp
  then show ?thesis
    using assms(1,3-5) distinct_map_submset [OF _ assms(2)] unfolding booked_once_def by auto
qed

lemma notified_snoc: "notified (tr @ [x]) = notified tr @ (case snd x of Sent n m \<Rightarrow> [n] | _ \<Rightarrow> [])"
  by (simp add: notified_def)

lemma reports_snoc: "reports (tr @ [x])
    = reports tr @ (case x of (Note session status _, Noted) \<Rightarrow> [(session, status)] | _ \<Rightarrow> [])"
  by (simp add: reports_def)

lemma booked_note:
  assumes ok: "booked_once tr s" and st: "note_transition i status now_ms s = (True, t)"
  shows "booked_once (tr @ [(Note i status now_ms, Noted)]) t"
proof -
  note d = note_transitionD [OF st]
  from d(9) [OF TrueI] obtain from' where q: "nt_queue t = nt_queue s \<or> nt_queue t = nt_queue s
      @ [\<lparr>ev_session = i, ev_from = from', ev_to = status, ev_epoch = nt_next_epoch s\<rparr>]" by blast
  let ?ev = "\<lparr>ev_session = i, ev_from = from', ev_to = status, ev_epoch = nt_next_epoch s\<rparr>"
  let ?tr = "tr @ [(Note i status now_ms, Noted)]"
  let ?p = "\<lambda>s. map (nf_event \<circ> snd) (nt_pending s)"
  have "mset (?p t) \<subseteq># mset (?p s)" using d(8) [OF TrueI] values_delete by simp
  moreover have "mset (nt_queue t) \<subseteq># add_mset ?ev (mset (nt_queue s))" using q by (auto simp: subset_add_mset)
  ultimately have "mset (?p t) + mset (nt_queue t) \<subseteq># mset (?p s) + add_mset ?ev (mset (nt_queue s))"
    by (rule subset_mset.add_mono)
  moreover have "held t = held s" using d(3) by (simp add: held_def)
  ultimately have m: "mset (notify_events ?tr t) \<subseteq># mset (?ev # notify_events tr s)"
    by (simp add: notify_events_def notified_snoc)
  have n: "nt_next_epoch s = Suc (length (reports tr))" "nt_next_epoch t = Suc (nt_next_epoch s)"
    using ok d(7) by (simp_all add: booked_once_def)
  have "distinct (map ev_epoch (?ev # notify_events tr s))" using ok by (auto simp: booked_once_def)
  then have "distinct (map ev_epoch (notify_events ?tr t))" by (rule distinct_map_submset [OF _ m])
  moreover have "reports ?tr = reports tr @ [(i, status)]" by (simp add: reports_snoc)
  moreover have "0 < ev_epoch ev \<and> ev_epoch ev < nt_next_epoch t \<and> reports ?tr ! (ev_epoch ev - 1) = (ev_session ev, ev_to ev)"
    if "ev \<in> set (notify_events ?tr t)" for ev
  proof -
    have "ev = ?ev \<or> ev \<in> set (notify_events tr s)" using set_mset_mono [OF m] that by auto
    then show ?thesis
    proof
      assume "ev \<in> set (notify_events tr s)"
      then have "0 < ev_epoch ev" "ev_epoch ev < nt_next_epoch s" "reports tr ! (ev_epoch ev - 1) = (ev_session ev, ev_to ev)"
        using ok unfolding booked_once_def by blast+
      then show ?thesis using n by (auto simp: reports_snoc nth_append)
    qed (use n in \<open>simp add: reports_snoc nth_append\<close>)
  qed
  ultimately show ?thesis using ok n by (simp add: booked_once_def notified_snoc)
qed

lemma take_due_events:
  assumes "nt_phase s = Waiting d"
  shows "mset (map nf_event (held (take_due now s) @ map snd (nt_pending (take_due now s))))
    \<subseteq># mset (map nf_event (held s @ map snd (nt_pending s)))"
proof (cases "if presence_hold now s \<noteq> None then None else first_due now (nt_pending s)")
  case None
  then show ?thesis using assms by (simp add: take_due_def held_def)
next
  case (Some x)
  obtain i n where x: "x = (i, n)" by (cases x)
  have "first_due now (nt_pending s) = Some (i, n)" using Some x by (simp split: if_splits)
  then have "(i, n) \<in> set (nt_pending s)" using first_due_in by blast
  from values_take [OF this, of "nf_event \<circ> snd"] show ?thesis using Some x assms
    by (simp add: take_due_def held_def)
qed

lemma receive_events:
  "mset (map (nf_event \<circ> snd) (nt_pending (receive now ev s))) \<subseteq># add_mset ev (mset (map (nf_event \<circ> snd) (nt_pending s)))"
proof (cases "nt_pending (receive now ev s) = nt_pending s")
  case False
  then obtain n where "nt_pending (receive now ev s) = AList.update (ev_session ev) n (nt_pending s)" "nf_event n = ev"
    by (auto simp: receive_def split: if_splits option.splits)
  then show ?thesis using values_update [of "nf_event \<circ> snd" "ev_session ev" n "nt_pending s"] by simp
qed (simp add: subset_add_mset)

lemma send_tells_kind: "epochs_ok tr s \<Longrightarrow> nt_phase s = Loading n r g \<Longrightarrow> tells_kind (nf_kind n) (nf_event n)"
  by (simp add: epochs_ok_def in_flight_def held_def)

lemma booked_step:
  assumes ok: "booked_once tr s" and ep: "epochs_ok tr s" and st: "notify_step redact server_of op' s = Some (answer, t)"
  shows "booked_once (tr @ [(op', answer)]) t"
proof -
  have old: "\<forall>n \<in> set (notified tr). tells_kind (nf_kind n) (nf_event n)" using ok by (simp add: booked_once_def)
  show ?thesis
  proof (cases op')
    case (Note i status now_ms)
    obtain b where b: "note_transition i status now_ms s = (b, t)" "answer = (if b then Noted else Quiet)"
      using st Note by (auto split: prod.splits)
    show ?thesis
    proof (cases b)
      case True
      then show ?thesis using booked_note [OF ok] b Note by simp
    next
      case False
      then show ?thesis using note_transitionD(1) [OF b(1)] b(2) Note old
        by (intro booked_mono [OF ok]) (auto simp: notify_events_def notified_snoc reports_snoc)
    qed
  next
    case (Forget i)
    then have a: "answer = Quiet" "t = remote_forget_session i s" using st by auto
    then show ?thesis using Forget old values_delete [of "nf_event \<circ> snd" i "nt_pending s"]
      by (intro booked_mono [OF ok])
        (auto simp: notify_events_def notified_snoc reports_snoc remote_forget_session_def held_def)
  next
    case (Loop_Top now)
    then have a: "answer = Quiet" "t = loop_top now s" "held s = []" using st by (auto simp: held_def split: if_splits)
    then show ?thesis using Loop_Top old values_filter [of "nf_event \<circ> snd" "still_wanted s" "nt_pending s"]
      by (intro booked_mono [OF ok]) (auto simp: notify_events_def notified_snoc reports_snoc loop_top_simps)
  next
    case (Loop_Receive now)
    then obtain d ev evs where ph: "nt_phase s = Waiting d" "nt_queue s = ev # evs" and a: "answer = Quiet"
      "t = (receive now ev (s\<lparr>nt_queue := evs\<rparr>))\<lparr>nt_phase := At_Top\<rparr>"
      using st by (auto split: loop_phase.splits list.splits)
    have h: "held s = []" "held t = []" "nt_queue t = evs" "nt_next_epoch t = nt_next_epoch s"
      using ph a receiveD(2,4) by (simp_all add: held_def)
    have "mset (notify_events (tr @ [(op', answer)]) t) \<subseteq># mset (notify_events tr s)"
      using receive_events [of now ev "s\<lparr>nt_queue := evs\<rparr>"] h ph(2) a
      by (simp add: notify_events_def notified_snoc)
    then show ?thesis using h a Loop_Receive old
      by (intro booked_mono [OF ok]) (auto simp: notified_snoc reports_snoc)
  next
    case (Loop_Fire now)
    then obtain d where ph: "nt_phase s = Waiting d" and a: "answer = Quiet" "t = take_due now s"
      using st by (auto split: loop_phase.splits option.splits if_splits)
    have "mset (notify_events (tr @ [(op', answer)]) t) \<subseteq># mset (notify_events tr s)"
      using take_due_events [OF ph, of now] a take_dueD(2) [OF ph] by (simp add: notify_events_def notified_snoc)
    then show ?thesis using a Loop_Fire old take_dueD(4) [OF ph]
      by (intro booked_mono [OF ok]) (auto simp: notified_snoc reports_snoc)
  next
    case (Loop_Send url)
    then obtain n r g where ph: "nt_phase s = Loading n r g" and t: "t = s\<lparr>nt_phase := At_Top\<rparr>"
      and a: "answer = (case send_notification redact server_of url n r g s of None \<Rightarrow> Quiet | Some m \<Rightarrow> Sent n m)"
      using st by (auto split: loop_phase.splits)
    then show ?thesis using old Loop_Send send_tells_kind [OF ep ph]
      by (intro booked_mono [OF ok]) (auto simp: notify_events_def notified_snoc reports_snoc held_def subset_add_mset
          split: option.splits)
  qed (use st old in \<open>intro booked_mono [OF ok]; auto simp: notify_events_def notified_snoc reports_snoc held_def
        split: loop_phase.splits\<close>)+
qed

lemma booked_reached: "notify_run redact server_of cfg tr s \<Longrightarrow> booked_once tr s"
proof (induction rule: notify_run.induct)
  case Booted
  then show ?case by (simp add: booked_once_def notify_events_def notified_def reports_def notifier_new_def held_def)
next
  case (Stepped tr s op' answer t)
  then show ?case using booked_step epochs_reached by blast
qed

text \<open>C14: Nothing is notified twice: in every run, a pane has been notified of a need for input at most as often as
  it reported one, and of a finished turn at most as often as it turned idle.\<close>

theorem no_report_is_notified_twice:
  assumes "notify_run redact server_of cfg tr s"
  shows "length (filter (\<lambda>n. ev_session (nf_event n) = i \<and> nf_kind n = kind) (notified tr))
    \<le> length (filter (\<lambda>x. x = (i, case kind of Kind_Needs_Input \<Rightarrow> Agent_NeedsInput | Kind_Finished \<Rightarrow> Agent_Idle))
         (reports tr))"
proof -
  let ?st = "case kind of Kind_Needs_Input \<Rightarrow> Agent_NeedsInput | Kind_Finished \<Rightarrow> Agent_Idle"
  let ?ns = "filter (\<lambda>n. ev_session (nf_event n) = i \<and> nf_kind n = kind) (notified tr)"
  let ?index = "\<lambda>n. ev_epoch (nf_event n) - 1"
  have ok: "booked_once tr s" using booked_reached [OF assms] .
  have n: "0 < ev_epoch (nf_event n) \<and> ?index n < length (reports tr) \<and> reports tr ! ?index n = (i, ?st)"
    if "n \<in> set ?ns" for n
  proof -
    have ev: "nf_event n \<in> set (notify_events tr s)" using that by (auto simp: notify_events_def)
    then have "0 < ev_epoch (nf_event n)" "ev_epoch (nf_event n) < Suc (length (reports tr))"
      "reports tr ! ?index n = (ev_session (nf_event n), ev_to (nf_event n))"
      using ok by (auto simp: booked_once_def)
    moreover have "tells_kind (nf_kind n) (nf_event n)" using ok that by (auto simp: booked_once_def)
    ultimately show ?thesis using that by (auto simp: tells_kind_def)
  qed
  have "distinct (map (ev_epoch \<circ> nf_event) (notified tr))"
    using ok by (simp add: booked_once_def notify_events_def)
  then have d: "distinct ?ns" "inj_on (ev_epoch \<circ> nf_event) (set ?ns)"
    by (auto simp: distinct_map inj_on_def)
  have "inj_on ?index (set ?ns)"
  proof (rule inj_onI)
    fix x y assume xy: "x \<in> set ?ns" "y \<in> set ?ns" and "?index x = ?index y"
    then have "ev_epoch (nf_event x) = ev_epoch (nf_event y)" using n [OF xy(1)] n [OF xy(2)] by linarith
    then show "x = y" using d(2) xy by (simp add: inj_on_def)
  qed
  then have "card (?index ` set ?ns) = card (set ?ns)" by (rule card_image)
  then have "length ?ns = card (?index ` set ?ns)" using distinct_card [OF d(1)] by simp
  also have "\<dots> \<le> card {k. k < length (reports tr) \<and> reports tr ! k = (i, ?st)}"
    using n by (intro card_mono) auto
  also have "\<dots> = length (filter (\<lambda>x. x = (i, ?st)) (reports tr))" by (simp add: length_filter_conv_card)
  finally show ?thesis .
qed

section \<open>Not too soon\<close>

text \<open>A notification is scheduled when the loop takes its own report in, and becomes due the configured delay
  later; it is taken out of the pending ones when it is due and the desktop is not in use, and no other is
  taken out before it is sent.\<close>

fun is_fire :: "notify_op \<Rightarrow> bool" where
  "is_fire (Loop_Fire now) = True" | "is_fire op' = False"

definition scheduled_since ::
  "(ctext \<Rightarrow> ctext) \<Rightarrow> (ctext \<Rightarrow> ctext option) \<Rightarrow> notify_config \<Rightarrow> notify_trace \<Rightarrow> pending_notification \<Rightarrow> bool" where
  "scheduled_since redact server_of cfg tr n \<longleftrightarrow> (\<exists>p r q u evs. tr = p @ (Loop_Receive r, Quiet) # q
     \<and> notify_run redact server_of cfg p u \<and> nt_queue u = nf_event n # evs
     \<and> nf_due n = r + nc_delay_secs (nt_config u) * SECOND)"

definition fired ::
  "(ctext \<Rightarrow> ctext) \<Rightarrow> (ctext \<Rightarrow> ctext option) \<Rightarrow> notify_config \<Rightarrow> notify_trace \<Rightarrow> pending_notification \<Rightarrow> bool" where
  "fired redact server_of cfg tr n \<longleftrightarrow> (\<exists>p f z v w. tr = p @ (Loop_Fire f, Quiet) # z
     \<and> notify_run redact server_of cfg p v \<and> scheduled_since redact server_of cfg p n
     \<and> n \<in> snd ` set (nt_pending v) \<and> nf_due n \<le> f \<and> presence_hold f v = None
     \<and> notify_step redact server_of (Loop_Fire f) v = Some (Quiet, w) \<and> nt_phase w = Taken n
     \<and> list_all (\<lambda>x. \<not> is_fire (fst x)) z)"

lemma scheduled_since_snoc: "scheduled_since redact server_of cfg tr n \<Longrightarrow> scheduled_since redact server_of cfg (tr @ [x]) n"
  unfolding scheduled_since_def by fastforce

lemma fired_snoc:
  assumes "fired redact server_of cfg tr n" and "\<not> is_fire (fst x)"
  shows "fired redact server_of cfg (tr @ [x]) n"
proof -
  from assms(1) obtain p f z v w where "tr = p @ (Loop_Fire f, Quiet) # z"
    and run: "notify_run redact server_of cfg p v \<and> scheduled_since redact server_of cfg p n
     \<and> n \<in> snd ` set (nt_pending v) \<and> nf_due n \<le> f \<and> presence_hold f v = None
     \<and> notify_step redact server_of (Loop_Fire f) v = Some (Quiet, w) \<and> nt_phase w = Taken n"
    and "list_all (\<lambda>x. \<not> is_fire (fst x)) z" unfolding fired_def by blast
  with assms(2) have "tr @ [x] = p @ (Loop_Fire f, Quiet) # (z @ [x]) \<and> list_all (\<lambda>x. \<not> is_fire (fst x)) (z @ [x])"
    by simp
  with run show ?thesis unfolding fired_def by blast
qed

lemma waits_reached:
  "notify_run redact server_of cfg tr s \<Longrightarrow> (\<forall>n \<in> snd ` set (nt_pending s). scheduled_since redact server_of cfg tr n)
     \<and> (\<forall>n \<in> set (held s). fired redact server_of cfg tr n)"
proof (induction rule: notify_run.induct)
  case Booted
  then show ?case by (simp add: notifier_new_def held_def)
next
  case (Stepped tr s op' answer t)
  let ?x = "(op', answer)"
  have old: "\<forall>n \<in> snd ` set (nt_pending s). scheduled_since redact server_of cfg (tr @ [?x]) n"
    "\<not> is_fire op' \<Longrightarrow> \<forall>n \<in> set (held s). fired redact server_of cfg (tr @ [?x]) n"
    using Stepped.IH by (auto intro: scheduled_since_snoc fired_snoc)
  have keep: ?case if "snd ` set (nt_pending t) \<subseteq> snd ` set (nt_pending s)" "set (held t) \<subseteq> set (held s)" "\<not> is_fire op'"
    using subset_trans [OF that(1), of "{n. scheduled_since redact server_of cfg (tr @ [?x]) n}"]
      subset_trans [OF that(2), of "{n. fired redact server_of cfg (tr @ [?x]) n}"] old(1) old(2) [OF that(3)]
    by (simp add: subset_eq)
  show ?case
  proof (cases op')
    case (Note i status now_ms)
    then obtain b where b: "note_transition i status now_ms s = (b, t)" using Stepped.hyps(2) by (auto split: prod.splits)
    show ?thesis using note_transitionD(3,6) [OF b] by (intro keep) (auto simp: held_def Note)
  next
    case (Forget i)
    then have t: "t = remote_forget_session i s" using Stepped.hyps(2) by auto
    show ?thesis by (rule keep) (auto simp: t remote_forget_session_def held_def set_delete Forget)
  next
    case (Loop_Top now)
    then have t: "t = loop_top now s" using Stepped.hyps(2) by (auto split: if_splits)
    show ?thesis by (rule keep) (auto simp: t loop_top_simps Loop_Top)
  next
    case (Loop_Receive now)
    then obtain d ev evs where ph: "nt_phase s = Waiting d" "nt_queue s = ev # evs" and a: "answer = Quiet"
      "t = (receive now ev (s\<lparr>nt_queue := evs\<rparr>))\<lparr>nt_phase := At_Top\<rparr>"
      using Stepped.hyps(2) by (auto split: loop_phase.splits list.splits)
    have "scheduled_since redact server_of cfg (tr @ [?x]) n" if n: "n \<in> snd ` set (nt_pending t)" for n
    proof -
      have "n \<in> snd ` set (nt_pending s) \<or> nf_event n = ev \<and> nf_due n = now + nc_delay_secs (nt_config s) * SECOND"
        using receiveD(1) [of n now ev "s\<lparr>nt_queue := evs\<rparr>"] n a(2) by auto
      then show ?thesis
      proof
        assume "nf_event n = ev \<and> nf_due n = now + nc_delay_secs (nt_config s) * SECOND"
        then have "tr @ [?x] = tr @ (Loop_Receive now, Quiet) # [] \<and> notify_run redact server_of cfg tr s
            \<and> nt_queue s = nf_event n # evs \<and> nf_due n = now + nc_delay_secs (nt_config s) * SECOND"
          using Stepped.hyps(1) Loop_Receive a(1) ph(2) by simp
        then show ?thesis unfolding scheduled_since_def by blast
      qed (use old(1) in blast)
    qed
    moreover have "held t = []" using a(2) by (simp add: held_def)
    ultimately show ?thesis by simp
  next
    case (Loop_Fire now)
    then obtain d where ph: "nt_phase s = Waiting d" and a: "answer = Quiet" "t = take_due now s"
      using Stepped.hyps(2) by (auto split: loop_phase.splits option.splits if_splits)
    have "snd ` set (nt_pending t) \<subseteq> in_flight t" by (auto simp: in_flight_def)
    moreover have "held s = []" using ph by (simp add: held_def)
    ultimately have pend: "snd ` set (nt_pending t) \<subseteq> snd ` set (nt_pending s)"
      using take_dueD(1) [OF ph, of now] a(2) by (auto simp: in_flight_def)
    have taken: "nt_phase t = Taken n" if "n \<in> set (held t)" for n
      using that unfolding a(2) take_due_def by (auto simp: held_def ph(1) split: option.splits prod.splits if_splits)
    have held: "fired redact server_of cfg (tr @ [?x]) n" if "n \<in> set (held t)" for n
    proof -
      have "n \<in> snd ` set (nt_pending s)" "nf_due n \<le> now" "presence_hold now s = None"
        using take_dueD(7) [OF ph, of n now] that a(2) by simp_all
      moreover from this(1) have "scheduled_since redact server_of cfg tr n" using Stepped.IH by blast
      ultimately have "tr @ [?x] = tr @ (Loop_Fire now, Quiet) # [] \<and> notify_run redact server_of cfg tr s
          \<and> scheduled_since redact server_of cfg tr n \<and> n \<in> snd ` set (nt_pending s) \<and> nf_due n \<le> now
          \<and> presence_hold now s = None \<and> notify_step redact server_of (Loop_Fire now) s = Some (Quiet, t)
          \<and> nt_phase t = Taken n \<and> list_all (\<lambda>x. \<not> is_fire (fst x)) ([] :: notify_trace)"
        using Stepped.hyps(1,2) Loop_Fire a(1) taken [OF that] by simp
      then show ?thesis unfolding fired_def by blast
    qed
    show ?thesis
    proof (intro conjI ballI held)
      fix n assume "n \<in> snd ` set (nt_pending t)"
      then have "n \<in> snd ` set (nt_pending s)" by (rule subsetD [OF pend])
      then show "scheduled_since redact server_of cfg (tr @ [?x]) n" by (rule bspec [OF old(1)])
    qed
  qed (rule keep; simp add: moving_step(3,5) [OF _ Stepped.hyps(2)])+
qed

text \<open>C15: No notification is sent too soon. For every notification sent, the loop took its own report off the
  queue at an instant, and it became due the delay later that the configuration then gave; when it was due the
  loop took it from the pending ones while nobody was using the desktop, and took no other until it was sent.\<close>

theorem notifications_wait_for_delay_and_desk:
  assumes "notify_run redact server_of cfg (pre @ (Loop_Send url, Sent n m) # post) t"
  shows "\<exists>p r q f z u v w evs. pre = p @ (Loop_Receive r, Quiet) # q @ (Loop_Fire f, Quiet) # z
    \<and> notify_run redact server_of cfg p u \<and> nt_queue u = nf_event n # evs
    \<and> nf_due n = r + nc_delay_secs (nt_config u) * SECOND
    \<and> notify_run redact server_of cfg (p @ (Loop_Receive r, Quiet) # q) v
    \<and> n \<in> snd ` set (nt_pending v) \<and> nf_due n \<le> f \<and> presence_hold f v = None
    \<and> notify_step redact server_of (Loop_Fire f) v = Some (Quiet, w) \<and> nt_phase w = Taken n
    \<and> list_all (\<lambda>x. \<not> is_fire (fst x)) z"
proof -
  from notify_run_split [OF assms] obtain s w where s: "notify_run redact server_of cfg pre s"
    and "notify_step redact server_of (Loop_Send url) s = Some (Sent n m, w)" by auto
  then obtain r g where "nt_phase s = Loading n r g" by (auto split: loop_phase.splits option.splits)
  then have "n \<in> set (held s)" by (simp add: held_def)
  then have "fired redact server_of cfg pre n" using waits_reached [OF s] by blast
  then obtain p f z v w where f: "pre = p @ (Loop_Fire f, Quiet) # z" "notify_run redact server_of cfg p v"
    "scheduled_since redact server_of cfg p n" "n \<in> snd ` set (nt_pending v)" "nf_due n \<le> f" "presence_hold f v = None"
    "notify_step redact server_of (Loop_Fire f) v = Some (Quiet, w)" "nt_phase w = Taken n"
    "list_all (\<lambda>x. \<not> is_fire (fst x)) z" unfolding fired_def by blast
  from f(3) obtain p' r q u evs where "p = p' @ (Loop_Receive r, Quiet) # q" "notify_run redact server_of cfg p' u"
    "nt_queue u = nf_event n # evs" "nf_due n = r + nc_delay_secs (nt_config u) * SECOND"
    unfolding scheduled_since_def by blast
  with f show ?thesis
    by (intro exI [of _ p'] exI [of _ r] exI [of _ q] exI [of _ f] exI [of _ z] exI [of _ u] exI [of _ v] exI [of _ w]
        exI [of _ evs]) (simp del: notify_step.simps)
qed

section \<open>A sample run\<close>

fun notify_steps ::
  "(ctext \<Rightarrow> ctext) \<Rightarrow> (ctext \<Rightarrow> ctext option) \<Rightarrow> notify_op list \<Rightarrow> notifier \<Rightarrow> (notify_answer list \<times> notifier) option" where
  "notify_steps redact server_of [] s = Some ([], s)"
| "notify_steps redact server_of (op' # ops) s =
     (case notify_step redact server_of op' s of
        None \<Rightarrow> None
      | Some (a, t) \<Rightarrow>
          (case notify_steps redact server_of ops t of None \<Rightarrow> None | Some (as, u) \<Rightarrow> Some (a # as, u)))"

lemma notify_steps_run:
  "notify_run redact server_of cfg tr s \<Longrightarrow> notify_steps redact server_of ops s = Some (as, t)
     \<Longrightarrow> notify_run redact server_of cfg (tr @ zip ops as) t"
proof (induction ops arbitrary: tr s as)
  case (Cons op' ops)
  obtain a u bs where "notify_step redact server_of op' s = Some (a, u)" "notify_steps redact server_of ops u = Some (bs, t)"
    "as = a # bs" using Cons.prems(2) by (auto split: option.splits)
  with Cons.IH [OF notify_run.Stepped [OF Cons.prems(1)]] show ?case by fastforce
qed simp

definition desk_config :: notify_config where
  "desk_config = \<lparr>nc_enabled = True, nc_delay_secs = 30, nc_detail = Generic, nc_finished = False,
     nc_server = Some [1], nc_url = []\<rparr>"

definition desk_notification :: pending_notification where
  "desk_notification = \<lparr>nf_event = \<lparr>ev_session = 7, ev_from = None, ev_to = Agent_NeedsInput, ev_epoch = 1\<rparr>,
     nf_kind = Kind_Needs_Input, nf_due = 30 * SECOND\<rparr>"

definition desk_ops :: "notify_op list" where
  "desk_ops = [Panes [(7, \<lparr>pn_hidden = False, pn_live = True, pn_title = []\<rparr>)], Note 7 Agent_NeedsInput 0, Loop_Top 0,
     Loop_Receive 0, Loop_Top 0, Loop_Fire (31 * SECOND), Loop_Load]"

definition desk_message :: message where
  "desk_message = compose id Kind_Needs_Input Generic [] [] 7"

lemma desk_evaluates: "\<exists>t. notify_steps id (\<lambda>_. Some [1]) (desk_ops @ [Loop_Send (Some [2])]) (notifier_new desk_config)
    = Some ([Quiet, Noted, Quiet, Quiet, Quiet, Quiet, Quiet, Sent desk_notification desk_message], t)"
  by (simp add: desk_ops_def notifier_new_def note_transition_def note_status_def SEEN_PRUNE_AT_def STATUS_QUEUE_def
      loop_top_def still_wanted_def receive_def current_def event_kind_def desk_config_def presence_hold_def
      take_due_def first_due_def SECOND_def send_notification_def may_send_def desk_notification_def desk_message_def)

lemma desk_run: "\<exists>t. notify_run id (\<lambda>_. Some [1]) desk_config
    (zip desk_ops [Quiet, Noted, Quiet, Quiet, Quiet, Quiet, Quiet]
      @ (Loop_Send (Some [2]), Sent desk_notification desk_message) # []) t"
proof -
  obtain t where "notify_steps id (\<lambda>_. Some [1]) (desk_ops @ [Loop_Send (Some [2])]) (notifier_new desk_config)
    = Some ([Quiet, Noted, Quiet, Quiet, Quiet, Quiet, Quiet, Sent desk_notification desk_message], t)"
    using desk_evaluates by blast
  from notify_steps_run [OF notify_run.Booted this] show ?thesis by (auto simp: desk_ops_def)
qed

theorem a_notification_tells_the_last_status_witness:
  "latest (zip desk_ops [Quiet, Noted, Quiet, Quiet, Quiet, Quiet, Quiet]) 7 = Some Agent_NeedsInput"
proof -
  obtain t where t: "notify_run id (\<lambda>_. Some [1]) desk_config
    (zip desk_ops [Quiet, Noted, Quiet, Quiet, Quiet, Quiet, Quiet]
      @ (Loop_Send (Some [2]), Sent desk_notification desk_message) # []) t" using desk_run by blast
  from a_notification_tells_the_last_status [OF t] show ?thesis by (simp add: desk_notification_def)
qed

theorem no_report_is_notified_twice_witness:
  "length (filter (\<lambda>n. ev_session (nf_event n) = 7 \<and> nf_kind n = Kind_Needs_Input)
      (notified (zip desk_ops [Quiet, Noted, Quiet, Quiet, Quiet, Quiet, Quiet]
        @ (Loop_Send (Some [2]), Sent desk_notification desk_message) # []))) = 1
   \<and> 1 \<le> length (filter (\<lambda>x. x = (7, Agent_NeedsInput))
      (reports (zip desk_ops [Quiet, Noted, Quiet, Quiet, Quiet, Quiet, Quiet]
        @ (Loop_Send (Some [2]), Sent desk_notification desk_message) # [])))"
proof -
  obtain t where t: "notify_run id (\<lambda>_. Some [1]) desk_config
    (zip desk_ops [Quiet, Noted, Quiet, Quiet, Quiet, Quiet, Quiet]
      @ (Loop_Send (Some [2]), Sent desk_notification desk_message) # []) t" using desk_run by blast
  have one: "length (filter (\<lambda>n. ev_session (nf_event n) = 7 \<and> nf_kind n = Kind_Needs_Input)
      (notified (zip desk_ops [Quiet, Noted, Quiet, Quiet, Quiet, Quiet, Quiet]
        @ (Loop_Send (Some [2]), Sent desk_notification desk_message) # []))) = 1"
    by (simp add: notified_def desk_ops_def desk_notification_def)
  from no_report_is_notified_twice [OF t, of 7 Kind_Needs_Input] one show ?thesis by simp
qed

theorem notifications_wait_for_delay_and_desk_witness:
  "\<exists>p r q f z. zip desk_ops [Quiet, Noted, Quiet, Quiet, Quiet, Quiet, Quiet]
      = p @ (Loop_Receive r, Quiet) # q @ (Loop_Fire f, Quiet) # z \<and> nf_due desk_notification \<le> f
    \<and> list_all (\<lambda>x. \<not> is_fire (fst x)) z"
proof -
  obtain t where t: "notify_run id (\<lambda>_. Some [1]) desk_config
    (zip desk_ops [Quiet, Noted, Quiet, Quiet, Quiet, Quiet, Quiet]
      @ (Loop_Send (Some [2]), Sent desk_notification desk_message) # []) t" using desk_run by blast
  from notifications_wait_for_delay_and_desk [OF t] show ?thesis by blast
qed

end
