(* ===== verification/Spec2Isabelle.thy ===== *)
theory Spec2Isabelle
  imports Frame_Registry Scrollback Merge_Line Watchdog_Incidents Clocks Delegation Routines
    Blocks Pr_Watch Night_Window Supervisor_Wire Calendar Watchdog_Ingress
    Fs_Allowlist Tray Review_Triage Session_Activity Phone_Properties Phone_Limiter Phone_Notify_Runs
begin

text \<open>
  Houston runs coding agents in terminals. A daemon (\<^verbatim>\<open>core/houston-core\<close>) owns the sessions, speaks to its
  clients over a WebSocket in the messages of \<^verbatim>\<open>core/houston-protocol\<close>, and drives pull requests, a merge
  queue, scheduled routines and Night shifts; a desktop application (\<^verbatim>\<open>src-tauri\<close>) shows it all in a webview
  that a watchdog guards. This library models the parts of the program that decide: the data structures,
  state machines, codecs and rules whose behaviour is in the code itself. Processes, files, SQL, the network
  and the libraries around them are parameters of the model or left out.

  \<^bold>\<open>How the parts interact.\<close> The bytes a terminal writes go into the session's scrollback ring, through the
  scanners for clipboard, title and command marks (whose marks become the ring of command blocks), and into
  one bounded tap per client, from which the connection drains frames; a reconnecting client joins the ring's
  replay to the tap with \<open>attach\<close>. Agents report lifecycle events; the delegation rules turn them into what
  a parent pane hears. Pull requests are read into a detail record; the merge gate decides on it, the watch
  turns two successive reads into wake-ups of a pane, and the merge queue orders the entries and decides which
  one goes next. Routines and Night shifts wait for a time of day. The webview's signals cross a channel into
  the watchdog, whose machine walks the recovery ladder. The agents' hooks also give the line a session shows
  in the rail and, while remote access is on, the conversation that paired devices page through and whose
  cards they answer, by keys typed into the terminal, once the access gate has let them in. The desktop's file
  commands pass a gate of open roots, and its tray menu sums the sessions up.

  \<^bold>\<open>Theories and the code they model.\<close>
  \<^item> \<open>Prelude\<close>, \<open>Rust_Std\<close>: machine integers, byte encodings, searches, and the parts of Rust's standard library
    on text that the code uses (lossy and strict UTF-8, lines, trimming, integers). \<open>Bounded_Log\<close>: the locale of
    logs that append at the back and trim at the front, interpreted by the scrollback ring (\<open>Scrollback\<close>), the
    command blocks (\<open>Blocks\<close>) and the watchdog's round-trip history (\<open>Watchdog\<close>).
  \<^item> \<open>Wire\<close>: the binary frames (\<^verbatim>\<open>houston-protocol/src/lib.rs\<close>). \<open>Frame_Queue\<close>, \<open>Frame_Stream\<close>, \<open>Frame_Registry\<close>:
    \<^verbatim>\<open>frame_queue.rs\<close>; \<open>frame_tap\<close> is \<open>FrameTap\<close> with its locked state, one definition per method. \<open>Frame_Stream\<close>
    holds the abstract view, the positions of a stream with their bytes or a hole, and the theorems on it.
  \<^item> \<open>Scrollback\<close>: \<^verbatim>\<open>scrollback.rs\<close>; the deque is a list with the place where its two slices meet as a parameter.
  \<^item> \<open>Osc_Scan\<close>, \<open>Markers\<close>, \<open>Blocks\<close>: \<^verbatim>\<open>osc52.rs\<close>, \<^verbatim>\<open>osc_title.rs\<close>, \<^verbatim>\<open>markers.rs\<close>, \<^verbatim>\<open>blocks.rs\<close>. The three scanners
    share one loop (\<open>esc_scan\<close>, \<open>osc_feed\<close>) and the locale \<open>chunk_scanner\<close>, which each interprets.
  \<^item> \<open>Pull_Request\<close>, \<open>Pr_Watch\<close>, \<open>Merge_Queue\<close>, \<open>Merge_Line\<close>: \<^verbatim>\<open>pull_requests/mod.rs\<close>, \<^verbatim>\<open>pull_requests/watch.rs\<close>,
    \<^verbatim>\<open>merge_queue.rs\<close> and the protocol's records; every sentence a refusal prints is in the model.
  \<^item> \<open>Agent_Events\<close>, \<open>Delegation\<close>: \<^verbatim>\<open>agent_events.rs\<close> and the pure half of \<^verbatim>\<open>orchestrate.rs\<close>.
  \<^item> \<open>Routines\<close>, \<open>Night_Setup\<close>, \<open>Night_Window\<close>: \<^verbatim>\<open>routines.rs\<close>, \<^verbatim>\<open>night_shift/settings.rs\<close>, \<^verbatim>\<open>limits.rs\<close>,
    \<^verbatim>\<open>night_shift/window.rs\<close> and the times of \<open>night_shift_fire\<close>.
  \<^item> \<open>Watchdog\<close>, \<open>Watchdog_Incidents\<close>, \<open>Clocks\<close>, \<open>Watchdog_Ingress\<close>: \<^verbatim>\<open>src-tauri/src/watchdog/\<close>. \<open>machine\<close> is
    \<open>Machine\<close>, \<open>on_event\<close> its handlers with the records they log; \<open>ingress\<close> is the channel, first as its operations
    and then as atomic steps of interleaved threads (\<open>chan_step\<close>).
  \<^item> \<open>Supervisor_Wire\<close>: \<^verbatim>\<open>supervisor.rs\<close>. \<open>Calendar\<close>: \<^verbatim>\<open>usage/time.rs\<close>. \<open>Review_Triage\<close>: \<^verbatim>\<open>review_triage.rs\<close>.
  \<^item> \<open>Session_Activity\<close>: \<^verbatim>\<open>session_activity.rs\<close> and its use in \<^verbatim>\<open>daemon.rs\<close>, timers included.
  \<^item> \<open>Fs_Allowlist\<close>, \<open>Tray\<close>: \<^verbatim>\<open>src-tauri/src/fs_allowlist.rs\<close> and \<^verbatim>\<open>src-tauri/src/tray/model.rs\<close>.
  \<^item> \<open>Phone_Text\<close>, \<open>Phone_Feed\<close>, \<open>Phone_Decision\<close>: \<^verbatim>\<open>remote/feed.rs\<close>; \<open>store\<close> is \<open>StoreInner\<close>, one definition per
    method. \<open>Phone_Hooks\<close>: how \<^verbatim>\<open>daemon/remote.rs\<close> drives it, each locked section a step (\<open>feed_op\<close>,
    \<open>feed_step\<close>, \<open>feed_run\<close>). \<open>Phone_Feed_Bounds\<close> holds the invariant of the bounds, \<open>Phone_Runs\<close> the locale of
    laws of one session's feed (\<open>feed_law\<close>, interpreted twice), \<open>Phone_Properties\<close> the theorems.
  \<^item> \<open>Phone_Access\<close>, \<open>Phone_Gate\<close>, \<open>Phone_Limiter\<close>: who may use remote access (\<^verbatim>\<open>remote/mod.rs\<close>, \<^verbatim>\<open>remote/http.rs\<close>,
    \<^verbatim>\<open>daemon/remote.rs\<close>, \<^verbatim>\<open>db/remote.rs\<close>), its runs with what each request was answered (\<open>access_run\<close>), and
    the limiter of failed attempts, with the two lock sections of concurrent requests interleaved (\<open>gate_run\<close>).
    \<open>Phone_Notify\<close>, \<open>Phone_Notify_Runs\<close>: push notifications, with the phases of
    \<open>remote_notify_loop\<close> as steps between which everything else may happen (\<open>notify_run\<close>).

  \<^bold>\<open>What the lemmas show.\<close> A tap accounts for every byte (what a client gets and the gaps it is told are the
  stream, in order) within its bounds; the ring is a tail of the stream, replays complete a client exactly,
  and a snapshot loads back. The scanners report the same marks however the output is cut, only genuine ones,
  and carry no more than their caps. The merge gate opens for clean pull requests alone; the queue order
  respects dependencies, enqueueing accepts exactly what keeps it acyclic, and what goes next is clear to
  go. A watch tells each change once and ends when it cannot read. Next runs and Night windows are the first
  of their slots, in the right order and within their limits. The machine reloads within its budget and climbs
  at most two rungs per incident, and reloads or terminates for nothing else, over every reachable run; the ingress channel refines nine slots before a
  bounded queue, delivers urgent signals in bounded time and loses no wake-up. Codecs and stamps round trip, and
  the calendar is the Gregorian one. A path the file commands accept lies under an open root and, asked for
  plainly, crosses no link. Triage lets through exactly what no rule holds back. Clients of a session's
  activity catch up however late the timers are. The phone's feed keeps its bounds and misses nothing
  silently; a card is answered once, by keys no other choice types, and approved only when it was shown in
  full. A device that is let in was paired by a fresh code of its own, not revoked since, and has the tier
  last set for it; a source that waits for its answers cannot guess fast. A notification tells the status its pane still has, once, after
  its delay and not to someone at the desktop. Where the code does not do what it means to, the theorem says so.

  \<^bold>\<open>Choices.\<close> Panics and refusals are values (\<open>None\<close>, \<open>Inl\<close>). Integers are words where wrapping or width
  matters and \<open>nat\<close> or \<open>int\<close> where the code's checks keep them in range. Loops are structural recursions or
  functions with a measure; none needs fuel, and \<open>drain_loop\<close>, \<open>order_loop\<close>, \<open>follow_chain\<close> and the scanners are
  total. Locks make an operation atomic; where one handler takes a lock several times, the steps are the locked
  sections (\<open>feed_step\<close>, \<open>notify_step\<close>, \<open>gate_step\<close>), and in \<open>Watchdog_Ingress\<close> the atomics are the steps.
  \<open>access_step\<close> takes a whole request for pairing, authentication or the device table as one step, \<open>wd_run\<close> feeds
  the machine its events alone (not \<open>note_reload_issued\<close>, which its loop calls when a reload has gone out), and the runs of
  the command blocks start from a new tracker. The clock, \<open>localtime_r\<close>, \<open>mktime\<close>, base64, SHA-256,
  \<open>canonicalize\<close> and the masking of secrets are parameters.

  \<^bold>\<open>Not modelled.\<close> The daemon and server loops (\<^verbatim>\<open>daemon.rs\<close>, \<^verbatim>\<open>server.rs\<close>), which call threads, terminals and
  processes around the parts above; the database (\<^verbatim>\<open>db.rs\<close>), whose behaviour is SQL; git, GitHub, SSH, MCP
  and the provider integrations, which run other programs and parse their output; serde's JSON; the Unicode
  tables and regular expressions of \<^verbatim>\<open>sanitize.rs\<close> and of title clean-up; the Tauri shell; the listener
  of remote access, and how \<^verbatim>\<open>feed.rs\<close> reads each provider's hooks. Within the modelled
  files: the wake-up call of a tap, file I/O of snapshots, reading GitHub, the prompt and inbox texts.
\<close>

end
